(* ===== verification/Prelude.thy ===== *)
theory Prelude
  imports Main "HOL-Library.Word"
begin

text \<open>
  Shared vocabulary of the development: machine integers at the width the C code gives them,
  byte strings, the little-endian layout of 16- and 32-bit integers in memory, and the list
  facts the components share.  Collections: \<open>le_simps\<close> holds the layout facts.
\<close>

unbundle bit_operations_syntax

type_synonym u8 = "8 word"
type_synonym u16 = "16 word"
type_synonym u32 = "32 word"
type_synonym u64 = "64 word"
type_synonym bytes = "u8 list"

named_theorems le_simps \<open>layout of integers in memory\<close>

subsection \<open>Little-endian integers\<close>

definition le16 :: "u16 \<Rightarrow> bytes" where
  "le16 w = [ucast w, ucast (drop_bit 8 w)]"

definition le32 :: "u32 \<Rightarrow> bytes" where
  "le32 w = [ucast w, ucast (drop_bit 8 w), ucast (drop_bit 16 w), ucast (drop_bit 24 w)]"

definition u16_of :: "u8 \<Rightarrow> u8 \<Rightarrow> u16" where
  "u16_of a b = ucast a OR push_bit 8 (ucast b)"

definition u32_of :: "u8 \<Rightarrow> u8 \<Rightarrow> u8 \<Rightarrow> u8 \<Rightarrow> u32" where
  "u32_of a b c d =
     ucast a OR push_bit 8 (ucast b) OR push_bit 16 (ucast c) OR push_bit 24 (ucast d)"

lemma length_le16 [simp, le_simps]: "length (le16 w) = 2"
  by (simp add: le16_def)

lemma length_le32 [simp, le_simps]: "length (le32 w) = 4"
  by (simp add: le32_def)

lemma u16_of_le16 [le_simps]:
  "u16_of (ucast w) (ucast (drop_bit 8 w)) = w"
  unfolding u16_of_def by (rule bit_word_eqI) (auto simp: bit_simps)

lemma u32_of_le32 [le_simps]:
  "u32_of (ucast w) (ucast (drop_bit 8 w)) (ucast (drop_bit 16 w)) (ucast (drop_bit 24 w)) = w"
proof (rule bit_word_eqI)
  fix n
  assume "n < LENGTH(32)"
  then consider "n < 8" | "8 \<le> n \<and> n < 16" | "16 \<le> n \<and> n < 24" | "24 \<le> n \<and> n < 32"
    by (simp only: len_of_numeral_defs) linarith
  then show "bit (u32_of (ucast w) (ucast (drop_bit 8 w)) (ucast (drop_bit 16 w))
      (ucast (drop_bit 24 w))) n = bit w n"
    by cases (auto simp: u32_of_def bit_simps)
qed

text \<open>\<open>get32 bs i\<close> reads the four bytes of \<open>bs\<close> at \<open>i\<close>.\<close>

definition get32 :: "bytes \<Rightarrow> nat \<Rightarrow> u32" where
  "get32 bs i = u32_of (bs ! i) (bs ! (i + 1)) (bs ! (i + 2)) (bs ! (i + 3))"

definition get16 :: "bytes \<Rightarrow> nat \<Rightarrow> u16" where
  "get16 bs i = u16_of (bs ! i) (bs ! (i + 1))"

lemma get32_le32:
  assumes "take 4 (drop i bs) = le32 w"
  shows "get32 bs i = w"
proof -
  have "bs ! (i + j) = le32 w ! j" if "j < 4" for j
  proof -
    have "length (take 4 (drop i bs)) = 4" using assms by simp
    then have "i + 4 \<le> length bs" by (simp add: min_def split: if_splits)
    with that have "take 4 (drop i bs) ! j = bs ! (i + j)" by simp
    then show ?thesis using assms by simp
  qed
  from this [of 0] this [of 1] this [of 2] this [of 3] show ?thesis
    by (simp add: get32_def le32_def u32_of_le32)
qed

subsection \<open>C strings\<close>

text \<open>The length of the string in a buffer, and the string itself.\<close>

definition strlen :: "bytes \<Rightarrow> nat" where
  "strlen s = length (takeWhile (\<lambda>b. b \<noteq> 0) s)"

definition cstr :: "bytes \<Rightarrow> bytes" where
  "cstr s = take (strlen s) s"

lemma length_cstr [simp]: "length (cstr s) = strlen s"
  unfolding cstr_def strlen_def by (simp add: length_takeWhile_le min_absorb2)

lemma cstr_takeWhile: "cstr s = takeWhile (\<lambda>b. b \<noteq> 0) s"
  unfolding cstr_def strlen_def by (rule takeWhile_eq_take [symmetric])

subsection \<open>Lists\<close>

lemma take_then_rest:
  assumes "n \<le> m"
  shows "take n xs @ take (m - length (take n xs)) (drop (length (take n xs)) xs) = take m xs"
proof (cases "n \<le> length xs")
  case True
  then have "take m xs = take n xs @ take (m - n) (drop n xs)"
    using assms by (metis le_add_diff_inverse take_add)
  with True show ?thesis by simp
next
  case False
  then show ?thesis using assms by simp
qed

end
