(* ===== verification/KvFile.thy ===== *)
theory KvFile
  imports Prelude
begin

text \<open>
  The file layer of \<open>m9/kvdb.c\<close>: the on-disk header \<open>record_t\<close>, its checksum, the open file
  behind the descriptor, and the two transfer loops \<open>read_all_or_eof\<close> and \<open>write_all\<close>.  The
  loops are modelled against a list of system-call outcomes and shown equal to the one-shot
  transfers the rest of the store is written with.
\<close>

subsection \<open>The record header\<close>

definition KVDB_MAGIC :: u32 where "KVDB_MAGIC = 0x4b564442"
definition KVDB_COMMITTED :: u32 where "KVDB_COMMITTED = 0xc01117ed"
definition KVDB_MAX_KEY :: u32 where "KVDB_MAX_KEY = 64 * 1024"
definition KVDB_MAX_VALUE :: u32 where "KVDB_MAX_VALUE = 16 * 1024 * 1024"

record record_t =
  magic :: u32
  committed :: u32
  key_len :: u32
  value_len :: u32
  checksum :: u32
  reserved :: u32

definition HDR :: nat where "HDR = 24"

definition rec_bytes :: "record_t \<Rightarrow> bytes" where
  "rec_bytes r = le32 (magic r) @ le32 (committed r) @ le32 (key_len r) @
     le32 (value_len r) @ le32 (checksum r) @ le32 (reserved r)"

definition rec_of :: "bytes \<Rightarrow> record_t" where
  "rec_of bs = \<lparr>magic = get32 bs 0, committed = get32 bs 4, key_len = get32 bs 8,
     value_len = get32 bs 12, checksum = get32 bs 16, reserved = get32 bs 20\<rparr>"

fun fnv1a :: "bytes \<Rightarrow> u32 \<Rightarrow> u32" where
  "fnv1a [] h = h"
| "fnv1a (b # bs) h = fnv1a bs ((h XOR ucast b) * 16777619)"

definition record_checksum :: "u32 \<Rightarrow> u32 \<Rightarrow> bytes \<Rightarrow> bytes \<Rightarrow> u32" where
  "record_checksum kl vl key val =
     (let h = 2166136261;
          h = fnv1a (le32 kl) h;
          h = fnv1a (le32 vl) h;
          h = fnv1a (take (unat kl) key) h;
          h = fnv1a (take (unat vl) val) h
      in h)"

lemma length_rec_bytes [simp]: "length (rec_bytes r) = HDR"
  by (simp add: rec_bytes_def HDR_def)

lemma rec_of_rec_bytes [simp]: "rec_of (rec_bytes r @ t) = r"
  by (cases r) (simp add: rec_of_def rec_bytes_def get32_le32)

lemma rec_of_rec_bytes' [simp]: "rec_of (rec_bytes r) = r"
  using rec_of_rec_bytes [of r "[]"] by simp

lemma fnv1a_append: "fnv1a (xs @ ys) h = fnv1a ys (fnv1a xs h)"
  by (induction xs arbitrary: h) auto

subsection \<open>The open file\<close>

text \<open>
  \<open>bad i\<close> says that the device cannot deliver byte \<open>i\<close>: a read that touches it fails
  with an error other than EINTR.
\<close>

record kfile =
  contents :: bytes
  pos :: nat
  bad :: "nat \<Rightarrow> bool"

definition healthy :: "kfile \<Rightarrow> bool" where
  "healthy f \<longleftrightarrow> bad f = (\<lambda>_. False)"

definition remaining :: "kfile \<Rightarrow> bytes" where
  "remaining f = drop (pos f) (contents f)"

definition file_write :: "kfile \<Rightarrow> bytes \<Rightarrow> kfile" where
  "file_write f d = f\<lparr>
     contents := take (pos f) (contents f) @ d @ drop (pos f + length d) (contents f),
     pos := pos f + length d\<rparr>"

definition file_pwrite :: "kfile \<Rightarrow> bytes \<Rightarrow> nat \<Rightarrow> kfile" where
  "file_pwrite f d i = f\<lparr>
     contents := take i (contents f) @ d @ drop (i + length d) (contents f)\<rparr>"

definition ftruncate :: "kfile \<Rightarrow> nat \<Rightarrow> kfile" where
  "ftruncate f n = f\<lparr>contents := take n (contents f) @ replicate (n - length (contents f)) 0\<rparr>"

text \<open>Outcome of one \<open>read\<close> or \<open>write\<close>: interrupted, failed, or at most \<open>Suc c\<close> bytes.\<close>

datatype io_event = Eintr | Eio | Upto nat

fun read_loop :: "io_event list \<Rightarrow> kfile \<Rightarrow> nat \<Rightarrow> bytes \<Rightarrow> (int \<times> bytes \<times> kfile) option" where
  "read_loop evs f len data =
     (if length data < len then
        (case evs of
           [] \<Rightarrow> None
         | Eintr # evs' \<Rightarrow> read_loop evs' f len data
         | Eio # evs' \<Rightarrow> Some (-1, data, f)
         | Upto c # evs' \<Rightarrow>
             (let got = take (min (Suc c) (len - length data)) (remaining f) in
              if got = [] then Some (if data = [] then 0 else -1, data, f)
              else read_loop evs' (f\<lparr>pos := pos f + length got\<rparr>) len (data @ got)))
      else Some (1, data, f))"

declare read_loop.simps [simp del]

definition read_all_or_eof :: "kfile \<Rightarrow> nat \<Rightarrow> int \<times> bytes \<times> kfile" where
  "read_all_or_eof f len =
     (let got = take len (remaining f);
          f' = f\<lparr>pos := pos f + length got\<rparr>
      in if \<exists>i \<in> set [0..<length got]. bad f (pos f + i) then (-1, [], f)
         else if length got = len then (1, got, f')
         else if got = [] then (0, got, f')
         else (-1, got, f'))"

fun write_loop :: "io_event list \<Rightarrow> kfile \<Rightarrow> bytes \<Rightarrow> (int \<times> kfile) option" where
  "write_loop evs f data =
     (if data = [] then Some (0, f)
      else
        (case evs of
           [] \<Rightarrow> None
         | Eintr # evs' \<Rightarrow> write_loop evs' f data
         | Eio # evs' \<Rightarrow> Some (-1, f)
         | Upto c # evs' \<Rightarrow>
             write_loop evs' (file_write f (take (Suc c) data)) (drop (Suc c) data)))"

declare write_loop.simps [simp del]

text \<open>\<open>write_all (Some n)\<close> is a transfer that fails after \<open>n\<close> bytes.\<close>

definition write_all :: "nat option \<Rightarrow> kfile \<Rightarrow> bytes \<Rightarrow> int \<times> kfile" where
  "write_all w f data =
     (case w of None \<Rightarrow> (0, file_write f data)
      | Some n \<Rightarrow> (-1, file_write f (take n data)))"

subsection \<open>The loops transfer everything\<close>

text \<open>The outcomes that make progress; a loop ends once it has seen enough of them.\<close>

definition transfers :: "io_event list \<Rightarrow> nat" where
  "transfers evs = length (filter (\<lambda>e. e \<noteq> Eintr) evs)"

lemma transfers_simps [simp]:
  "transfers [] = 0"
  "transfers (Eintr # evs) = transfers evs"
  "transfers (Eio # evs) = Suc (transfers evs)"
  "transfers (Upto c # evs) = Suc (transfers evs)"
  by (simp_all add: transfers_def)

lemma seek_seek: "f\<lparr>pos := i, pos := j\<rparr> = f\<lparr>pos := j\<rparr>" and pos_seek: "pos (f\<lparr>pos := i\<rparr>) = i"
  by simp_all

lemma remaining_advance [simp]:
  "remaining (f\<lparr>pos := pos f + n\<rparr>) = drop n (remaining f)"
  by (simp add: remaining_def add.commute)

lemma read_loop_steps [simp]:
  "\<not> length data < len \<Longrightarrow> read_loop evs f len data = Some (1, data, f)"
  "length data < len \<Longrightarrow> read_loop [] f len data = None"
  "length data < len \<Longrightarrow> read_loop (Eintr # evs) f len data = read_loop evs f len data"
  "length data < len \<Longrightarrow> read_loop (Eio # evs) f len data = Some (-1, data, f)"
  by (simp_all add: read_loop.simps [of evs] read_loop.simps [of "[]"]
      read_loop.simps [of "Eintr # evs"] read_loop.simps [of "Eio # evs"])

lemma write_loop_steps [simp]:
  "write_loop evs f [] = Some (0, f)"
  "data \<noteq> [] \<Longrightarrow> write_loop [] f data = None"
  "data \<noteq> [] \<Longrightarrow> write_loop (Eintr # evs) f data = write_loop evs f data"
  "data \<noteq> [] \<Longrightarrow> write_loop (Eio # evs) f data = Some (-1, f)"
  "data \<noteq> [] \<Longrightarrow> write_loop (Upto c # evs) f data =
     write_loop evs (file_write f (take (Suc c) data)) (drop (Suc c) data)"
  by (simp_all add: write_loop.simps [of evs] write_loop.simps [of "[]"]
      write_loop.simps [of "Eintr # evs"] write_loop.simps [of "Eio # evs"]
      write_loop.simps [of "Upto c # evs"])

lemma file_write_nil [simp]: "file_write f [] = f"
  by (simp add: file_write_def)

lemma pos_file_write [simp]: "pos (file_write f d) = pos f + length d"
  by (simp add: file_write_def)

lemma file_write_append:
  assumes "pos f \<le> length (contents f)"
  shows "file_write (file_write f d) e = file_write f (d @ e)"
proof -
  have "length (take (pos f) (contents f) @ d) = pos f + length d" using assms by simp
  then show ?thesis
    using assms by (simp add: file_write_def add.commute add.left_commute)
qed

lemma file_write_in_range:
  assumes "pos f \<le> length (contents f)"
  shows "pos (file_write f d) \<le> length (contents (file_write f d))"
  using assms by (simp add: file_write_def)

lemma read_loop_result:
  assumes "Eio \<notin> set evs" and "len - length data \<le> transfers evs" and "length data \<le> len"
  shows "read_loop evs f len data =
    (let got = take (len - length data) (remaining f);
         f' = f\<lparr>pos := pos f + length got\<rparr>
     in Some (if length data + length got = len then 1 else if data @ got = [] then 0 else -1,
              data @ got, f'))"
  using assms
proof (induction evs f len data rule: read_loop.induct)
  case (1 evs f len data)
  show ?case
  proof (cases "length data < len")
    case False
    with "1.prems" show ?thesis by (simp add: Let_def)
  next
    case True
    with "1.prems" obtain e evs' where evs: "evs = e # evs'" by (cases evs) auto
    show ?thesis
    proof (cases e)
      case Eintr
      with evs True "1.prems" "1.IH"(1) [OF True evs Eintr] show ?thesis
        by simp
    next
      case Eio
      with evs "1.prems" show ?thesis by simp
    next
      case (Upto c)
      let ?n = "min (Suc c) (len - length data)"
      let ?got = "take ?n (remaining f)"
      show ?thesis
      proof (cases "?got = []")
        case True
        with \<open>length data < len\<close> have "remaining f = []" by auto
        with \<open>length data < len\<close> evs Upto show ?thesis
          by (simp add: read_loop.simps [of "Upto c # evs'"] Let_def)
      next
        case False
        then have "?got \<noteq> []" "0 < length ?got" by simp_all
        let ?f = "f\<lparr>pos := pos f + length ?got\<rparr>"
        have len': "length (data @ ?got) \<le> len" using "1.prems" by simp
        have no_eio: "Eio \<notin> set evs'" using "1.prems" evs by simp
        have more: "len - length (data @ ?got) \<le> transfers evs'"
        proof -
          have "len - length data \<le> Suc (transfers evs')" using "1.prems" evs Upto by simp
          with \<open>0 < length ?got\<close> show ?thesis unfolding length_append by linarith
        qed
        have step: "read_loop evs f len data = read_loop evs' ?f len (data @ ?got)"
          using \<open>length data < len\<close> evs Upto False
          by (simp add: read_loop.simps [of "Upto c # evs'"] Let_def)
        have rest: "?got @ take (len - length (data @ ?got)) (remaining ?f)
            = take (len - length data) (remaining f)" (is "_ @ ?r = ?w")
          using take_then_rest [of ?n "len - length data" "remaining f"]
          by (simp only: remaining_advance length_append diff_diff_left)
        have total: "length ?got + length ?r = length ?w"
          by (metis length_append rest)
        have IH: "read_loop evs' ?f len (data @ ?got) =
          Some (if length (data @ ?got) + length ?r = len then 1
                else if (data @ ?got) @ ?r = [] then 0 else -1,
               (data @ ?got) @ ?r, ?f\<lparr>pos := pos ?f + length ?r\<rparr>)"
          unfolding "1.IH"(2) [OF \<open>length data < len\<close> evs Upto refl False no_eio more len'] Let_def
          by (rule refl)
        have pos: "pos f + length ?got + length ?r = pos f + length ?w"
          by (simp only: total [symmetric] add.assoc)
        have data: "(data @ ?got) @ ?r = data @ ?w" by (simp only: append_assoc rest)
        have "length (data @ ?got) + length ?r = length data + length ?w"
          by (simp only: length_append total [symmetric] add.assoc)
        then show ?thesis
          unfolding step IH data Let_def
          by (simp only: seek_seek pos_seek pos)
      qed
    qed
  qed
qed

lemma write_loop_result:
  assumes "Eio \<notin> set evs" and "length data \<le> transfers evs" and "pos f \<le> length (contents f)"
  shows "write_loop evs f data = Some (0, file_write f data)"
  using assms
proof (induction evs f data rule: write_loop.induct)
  case (1 evs f data)
  show ?case
  proof (cases "data = []")
    case True
    then show ?thesis by simp
  next
    case False
    with "1.prems" obtain e evs' where evs: "evs = e # evs'" by (cases evs) auto
    show ?thesis
    proof (cases e)
      case Eintr
      with evs False "1.prems" "1.IH"(1) [OF False evs Eintr] show ?thesis
        by simp
    next
      case Eio
      with evs "1.prems" show ?thesis by simp
    next
      case (Upto c)
      let ?f = "file_write f (take (Suc c) data)"
      have "length (drop (Suc c) data) \<le> transfers evs'"
        using "1.prems" evs Upto by simp
      moreover have "pos ?f \<le> length (contents ?f)"
        using "1.prems" by (intro file_write_in_range)
      ultimately have "write_loop evs f data = Some (0, file_write ?f (drop (Suc c) data))"
        using "1.IH"(2) [OF False evs Upto] "1.prems" evs Upto False
        by simp
      moreover have "file_write ?f (drop (Suc c) data) = file_write f data"
        using "1.prems" by (simp only: file_write_append append_take_drop_id)
      ultimately show ?thesis by simp
    qed
  qed
qed

lemma write_loop_cases:
  assumes "write_loop evs f data = Some (r, f')" and "pos f \<le> length (contents f)"
  shows "r = 0 \<and> f' = file_write f data \<or> (\<exists>n. r = -1 \<and> f' = file_write f (take n data))"
  using assms
proof (induction evs f data rule: write_loop.induct)
  case (1 evs f data)
  show ?case
  proof (cases "data = []")
    case True
    with "1.prems" show ?thesis by simp
  next
    case False
    with "1.prems" obtain e evs' where evs: "evs = e # evs'"
      by (cases evs) auto
    show ?thesis
    proof (cases e)
      case Eintr
      with evs False "1.prems" "1.IH"(1) [OF False evs Eintr] show ?thesis
        by simp
    next
      case Eio
      with evs "1.prems" False have "r = -1 \<and> f' = file_write f (take 0 data)"
        by (auto simp: file_write_def)
      then show ?thesis by blast
    next
      case (Upto c)
      let ?f = "file_write f (take (Suc c) data)"
      have join: "file_write ?f (take n (drop (Suc c) data)) = file_write f (take (Suc c + n) data)"
        "file_write ?f (drop (Suc c) data) = file_write f data" for n
        using "1.prems" by (simp_all only: file_write_append append_take_drop_id take_add)
      have "write_loop evs' ?f (drop (Suc c) data) = Some (r, f')"
        using "1.prems" evs Upto False by (simp add: write_loop.simps [of evs])
      moreover have "pos ?f \<le> length (contents ?f)"
        using "1.prems" by (intro file_write_in_range)
      ultimately show ?thesis
        using "1.IH"(2) [OF False evs Upto] by (auto simp: join)
    qed
  qed
qed

end
