(* ===== verification/KvStore.thy ===== *)
theory KvStore
  imports KvFile
begin

text \<open>
  The operations of \<open>m9/kvdb.c\<close> over the file layer: \<open>kvdb_open\<close>, \<open>kvdb_put\<close>, \<open>kvdb_get\<close>,
  \<open>kvdb_close\<close> with the scans they run and the three locks they take.  What the kernel and the
  allocator answer is an argument (\<open>env\<close>), so that every error branch of the code is a branch
  here, and a crash in the middle of \<open>kvdb_put\<close> is the file that a failing call leaves.
\<close>

subsection \<open>State and environment\<close>

text \<open>
  \<open>env\<close>: the outcome of each fallible call.  The seeks are those to the start of the file, in the scans,
  the one that asks for the position (\<open>lseek_cur_ok n\<close> at the position \<open>n\<close>), and the one of \<open>kvdb_put\<close>
  to the end of the valid prefix.  \<open>w_rec\<close>, \<open>w_key\<close>, \<open>w_value\<close>: \<open>None\<close> when the
  \<open>write_all\<close> completes, \<open>Some n\<close> when it fails after \<open>n\<close> bytes; \<open>w_commit\<close> the same for the
  \<open>pwrite\<close> of the commit word.
\<close>

record env =
  alloc_ok :: "nat \<Rightarrow> bool"
  flock_ok :: bool
  lseek_ok :: bool
  lseek_cur_ok :: "nat \<Rightarrow> bool"
  lseek_end_ok :: bool
  ftruncate_ok :: bool
  w_rec :: "nat option"
  w_key :: "nat option"
  w_value :: "nat option"
  fsync_ok :: bool
  w_commit :: "nat option"
  fsync2_ok :: bool

text \<open>The handle \<open>struct kvdb_t\<close>, \<open>global_mutex\<close>, the advisory lock, and the file behind \<open>fd\<close>.\<close>

record kvdb_t =
  path :: "bytes option"
  fd :: int
  mutex :: bool
  global_mutex :: bool
  flocked :: bool
  db_file :: kfile

definition unlocked :: "kvdb_t \<Rightarrow> bool" where
  "unlocked db \<longleftrightarrow> \<not> mutex db \<and> \<not> global_mutex db \<and> \<not> flocked db"

definition lock_db :: "env \<Rightarrow> kvdb_t \<Rightarrow> int \<times> kvdb_t" where
  "lock_db e db =
     (let db = db\<lparr>global_mutex := True\<rparr>;
          db = db\<lparr>mutex := True\<rparr>
      in if flock_ok e then (0, db\<lparr>flocked := True\<rparr>)
         else (-1, db\<lparr>mutex := False, global_mutex := False\<rparr>))"

definition unlock_db :: "kvdb_t \<Rightarrow> kvdb_t" where
  "unlock_db db = db\<lparr>flocked := False, mutex := False, global_mutex := False\<rparr>"

subsection \<open>Scanning for the end of the valid prefix\<close>

definition header_ok :: "record_t \<Rightarrow> bool" where
  "header_ok r \<longleftrightarrow> magic r = KVDB_MAGIC \<and> key_len r \<noteq> 0 \<and>
     key_len r \<le> KVDB_MAX_KEY \<and> value_len r \<le> KVDB_MAX_VALUE"

lemma read_all_or_eof_one:
  assumes "read_all_or_eof f len = (1, d, f')"
  shows "contents f' = contents f \<and> bad f' = bad f \<and> pos f' = pos f + len \<and> length d = len \<and>
    (len = 0 \<or> pos f + len \<le> length (contents f)) \<and> d = take len (remaining f)"
  using assms
  by (auto simp: read_all_or_eof_def Let_def remaining_def split: if_splits)

function valid_prefix_loop :: "env \<Rightarrow> kfile \<Rightarrow> nat \<Rightarrow> int" where
  "valid_prefix_loop e f valid_end =
     (if \<not> lseek_cur_ok e (pos f) then -1
      else
        (let rec_off = pos f in
         case read_all_or_eof f HDR of (r, hdr, f1) \<Rightarrow>
           if r = 0 then int valid_end
           else
             (let rec = rec_of hdr; kl = unat (key_len rec); vl = unat (value_len rec) in
              if r \<noteq> 1 \<or> committed rec \<noteq> KVDB_COMMITTED \<or> \<not> header_ok rec then int valid_end
              else if \<not> alloc_ok e kl \<or> \<not> alloc_ok e (if vl = 0 then 1 else vl) then -1
              else
                (case read_all_or_eof f1 kl of (r1, k, f2) \<Rightarrow>
                   if r1 \<noteq> 1 then int valid_end
                   else
                     (case read_all_or_eof f2 vl of (r2, v, f3) \<Rightarrow>
                        if r2 \<noteq> 1 then int valid_end
                        else if record_checksum (key_len rec) (value_len rec) k v \<noteq> checksum rec
                        then int valid_end
                        else valid_prefix_loop e f3 (rec_off + HDR + kl + vl))))))"
  by pat_completeness auto
termination
proof (relation "measure (\<lambda>(e, f, n). length (contents f) - pos f)", goal_cases)
  case 1
  show ?case by simp
next
  case 2
  then show ?case
    by (auto simp: HDR_def dest!: read_all_or_eof_one [OF sym])
qed

declare valid_prefix_loop.simps [simp del]

definition valid_prefix_end :: "env \<Rightarrow> kfile \<Rightarrow> int" where
  "valid_prefix_end e f =
     (if \<not> lseek_ok e then -1 else valid_prefix_loop e (f\<lparr>pos := 0\<rparr>) 0)"

subsection \<open>kvdb_put\<close>

text \<open>
  The file part of \<open>kvdb_put\<close>, between \<open>lock_db\<close> and \<open>unlock_db\<close>: the chain of calls stops at
  the first that fails, and the file is left as the calls before it made it.
\<close>

definition put_file :: "env \<Rightarrow> kfile \<Rightarrow> record_t \<Rightarrow> bytes \<Rightarrow> bytes \<Rightarrow> int \<times> kfile" where
  "put_file e f rec key val =
     (let off = valid_prefix_end e f in
      if off < 0 \<or> \<not> ftruncate_ok e then (-1, f)
      else
        (let f = ftruncate f (nat off) in
         if \<not> lseek_end_ok e then (-1, f)
         else
           (let f = f\<lparr>pos := nat off\<rparr> in
            case write_all (w_rec e) f (rec_bytes rec) of (r, f) \<Rightarrow>
              if r \<noteq> 0 then (-1, f)
              else
                (case write_all (w_key e) f (take (unat (key_len rec)) key) of (r, f) \<Rightarrow>
                   if r \<noteq> 0 then (-1, f)
                   else
                     (case write_all (w_value e) f (take (unat (value_len rec)) val) of (r, f) \<Rightarrow>
                        if r \<noteq> 0 \<or> \<not> fsync_ok e then (-1, f)
                        else
                          (let word = le32 KVDB_COMMITTED; at = nat off + 4 in
                           case w_commit e of
                             Some n \<Rightarrow> (-1, file_pwrite f (take (min n 3) word) at)
                           | None \<Rightarrow>
                               (if fsync2_ok e then 0 else -1, file_pwrite f word at)))))))"

definition put_record :: "bytes \<Rightarrow> bytes \<Rightarrow> record_t" where
  "put_record key val =
     (let kl = word_of_nat (strlen key); vl = word_of_nat (strlen val)
      in \<lparr>magic = KVDB_MAGIC, committed = 0, key_len = kl, value_len = vl,
          checksum = record_checksum kl vl key val, reserved = 0\<rparr>)"

definition kvdb_put :: "env \<Rightarrow> kvdb_t option \<Rightarrow> bytes option \<Rightarrow> bytes option \<Rightarrow>
    int \<times> kvdb_t option" where
  "kvdb_put e dbp keyp valp =
     (case (dbp, keyp, valp) of
        (Some db, Some key, Some val) \<Rightarrow>
          if fd db < 0 then (-1, dbp)
          else if strlen key = 0 \<or> strlen key > unat KVDB_MAX_KEY \<or>
                  strlen val > unat KVDB_MAX_VALUE then (-1, dbp)
          else
            (let rec = put_record key val in
             case lock_db e db of (r, db) \<Rightarrow>
               if r \<noteq> 0 then (-1, Some db)
               else
                 (case put_file e (db_file db) rec key val of (ok, f) \<Rightarrow>
                    (ok, Some (unlock_db (db\<lparr>db_file := f\<rparr>)))))
      | _ \<Rightarrow> (-1, dbp))"

subsection \<open>kvdb_get\<close>

text \<open>
  The scan of \<open>kvdb_get\<close>.  The result is \<open>None\<close> where an allocation fails (\<open>goto out\<close> with
  \<open>rc = -1\<close>) and \<open>Some best\<close> where the loop ends.
\<close>

function get_loop :: "env \<Rightarrow> kfile \<Rightarrow> bytes \<Rightarrow> nat \<Rightarrow> bytes option \<Rightarrow> bytes option option" where
  "get_loop e f key want_len best =
     (case read_all_or_eof f HDR of (r, hdr, f1) \<Rightarrow>
        if r = 0 then Some best
        else
          (let rec = rec_of hdr; kl = unat (key_len rec); vl = unat (value_len rec) in
           if r \<noteq> 1 \<or> \<not> header_ok rec then Some best
           else if \<not> alloc_ok e (kl + 1) \<or> \<not> alloc_ok e (vl + 1) then None
           else
             (case read_all_or_eof f1 kl of (r1, k, f2) \<Rightarrow>
                if r1 \<noteq> 1 then Some best
                else
                  (case read_all_or_eof f2 vl of (r2, v, f3) \<Rightarrow>
                     if r2 \<noteq> 1 then Some best
                     else if committed rec = KVDB_COMMITTED \<and>
                          checksum rec = record_checksum (key_len rec) (value_len rec) k v \<and>
                          kl = want_len \<and> take want_len k = take want_len key
                     then if alloc_ok e (vl + 1) then get_loop e f3 key want_len (Some v) else None
                     else get_loop e f3 key want_len best))))"
  by pat_completeness auto
termination
proof (relation "measure (\<lambda>(e, f, k, n, b). length (contents f) - pos f)", goal_cases)
  case 1
  show ?case by simp
next
  case 2
  then show ?case by (auto simp: HDR_def dest!: read_all_or_eof_one [OF sym])
next
  case 3
  then show ?case by (auto simp: HDR_def dest!: read_all_or_eof_one [OF sym])
qed

declare get_loop.simps [simp del]

text \<open>
  The copy-out: with a buffer of \<open>n > 0\<close> bytes the value is cut to \<open>n - 1\<close> bytes and closed by
  a NUL; without one the call is a probe.  The second component is what is written to \<open>buf\<close>.
\<close>

definition copy_out :: "bytes option \<Rightarrow> bool \<Rightarrow> nat \<Rightarrow> int \<times> bytes option" where
  "copy_out best has_buf len =
     (case best of
        None \<Rightarrow> (-1, None)
      | Some v \<Rightarrow>
          if has_buf \<and> len > 0
          then (let n = (if length v \<ge> len then len - 1 else length v)
                in (int n, Some (take n v @ [0])))
          else (0, None))"

definition kvdb_get :: "env \<Rightarrow> kvdb_t option \<Rightarrow> bytes option \<Rightarrow> bool \<Rightarrow> nat \<Rightarrow>
    int \<times> bytes option \<times> kvdb_t option" where
  "kvdb_get e dbp keyp has_buf len =
     (case (dbp, keyp) of
        (Some db, Some key) \<Rightarrow>
          if fd db < 0 \<or> (\<not> has_buf \<and> len \<noteq> 0) then (-1, None, dbp)
          else if strlen key = 0 \<or> strlen key > unat KVDB_MAX_KEY then (-1, None, dbp)
          else
            (case lock_db e db of (r, db) \<Rightarrow>
               if r \<noteq> 0 then (-1, None, Some db)
               else if \<not> lseek_ok e then (-1, None, Some (unlock_db db))
               else
                 (case get_loop e ((db_file db)\<lparr>pos := 0\<rparr>) key (strlen key) None of
                    None \<Rightarrow> (-1, None, Some (unlock_db db))
                  | Some best \<Rightarrow>
                      (case copy_out best has_buf len of (rc, out) \<Rightarrow>
                         (rc, out, Some (unlock_db db)))))
      | _ \<Rightarrow> (-1, None, dbp))"

subsection \<open>kvdb_open and kvdb_close\<close>

text \<open>
  \<open>open\<close>, \<open>strdup\<close> and \<open>pthread_mutex_init\<close> answer \<open>ofd\<close>, \<open>dup_ok\<close> and \<open>init_ok\<close>; \<open>opened\<close>
  collects the descriptors that are open, so that a leak shows.
\<close>

definition kvdb_open :: "int \<Rightarrow> bool \<Rightarrow> bool \<Rightarrow> kvdb_t option \<Rightarrow> bytes option \<Rightarrow> int set \<Rightarrow>
    int \<times> kvdb_t option \<times> int set" where
  "kvdb_open ofd dup_ok init_ok dbp pathp opened =
     (case (dbp, pathp) of
        (Some db, Some p) \<Rightarrow>
          if ofd < 0 then (-1, dbp, opened)
          else
            (let opened = insert ofd opened in
             if \<not> dup_ok then (-1, dbp, opened - {ofd})
             else
               (let db = db\<lparr>path := Some p, fd := ofd\<rparr> in
                if \<not> init_ok
                then (-1, Some (db\<lparr>path := None, fd := -1\<rparr>), opened - {ofd})
                else (0, Some (db\<lparr>mutex := False\<rparr>), opened)))
      | _ \<Rightarrow> (-1, dbp, opened))"

definition kvdb_close :: "int \<Rightarrow> kvdb_t option \<Rightarrow> int set \<Rightarrow> int \<times> kvdb_t option \<times> int set" where
  "kvdb_close close_rc dbp opened =
     (case dbp of
        None \<Rightarrow> (-1, dbp, opened)
      | Some db \<Rightarrow>
          if fd db < 0 then (-1, dbp, opened)
          else (close_rc, Some (db\<lparr>fd := -1, path := None\<rparr>), opened - {fd db}))"

end
