(* ===== verification/KvSpec.thy ===== *)
theory KvSpec
  imports KvStore
begin

text \<open>
  What the log of \<open>m9/kvdb.c\<close> means: a reference parser of the file's bytes (\<open>parse_entry\<close>,
  \<open>live_recs\<close>, \<open>valid_end\<close>), the map a file stands for, and the proof that the two scans of the
  code compute exactly these on a healthy device.
\<close>

subsection \<open>The reference parser\<close>

definition parse_entry :: "bytes \<Rightarrow> (record_t \<times> bytes \<times> bytes \<times> bytes) option" where
  "parse_entry t =
     (let r = rec_of (take HDR t); kl = unat (key_len r); vl = unat (value_len r);
          body = drop HDR t
      in if length t < HDR \<or> \<not> header_ok r \<or> length body < kl + vl then None
         else Some (r, take kl body, take vl (drop kl body), drop (kl + vl) body))"

definition is_live :: "record_t \<Rightarrow> bytes \<Rightarrow> bytes \<Rightarrow> bool" where
  "is_live r k v \<longleftrightarrow> committed r = KVDB_COMMITTED \<and>
     record_checksum (key_len r) (value_len r) k v = checksum r"

lemma parse_entry_Some:
  assumes "parse_entry t = Some (r, k, v, rest)"
  shows "t = take HDR t @ k @ v @ rest" "length (take HDR t) = HDR" "r = rec_of (take HDR t)"
    "header_ok r" "length k = unat (key_len r)" "length v = unat (value_len r)" "k \<noteq> []"
proof -
  show "length (take HDR t) = HDR" "r = rec_of (take HDR t)" "header_ok r"
    "length k = unat (key_len r)" "length v = unat (value_len r)"
    using assms by (auto simp: parse_entry_def Let_def split: if_splits)
  then show "k \<noteq> []" by (auto simp: header_ok_def unat_eq_0)
  show "t = take HDR t @ k @ v @ rest"
    using assms by (auto simp: parse_entry_def Let_def split: if_splits)
      (metis add.commute append_take_drop_id drop_drop)
qed

lemma parse_entry_append:
  assumes "header_ok (rec_of h)" "length h = HDR"
    "length k = unat (key_len (rec_of h))" "length v = unat (value_len (rec_of h))"
  shows "parse_entry (h @ k @ v @ t) = Some (rec_of h, k, v, t)"
  using assms by (simp add: parse_entry_def Let_def)

lemma parse_entry_length:
  assumes "parse_entry t = Some (r, k, v, rest)"
  shows "length t = HDR + length k + length v + length rest"
  using arg_cong [where f = length, OF parse_entry_Some(1) [OF assms]]
  by (simp only: length_append parse_entry_Some(2) [OF assms] add.assoc)

lemma parse_entry_shorter:
  "parse_entry t = Some (r, k, v, rest) \<Longrightarrow> length rest < length t"
  by (simp add: parse_entry_length HDR_def)

function live_recs :: "bytes \<Rightarrow> (bytes \<times> bytes) list" where
  "live_recs t =
     (case parse_entry t of
        None \<Rightarrow> []
      | Some (r, k, v, rest) \<Rightarrow> (if is_live r k v then [(k, v)] else []) @ live_recs rest)"
  by pat_completeness auto
termination by (relation "measure length") (auto intro: parse_entry_shorter)

function valid_end :: "bytes \<Rightarrow> nat" where
  "valid_end t =
     (case parse_entry t of
        None \<Rightarrow> 0
      | Some (r, k, v, rest) \<Rightarrow>
          if is_live r k v then HDR + length k + length v + valid_end rest else 0)"
  by pat_completeness auto
termination by (relation "measure length") (auto intro: parse_entry_shorter)

declare live_recs.simps [simp del] valid_end.simps [simp del]

definition kv_map :: "bytes \<Rightarrow> bytes \<rightharpoonup> bytes" where
  "kv_map c = map_of (rev (live_recs c))"

text \<open>No live record is hidden behind the first record that \<open>valid_prefix_end\<close> rejects.\<close>

definition clean :: "bytes \<Rightarrow> bool" where
  "clean c \<longleftrightarrow> live_recs (drop (valid_end c) c) = []"

lemma live_recs_None [simp]: "parse_entry t = None \<Longrightarrow> live_recs t = []"
  and valid_end_None [simp]: "parse_entry t = None \<Longrightarrow> valid_end t = 0"
  by (simp_all add: live_recs.simps [of t] valid_end.simps [of t])

lemma parse_entry_short [simp]: "length t < HDR \<Longrightarrow> parse_entry t = None"
  by (simp add: parse_entry_def Let_def)

lemma parse_entry_Nil [simp]: "parse_entry [] = None"
  by (simp add: HDR_def)

lemma live_recs_append_entry:
  assumes "header_ok (rec_of h)" "length h = HDR"
    "length k = unat (key_len (rec_of h))" "length v = unat (value_len (rec_of h))"
  shows "live_recs (h @ k @ v @ t) = (if is_live (rec_of h) k v then [(k, v)] else []) @ live_recs t"
    and "valid_end (h @ k @ v @ t) =
      (if is_live (rec_of h) k v then HDR + length k + length v + valid_end t else 0)"
  using parse_entry_append [OF assms, of t]
  by (simp_all add: live_recs.simps [of "h @ k @ v @ t"] valid_end.simps [of "h @ k @ v @ t"])

lemma valid_end_le: "valid_end c \<le> length c"
proof (induction c rule: valid_end.induct)
  case (1 c)
  show ?case
  proof (cases "parse_entry c")
    case None
    then show ?thesis by simp
  next
    case (Some a)
    then obtain r k v rest where p: "parse_entry c = Some (r, k, v, rest)" by (cases a) auto
    show ?thesis
      using parse_entry_length [OF p] "1.IH" [OF p refl refl refl] p by (simp add: valid_end.simps [of c])
  qed
qed

text \<open>The valid prefix can be continued by anything, and is read the same.\<close>

lemma valid_prefix_append:
  "live_recs (take (valid_end c) c @ t) = live_recs (take (valid_end c) c) @ live_recs t \<and>
   valid_end (take (valid_end c) c @ t) = valid_end c + valid_end t"
proof (induction c rule: valid_end.induct)
  case (1 c)
  show ?case
  proof (cases "parse_entry c")
    case None
    then show ?thesis by simp
  next
    case (Some a)
    then obtain r k v rest where p: "parse_entry c = Some (r, k, v, rest)" by (cases a) auto
    note c = parse_entry_Some [OF p]
    show ?thesis
    proof (cases "is_live r k v")
      case False
      with p show ?thesis by (simp add: valid_end.simps [of c])
    next
      case True
      let ?h = "take HDR c"
      let ?p = "take (valid_end rest) rest"
      have ve: "valid_end c = HDR + length k + length v + valid_end rest"
        using True p by (simp add: valid_end.simps [of c])
      have "take (valid_end c) c = take (valid_end c) (?h @ k @ v @ rest)"
        using c(1) by simp
      also have "\<dots> = ?h @ k @ v @ ?p"
        unfolding ve take_append using c(2) by simp
      finally have eq: "take (valid_end c) c = ?h @ k @ v @ ?p" .
      have h: "header_ok (rec_of ?h)" "length ?h = HDR" "length k = unat (key_len (rec_of ?h))"
        "length v = unat (value_len (rec_of ?h))" "is_live (rec_of ?h) k v"
        using c True by auto
      have IH: "live_recs (?p @ t) = live_recs ?p @ live_recs t"
        "valid_end (?p @ t) = valid_end rest + valid_end t"
        using "1.IH" [OF p refl refl refl True] by auto
      show ?thesis
        by (simp only: eq append_assoc live_recs_append_entry [OF h(1-4)] IH)
          (simp add: h(5) ve)
    qed
  qed
qed

lemmas live_recs_prefix = valid_prefix_append [THEN conjunct1]
lemmas valid_end_prefix = valid_prefix_append [THEN conjunct2]

lemma live_recs_clean:
  assumes "clean c"
  shows "live_recs (take (valid_end c) c) = live_recs c"
  using live_recs_prefix [of c "drop (valid_end c) c"] assms
  by (simp add: clean_def)

lemma valid_end_rest: "valid_end (drop (valid_end c) c) = 0"
  using valid_end_prefix [of c "drop (valid_end c) c"] by simp

subsection \<open>The scans compute the reference parser\<close>

lemma read_all_healthy:
  assumes "healthy f"
  shows "read_all_or_eof f len =
    (if len \<le> length (remaining f) then (1, take len (remaining f), f\<lparr>pos := pos f + len\<rparr>)
     else if remaining f = [] then (0, [], f)
     else (-1, remaining f, f\<lparr>pos := pos f + length (remaining f)\<rparr>))"
  using assms by (auto simp: read_all_or_eof_def Let_def healthy_def min_def)

lemma healthy_seek [simp]: "healthy (f\<lparr>pos := i\<rparr>) = healthy f"
  by (simp add: healthy_def)

lemma read_loop_read_all:
  assumes "healthy f" "Eio \<notin> set evs" "len \<le> transfers evs"
  shows "read_loop evs f len [] = Some (read_all_or_eof f len)"
  using read_loop_result [of evs len "[]" f] read_all_healthy [OF assms(1), of len] assms(2,3)
  by (auto simp: Let_def min_def)

definition allocs :: "env \<Rightarrow> bool" where
  "allocs e \<longleftrightarrow> (\<forall>n. alloc_ok e n)"

definition after_entry :: "kfile \<Rightarrow> bytes \<Rightarrow> bytes \<Rightarrow> kfile" where
  "after_entry f k v = f\<lparr>pos := pos f + HDR + length k + length v\<rparr>"

lemma after_entry_simps [simp]:
  "healthy (after_entry f k v) = healthy f"
  "contents (after_entry f k v) = contents f"
  "pos (after_entry f k v) = pos f + HDR + length k + length v"
  by (simp_all add: after_entry_def)

lemma remaining_after_entry:
  assumes "parse_entry (remaining f) = Some (r, k, v, rest)"
  shows "remaining (after_entry f k v) = rest"
proof -
  have "remaining (after_entry f k v) = drop (HDR + length k + length v) (remaining f)"
    by (simp add: after_entry_def remaining_def ac_simps)
  also have "\<dots> = drop (HDR + length k + length v) (take HDR (remaining f) @ k @ v @ rest)"
    using parse_entry_Some(1) [OF assms] by simp
  also have "\<dots> = rest"
    using parse_entry_Some(2) [OF assms] by simp
  finally show ?thesis .
qed

text \<open>The three reads of one loop iteration, as one fact.\<close>

lemma entry_reads:
  assumes "healthy f" and "parse_entry (remaining f) = Some (r, k, v, rest)"
  shows "\<exists>f1 f2. read_all_or_eof f HDR = (1, take HDR (remaining f), f1) \<and>
    read_all_or_eof f1 (unat (key_len r)) = (1, k, f2) \<and>
    read_all_or_eof f2 (unat (value_len r)) = (1, v, after_entry f k v)"
proof -
  let ?h = "take HDR (remaining f)" and ?f1 = "f\<lparr>pos := pos f + HDR\<rparr>"
  let ?f2 = "?f1\<lparr>pos := pos ?f1 + length k\<rparr>"
  note p = parse_entry_Some [OF assms(2)]
  have l: "length (remaining f) = HDR + length k + length v + length rest"
    using parse_entry_length [OF assms(2)] .
  have r1: "remaining ?f1 = k @ v @ rest"
  proof -
    have "remaining ?f1 = drop HDR (?h @ k @ v @ rest)" using p(1) by simp
    then show ?thesis using p(2) by simp
  qed
  then have r2: "remaining ?f2 = v @ rest"
    by (metis append_eq_conv_conj remaining_advance)
  have "read_all_or_eof f HDR = (1, ?h, ?f1)"
    using assms(1) l by (simp add: read_all_healthy)
  moreover have "read_all_or_eof ?f1 (length k) = (1, k, ?f2)"
    using assms(1) r1 by (simp add: read_all_healthy)
  moreover have "read_all_or_eof ?f2 (length v) = (1, v, after_entry f k v)"
    using assms(1) r2 by (simp add: read_all_healthy after_entry_def)
  ultimately show ?thesis using p(5,6) by metis
qed

lemma entry_reads_fail:
  assumes "healthy f" and "parse_entry (remaining f) = None"
    and "read_all_or_eof f HDR = (1, h, f1)" and "header_ok (rec_of h)"
    and "read_all_or_eof f1 (unat (key_len (rec_of h))) = (1, k, f2)"
    and "read_all_or_eof f2 vl = (1, v, f3)" and "unat (value_len (rec_of h)) = vl"
  shows False
proof -
  have h: "h = take HDR (remaining f)" "HDR \<le> length (remaining f)" "f1 = f\<lparr>pos := pos f + HDR\<rparr>"
    using assms(1,3) by (auto simp: read_all_healthy split: if_splits)
  let ?kl = "unat (key_len (rec_of h))"
  have k: "?kl \<le> length (drop HDR (remaining f))" "f2 = f1\<lparr>pos := pos f1 + ?kl\<rparr>"
    using assms(1,5) h(3) by (auto simp: read_all_healthy split: if_splits)
  have "remaining f2 = drop ?kl (drop HDR (remaining f))"
    by (simp only: k(2) h(3) remaining_advance)
  moreover have "\<not> unat (value_len (rec_of h)) \<le> length (drop ?kl (drop HDR (remaining f)))"
    using assms(2,4) h k(1) by (auto simp: parse_entry_def Let_def split: if_splits)
  moreover have "healthy f2" using assms(1) k(2) h(3) by simp
  ultimately show ?thesis using assms(6,7) by (simp add: read_all_healthy split: if_splits)
qed

lemma prefix_loop_stop:
  assumes "healthy f" "parse_entry (remaining f) = None"
  shows "valid_prefix_loop e f n = int n \<or> valid_prefix_loop e f n = -1 \<and> \<not> (allocs e \<and> lseek_cur_ok e (pos f))"
  by (auto simp: valid_prefix_loop.simps [of e f n] Let_def allocs_def
      split: prod.splits if_splits dest: entry_reads_fail [OF assms])

lemma prefix_loop_entry:
  assumes "healthy f" "parse_entry (remaining f) = Some (r, k, v, rest)"
  shows "valid_prefix_loop e f n =
    (if \<not> lseek_cur_ok e (pos f) then -1
     else if committed r \<noteq> KVDB_COMMITTED then int n
     else if \<not> alloc_ok e (length k) \<or> \<not> alloc_ok e (if length v = 0 then 1 else length v) then -1
     else if \<not> is_live r k v then int n
     else valid_prefix_loop e (after_entry f k v) (pos (after_entry f k v)))"
  using entry_reads [OF assms] parse_entry_Some(3-6) [OF assms(2)]
  by (auto simp: valid_prefix_loop.simps [of e f n] Let_def is_live_def)

lemma valid_prefix_loop_result:
  assumes "healthy f"
  shows "valid_prefix_loop e f (pos f) = int (pos f + valid_end (remaining f)) \<or>
    valid_prefix_loop e f (pos f) = -1 \<and> \<not> (allocs e \<and> (\<forall>n. lseek_cur_ok e n))"
  using assms
proof (induction "length (remaining f)" arbitrary: f rule: less_induct)
  case less
  show ?case
  proof (cases "parse_entry (remaining f)")
    case None
    then show ?thesis
      using prefix_loop_stop [OF less.prems None, of e "pos f"] by auto
  next
    case (Some a)
    then obtain r k v rest where p: "parse_entry (remaining f) = Some (r, k, v, rest)"
      by (cases a) auto
    let ?f = "after_entry f k v"
    have "length (remaining ?f) < length (remaining f)"
      using parse_entry_shorter [OF p] remaining_after_entry [OF p] by simp
    from less.hyps [OF this] less.prems
    have "valid_prefix_loop e ?f (pos ?f) = int (pos ?f + valid_end rest) \<or>
      valid_prefix_loop e ?f (pos ?f) = -1 \<and> \<not> (allocs e \<and> (\<forall>n. lseek_cur_ok e n))"
      by (simp add: remaining_after_entry [OF p])
    then show ?thesis
      using prefix_loop_entry [OF less.prems p, of e "pos f"] p
      by (auto simp: valid_end.simps [of "remaining f"] is_live_def allocs_def)
  qed
qed

lemma valid_prefix_end_result:
  assumes "healthy f"
  shows "valid_prefix_end e f = int (valid_end (contents f)) \<or>
    valid_prefix_end e f = -1 \<and> \<not> (allocs e \<and> lseek_ok e \<and> (\<forall>n. lseek_cur_ok e n))"
  using valid_prefix_loop_result [of "f\<lparr>pos := 0\<rparr>" e] assms
  by (auto simp: valid_prefix_end_def remaining_def)

text \<open>The scan of \<open>kvdb_get\<close>: the last live record of the key wins.\<close>

fun last_match :: "(bytes \<times> bytes) list \<Rightarrow> bytes \<Rightarrow> bytes option \<Rightarrow> bytes option" where
  "last_match [] key best = best"
| "last_match ((k, v) # kvs) key best = last_match kvs key (if k = key then Some v else best)"

lemma last_match_map_of:
  "last_match kvs key best = (case map_of (rev kvs) key of None \<Rightarrow> best | Some v \<Rightarrow> Some v)"
  by (induction kvs key best rule: last_match.induct)
    (auto simp: map_add_def split: option.splits)

lemma get_loop_stop:
  assumes "healthy f" "parse_entry (remaining f) = None"
  shows "get_loop e f key n best = Some best \<or> get_loop e f key n best = None \<and> \<not> allocs e"
  by (auto simp: get_loop.simps [of e f key n best] Let_def allocs_def
      split: prod.splits if_splits dest: entry_reads_fail [OF assms])

lemma get_loop_entry:
  assumes "healthy f" "parse_entry (remaining f) = Some (r, k, v, rest)"
  shows "get_loop e f key (strlen key) best =
      get_loop e (after_entry f k v) key (strlen key)
        (if is_live r k v \<and> k = cstr key then Some v else best) \<or>
    get_loop e f key (strlen key) best = None \<and> \<not> allocs e"
proof -
  have key: "(length k = strlen key \<and> take (strlen key) k = take (strlen key) key) = (k = cstr key)"
    by (metis cstr_def length_cstr order_refl take_all)
  obtain f1 f2 where reads: "read_all_or_eof f HDR = (1, take HDR (remaining f), f1)"
    "read_all_or_eof f1 (unat (key_len r)) = (1, k, f2)"
    "read_all_or_eof f2 (unat (value_len r)) = (1, v, after_entry f k v)"
    using entry_reads [OF assms] by blast
  note p = parse_entry_Some(3-6) [OF assms(2)]
  have "get_loop e f key (strlen key) best =
    (if alloc_ok e (length k + 1) \<and> alloc_ok e (length v + 1)
     then get_loop e (after_entry f k v) key (strlen key)
        (if is_live r k v \<and> k = cstr key then Some v else best)
     else None)"
    unfolding key [symmetric] get_loop.simps [of e f key "strlen key" best] is_live_def
    by (simp add: reads [unfolded p(3,4) [symmetric]] p(1) [symmetric] p(2) p(3,4) [symmetric] Let_def)
      (metis order_refl take_all)
  then show ?thesis by (auto simp: allocs_def)
qed

lemma get_loop_result:
  assumes "healthy f"
  shows "get_loop e f key (strlen key) best =
      Some (last_match (live_recs (remaining f)) (cstr key) best) \<or>
    get_loop e f key (strlen key) best = None \<and> \<not> allocs e"
  using assms
proof (induction "length (remaining f)" arbitrary: f best rule: less_induct)
  case less
  show ?case
  proof (cases "parse_entry (remaining f)")
    case None
    then show ?thesis using get_loop_stop [OF less.prems None] by simp
  next
    case (Some a)
    then obtain r k v rest where p: "parse_entry (remaining f) = Some (r, k, v, rest)"
      by (cases a) auto
    have "length (remaining (after_entry f k v)) < length (remaining f)"
      using parse_entry_shorter [OF p] remaining_after_entry [OF p] by simp
    from less.hyps [OF this] less.prems
    have "get_loop e (after_entry f k v) key (strlen key) b =
        Some (last_match (live_recs rest) (cstr key) b) \<or>
      get_loop e (after_entry f k v) key (strlen key) b = None \<and> \<not> allocs e" for b
      by (simp add: remaining_after_entry [OF p])
    note IH = this
    let ?b = "if is_live r k v \<and> k = cstr key then Some v else best"
    have "last_match (live_recs (remaining f)) (cstr key) best =
        last_match (live_recs rest) (cstr key) ?b"
      by (cases "is_live r k v") (simp_all add: live_recs.simps [of "remaining f"] p)
    then show ?thesis
      using get_loop_entry [OF less.prems p, of e key best] IH [of ?b] by metis
  qed
qed

end
