(* ===== verification/KvCrash.thy ===== *)
theory KvCrash
  imports KvSpec
begin

text \<open>
  \<open>kvdb_put\<close> of \<open>m9/kvdb.c\<close> against every failure point.  A file that \<open>put_file\<close> leaves is
  the valid prefix of the old file followed by a dead tail or by the committed entry; the
  commit word decides which, even when it is torn.
\<close>

definition dead :: "bytes \<Rightarrow> bool" where
  "dead t \<longleftrightarrow> live_recs t = [] \<and> valid_end t = 0"

definition entry :: "bytes \<Rightarrow> bytes \<Rightarrow> bytes" where
  "entry key val =
     rec_bytes ((put_record key val)\<lparr>committed := KVDB_COMMITTED\<rparr>) @ cstr key @ cstr val"

definition put_args_ok :: "bytes \<Rightarrow> bytes \<Rightarrow> bool" where
  "put_args_ok key val \<longleftrightarrow> strlen key \<noteq> 0 \<and> strlen key \<le> unat KVDB_MAX_KEY \<and>
     strlen val \<le> unat KVDB_MAX_VALUE"

lemma max_consts: "unat KVDB_MAX_KEY = 65536" "unat KVDB_MAX_VALUE = 16777216"
  by (simp_all add: KVDB_MAX_KEY_def KVDB_MAX_VALUE_def)

lemma unat_of_nat_u32: "n < 2 ^ 32 \<Longrightarrow> unat (word_of_nat n :: u32) = n"
  by (simp add: unat_of_nat take_bit_nat_eq_self_iff)

lemma put_record_simps:
  assumes "put_args_ok key val"
  shows "unat (key_len (put_record key val)) = strlen key"
    "unat (value_len (put_record key val)) = strlen val"
    "committed (put_record key val) = 0"
    "header_ok ((put_record key val)\<lparr>committed := w\<rparr>)"
    "header_ok (put_record key val)"
proof -
  have k: "strlen key < 2 ^ 32" "strlen val < 2 ^ 32"
    using assms by (auto simp: put_args_ok_def max_consts)
  then show lens: "unat (key_len (put_record key val)) = strlen key"
    "unat (value_len (put_record key val)) = strlen val"
    by (simp_all add: put_record_def Let_def unat_of_nat_u32)
  show "committed (put_record key val) = 0" by (simp add: put_record_def Let_def)
  have "key_len (put_record key val) \<noteq> 0"
    using lens(1) assms by (auto simp: put_args_ok_def)
  then show "header_ok (put_record key val)" "header_ok ((put_record key val)\<lparr>committed := w\<rparr>)"
    using assms lens
    by (simp_all add: header_ok_def put_args_ok_def word_le_nat_alt)
      (simp_all add: put_record_def Let_def)
qed

lemma checksum_take:
  "record_checksum kl vl (take (unat kl) k) (take (unat vl) v) = record_checksum kl vl k v"
  by (simp add: record_checksum_def Let_def)

lemma entry_live:
  assumes "put_args_ok key val"
  shows "live_recs (entry key val @ t) = (cstr key, cstr val) # live_recs t"
    "valid_end (entry key val @ t) = length (entry key val) + valid_end t"
proof -
  let ?r = "(put_record key val)\<lparr>committed := KVDB_COMMITTED\<rparr>"
  note p = put_record_simps [OF assms]
  have live: "is_live (rec_of (rec_bytes ?r)) (cstr key) (cstr val)"
    using checksum_take [of "key_len ?r" "value_len ?r" key val] p(1,2)
    by (simp add: is_live_def cstr_def) (simp add: put_record_def Let_def)
  have "header_ok (rec_of (rec_bytes ?r))" "length (rec_bytes ?r) = HDR"
    "length (cstr key) = unat (key_len (rec_of (rec_bytes ?r)))"
    "length (cstr val) = unat (value_len (rec_of (rec_bytes ?r)))"
    using p by simp_all
  note e = live_recs_append_entry [OF this, of t]
  show "live_recs (entry key val @ t) = (cstr key, cstr val) # live_recs t"
    "valid_end (entry key val @ t) = length (entry key val) + valid_end t"
    using e live by (simp_all add: entry_def)
qed

lemma parse_entry_cut:
  "take HDR t = h \<Longrightarrow>
    length (drop HDR t) < unat (key_len (rec_of h)) + unat (value_len (rec_of h)) \<Longrightarrow>
    parse_entry t = None"
  by (auto simp: parse_entry_def Let_def)

lemma dead_uncommitted:
  assumes "length h = HDR" "header_ok (rec_of h)" "committed (rec_of h) \<noteq> KVDB_COMMITTED"
    "length k = unat (key_len (rec_of h))" "length v = unat (value_len (rec_of h))"
  shows "dead (take n (h @ k @ v))"
proof (cases "n < length (h @ k @ v)")
  case True
  have "parse_entry (take n (h @ k @ v)) = None"
  proof (cases "n < HDR")
    case False
    then have cut: "take HDR (take n (h @ k @ v)) = h" using assms(1) by simp
    have "length (drop HDR (take n (h @ k @ v))) < length k + length v"
    proof -
      have "length (drop HDR (take n (h @ k @ v))) = n - HDR"
        using True by (simp only: length_drop length_take min_absorb2 [OF less_imp_le])
      moreover have "n - HDR < length k + length v"
        using True False assms(1) unfolding length_append by linarith
      ultimately show ?thesis by simp
    qed
    then show ?thesis by (intro parse_entry_cut [OF cut]) (simp only: assms(4,5))
  qed simp
  then show ?thesis by (simp add: dead_def)
next
  case False
  then show ?thesis
    using live_recs_append_entry [OF assms(2,1,4,5), of "[]"] assms(3)
    by (simp add: dead_def is_live_def)
qed

subsection \<open>The commit word\<close>

lemma commit_bytes: "le32 KVDB_COMMITTED = [0xed, 0x17, 0x11, 0xc0]"
  by (simp add: le32_def KVDB_COMMITTED_def)

text \<open>Overwriting 4 bytes at offset 4 of an encoded header sets its \<open>committed\<close> field.\<close>

lemma header_commit:
  "take 4 (rec_bytes r @ t) @ le32 w @ drop 8 (rec_bytes r @ t) =
     rec_bytes (r\<lparr>committed := w\<rparr>) @ t"
  by (simp add: rec_bytes_def)

lemma header_torn_word:
  assumes "committed r = 0" "n \<le> 3" "take n (le32 KVDB_COMMITTED) @ drop n (le32 0) = le32 w"
  shows "take 4 (rec_bytes r @ t) @ take n (le32 KVDB_COMMITTED) @ drop (4 + n) (rec_bytes r @ t) =
    rec_bytes (r\<lparr>committed := w\<rparr>) @ t"
proof -
  have "drop (4 + n) (rec_bytes r @ t) = drop n (le32 0) @ drop 8 (rec_bytes r @ t)"
    using assms(1,2) by (simp add: rec_bytes_def drop_Cons')
  then have "take 4 (rec_bytes r @ t) @ take n (le32 KVDB_COMMITTED) @
      drop (4 + n) (rec_bytes r @ t) = take 4 (rec_bytes r @ t) @ le32 w @ drop 8 (rec_bytes r @ t)"
    using assms(3) by (metis append.assoc)
  then show ?thesis by (simp only: header_commit)
qed

lemma header_torn:
  assumes "committed r = 0" and "n \<le> 3"
  obtains w where "w \<noteq> KVDB_COMMITTED" and
    "take 4 (rec_bytes r @ t) @ take n (le32 KVDB_COMMITTED) @ drop (4 + n) (rec_bytes r @ t) =
      rec_bytes (r\<lparr>committed := w\<rparr>) @ t"
proof -
  let ?w = "if n = 0 then 0 else if n = 1 then 0xed else if n = 2 then 0x17ed else 0x1117ed :: u32"
  have "n = 0 \<or> n = 1 \<or> n = 2 \<or> n = 3" using assms(2) by linarith
  then have "take n (le32 KVDB_COMMITTED) @ drop n (le32 0) = le32 ?w"
    unfolding commit_bytes by (elim disjE) (simp_all add: le32_def)
  from header_torn_word [OF assms this] show thesis
    by (rule that [rotated]) (simp add: KVDB_COMMITTED_def)
qed

subsection \<open>The file a put leaves\<close>

lemma append_at_end:
  assumes "pos f = length (contents f)"
  shows "contents (file_write f d) = contents f @ d"
    and "pos (file_write f d) = length (contents (file_write f d))"
  using assms by (simp_all add: file_write_def)

lemma healthy_io [simp]:
  "healthy (file_write f d) = healthy f"
  "healthy (file_pwrite f d i) = healthy f"
  "healthy (ftruncate f n) = healthy f"
  by (simp_all add: healthy_def file_write_def file_pwrite_def ftruncate_def)

text \<open>What may follow the valid prefix \<open>p\<close> once a put of \<open>key\<close> and \<open>val\<close> has begun.\<close>

definition put_tail :: "bytes \<Rightarrow> bytes \<Rightarrow> bytes \<Rightarrow> bool" where
  "put_tail key val t \<longleftrightarrow>
     (\<exists>n. t = take n (rec_bytes (put_record key val) @ cstr key @ cstr val)) \<or>
     (\<exists>w. w \<noteq> KVDB_COMMITTED \<and>
        t = rec_bytes ((put_record key val)\<lparr>committed := w\<rparr>) @ cstr key @ cstr val)"

lemma put_tail_dead:
  assumes "put_args_ok key val" "put_tail key val t"
  shows "dead t"
proof -
  note p = put_record_simps [OF assms(1)]
  have gen: "dead (take n (rec_bytes ((put_record key val)\<lparr>committed := w\<rparr>) @ cstr key @ cstr val))"
    if "w \<noteq> KVDB_COMMITTED" for n w
    by (rule dead_uncommitted) (use p that in simp_all)
  have "(put_record key val)\<lparr>committed := 0\<rparr> = put_record key val"
    by (simp add: put_record_def Let_def)
  moreover have "0 \<noteq> KVDB_COMMITTED" by (simp add: KVDB_COMMITTED_def)
  ultimately show ?thesis
    using assms(2) gen [of 0] gen [of _ "length (rec_bytes _ @ cstr key @ cstr val)"]
    by (auto simp: put_tail_def)
qed

lemma put_tail_take:
  "put_tail key val []"
  "put_tail key val (take n (rec_bytes (put_record key val)))"
  "put_tail key val (rec_bytes (put_record key val) @ take n (cstr key))"
  "put_tail key val (rec_bytes (put_record key val) @ cstr key @ take n (cstr val))"
  "put_tail key val (rec_bytes (put_record key val) @ cstr key @ cstr val)"
proof -
  let ?h = "rec_bytes (put_record key val)"
  have "[] = take 0 (?h @ cstr key @ cstr val)"
    "take n ?h = take (min n HDR) (?h @ cstr key @ cstr val)"
    "?h @ take n (cstr key) = take (HDR + min n (strlen key)) (?h @ cstr key @ cstr val)"
    "?h @ cstr key @ take n (cstr val) = take (HDR + strlen key + n) (?h @ cstr key @ cstr val)"
    "?h @ cstr key @ cstr val = take (HDR + strlen key + strlen val) (?h @ cstr key @ cstr val)"
    by (auto simp: min_def)
  then show "put_tail key val []" "put_tail key val (take n ?h)"
    "put_tail key val (?h @ take n (cstr key))"
    "put_tail key val (?h @ cstr key @ take n (cstr val))"
    "put_tail key val (?h @ cstr key @ cstr val)"
    unfolding put_tail_def by blast+
qed

lemma commit_contents:
  fixes p :: bytes
  assumes "contents f = p @ rec_bytes r @ t"
  shows "contents (file_pwrite f (le32 w) (length p + 4)) =
      p @ rec_bytes (r\<lparr>committed := w\<rparr>) @ t"
  using assms header_commit [of r t w] by (simp add: file_pwrite_def ac_simps)

lemma torn_contents:
  fixes p :: bytes
  assumes "contents f = p @ rec_bytes r @ t" "committed r = 0" "n \<le> 3"
  obtains w where "w \<noteq> KVDB_COMMITTED" and
    "contents (file_pwrite f (take n (le32 KVDB_COMMITTED)) (length p + 4)) =
      p @ rec_bytes (r\<lparr>committed := w\<rparr>) @ t"
proof -
  from header_torn [OF assms(2,3), of t] obtain w where w: "w \<noteq> KVDB_COMMITTED"
    "take 4 (rec_bytes r @ t) @ take n (le32 KVDB_COMMITTED) @ drop (4 + n) (rec_bytes r @ t) =
      rec_bytes (r\<lparr>committed := w\<rparr>) @ t" .
  then have "contents (file_pwrite f (take n (le32 KVDB_COMMITTED)) (length p + 4))
      = p @ rec_bytes (r\<lparr>committed := w\<rparr>) @ t"
    using assms(1,3) by (simp add: file_pwrite_def min_def ac_simps)
  with w(1) show thesis by (rule that)
qed

definition faultless :: "env \<Rightarrow> bool" where
  "faultless e \<longleftrightarrow> allocs e \<and> flock_ok e \<and> lseek_ok e \<and> (\<forall>n. lseek_cur_ok e n) \<and> lseek_end_ok e \<and> ftruncate_ok e \<and> w_rec e = None \<and>
     w_key e = None \<and> w_value e = None \<and> fsync_ok e \<and> w_commit e = None \<and> fsync2_ok e"

lemma write_all_simps [simp]:
  "write_all None f d = (0, file_write f d)"
  "write_all (Some n) f d = (-1, file_write f (take n d))"
  by (simp_all add: write_all_def)

text \<open>
  Every outcome of \<open>put_file\<close>: nothing changed; the valid prefix with a dead tail; or the valid
  prefix with the committed entry, the only outcome that can return 0.
\<close>

definition put_outcome :: "kfile \<Rightarrow> bytes \<Rightarrow> bytes \<Rightarrow> int \<times> kfile \<Rightarrow> bool" where
  "put_outcome f key val res \<longleftrightarrow>
     (let prefix = take (valid_end (contents f)) (contents f); c = contents (snd res) in
      healthy (snd res) \<and>
      (fst res = -1 \<and> c = contents f \<or>
       fst res = -1 \<and> (\<exists>t. put_tail key val t \<and> c = prefix @ t) \<or>
       (fst res = 0 \<or> fst res = -1) \<and> c = prefix @ entry key val))"

lemma put_file_outcome:
  assumes "healthy f" and args: "put_args_ok key val"
  shows "put_outcome f key val (put_file e f (put_record key val) key val)"
proof -
  let ?rec = "put_record key val"
  let ?off = "valid_end (contents f)"
  let ?p = "take ?off (contents f)"
  note p = put_record_simps [OF args]
  have lp: "length ?p = ?off" using valid_end_le [of "contents f"] by simp
  let ?f0 = "(ftruncate f ?off)\<lparr>pos := ?off\<rparr>"
  have c0: "contents ?f0 = ?p" "pos ?f0 = length (contents ?f0)"
    using lp valid_end_le [of "contents f"] by (simp_all add: ftruncate_def)
  note w1 = append_at_end [OF c0(2)]
  let ?f1 = "file_write ?f0 (rec_bytes ?rec)"
  note w2 = append_at_end [OF w1(2) [of "rec_bytes ?rec"]]
  let ?f2 = "file_write ?f1 (cstr key)"
  note w3 = append_at_end [OF w2(2) [of "cstr key"]]
  let ?f3 = "file_write ?f2 (cstr val)"
  have c3: "contents ?f3 = ?p @ rec_bytes ?rec @ cstr key @ cstr val"
    by (simp add: w1(1) w2(1) w3(1) c0(1))
  have kv: "take (strlen key) key = cstr key" "take (strlen val) val = cstr val"
    by (simp_all add: cstr_def)
  have tail: "put_outcome f key val (-1, g)" if "healthy g" "put_tail key val t"
    "contents g = ?p @ t" for g t
    using that by (auto simp: put_outcome_def Let_def)
  have torn: "put_outcome f key val (-1, file_pwrite ?f3 (take (min n 3) (le32 KVDB_COMMITTED)) (?off + 4))" for n
  proof -
    obtain w where "w \<noteq> KVDB_COMMITTED"
      "contents (file_pwrite ?f3 (take (min n 3) (le32 KVDB_COMMITTED)) (length ?p + 4)) =
        ?p @ rec_bytes (?rec\<lparr>committed := w\<rparr>) @ cstr key @ cstr val"
      using torn_contents [OF c3 p(3), of "min n 3"] by auto
    then show ?thesis
      using assms(1) lp by (intro tail) (auto simp: put_tail_def)
  qed
  have full: "put_outcome f key val (r, file_pwrite ?f3 (le32 KVDB_COMMITTED) (?off + 4))"
    if "r = 0 \<or> r = -1" for r
    using commit_contents [OF c3, of KVDB_COMMITTED] lp that assms(1)
    by (auto simp: put_outcome_def Let_def entry_def)
  have dead: "put_outcome f key val (-1, f)" "put_outcome f key val (-1, ftruncate f ?off)"
    "put_outcome f key val (-1, file_write ?f0 (take n (rec_bytes ?rec)))"
    "put_outcome f key val (-1, file_write ?f1 (take n (cstr key)))"
    "put_outcome f key val (-1, file_write ?f2 (take n (cstr val)))"
    "put_outcome f key val (-1, ?f3)" for n
    subgoal using assms(1) by (simp add: put_outcome_def Let_def)
    subgoal using assms(1) c0 by (intro tail [OF _ put_tail_take(1)]) (auto simp: ftruncate_def healthy_def)
    subgoal using assms(1) by (intro tail [OF _ put_tail_take(2)]) (auto simp: w1 c0)
    subgoal using assms(1) by (intro tail [OF _ put_tail_take(3)]) (auto simp: w1 w2 c0)
    subgoal using assms(1) by (intro tail [OF _ put_tail_take(4)]) (auto simp: w1 w2 w3 c0)
    subgoal using assms(1) by (intro tail [OF _ put_tail_take(5)]) (auto simp: w1 w2 w3 c0)
    done
  have scan: "valid_prefix_end e f = int ?off \<or> valid_prefix_end e f = -1"
    using valid_prefix_end_result [OF assms(1)] by blast
  then show ?thesis
  proof
    assume "valid_prefix_end e f = -1"
    then show ?thesis using dead(1) by (simp add: put_file_def)
  next
    assume "valid_prefix_end e f = int ?off"
    then show ?thesis
      by (cases "w_rec e"; cases "w_key e"; cases "w_value e"; cases "w_commit e")
        (simp_all add: put_file_def p(1,2) kv Let_def dead torn full)
  qed
qed

end
