(* ===== verification/KvCorrect.thy ===== *)
theory KvCorrect
  imports KvCrash
begin

text \<open>
  The contract of the key-value store \<open>m9/kvdb.c\<close>: a database file is a map, \<open>kvdb_put\<close>
  updates it atomically under every failure, \<open>kvdb_get\<close> reads it, and every path releases the
  three locks.  The contract is the locale \<open>durable_map\<close>; \<open>kvdb_put\<close> and the lookup of
  \<open>kvdb_get\<close> are its instance.
\<close>

subsection \<open>The interface\<close>

text \<open>
  \<open>put e s a b\<close> runs in an environment \<open>e\<close> that decides which step fails and reports success or
  not; \<open>look s a\<close> reads; \<open>abs s\<close> is the map the state stands for; \<open>key a\<close> and \<open>val b\<close> are the
  key and the value that the arguments denote.
\<close>

primrec run_puts :: "('e \<Rightarrow> 's \<Rightarrow> 'a \<Rightarrow> 'b \<Rightarrow> bool \<times> 's) \<Rightarrow> ('e \<times> 'a \<times> 'b) list \<Rightarrow> 's \<Rightarrow> 's" where
  "run_puts put [] s = s"
| "run_puts put (x # xs) s = (case x of (e, a, b) \<Rightarrow> run_puts put xs (snd (put e s a b)))"

lemma run_puts_append: "run_puts put (xs @ ys) s = run_puts put ys (run_puts put xs s)"
  by (induction xs arbitrary: s) (auto split: prod.split)

locale durable_map =
  fixes put :: "'e \<Rightarrow> 's \<Rightarrow> 'a \<Rightarrow> 'b \<Rightarrow> bool \<times> 's"
    and look :: "'s \<Rightarrow> 'a \<Rightarrow> 'v option"
    and inv :: "'s \<Rightarrow> bool"
    and abs :: "'s \<Rightarrow> 'k \<rightharpoonup> 'v"
    and key :: "'a \<Rightarrow> 'k"
    and val :: "'b \<Rightarrow> 'v"
  assumes look_abs: "inv s \<Longrightarrow> look s a = abs s (key a)"
    and put_inv: "inv s \<Longrightarrow> inv (snd (put e s a b))"
    and put_done: "inv s \<Longrightarrow> fst (put e s a b) \<Longrightarrow>
      abs (snd (put e s a b)) = (abs s)(key a \<mapsto> val b)"
    and put_atomic: "inv s \<Longrightarrow> abs (snd (put e s a b)) = abs s \<or>
      abs (snd (put e s a b)) = (abs s)(key a \<mapsto> val b)"
begin

lemma run_inv: "inv s \<Longrightarrow> inv (run_puts put xs s)"
  by (induction xs arbitrary: s) (auto simp: put_inv split: prod.split)

text \<open>A key that no later call names keeps its value.\<close>

lemma run_frame:
  "inv s \<Longrightarrow> \<forall>(e, a', b) \<in> set xs. key a' \<noteq> key a \<Longrightarrow> look (run_puts put xs s) a = look s a"
proof (induction xs arbitrary: s)
  case Nil
  then show ?case by simp
next
  case (Cons x xs)
  obtain e a' b where x: "x = (e, a', b)" by (cases x)
  let ?s = "snd (put e s a' b)"
  have "look (run_puts put xs ?s) a = look ?s a"
    using Cons.IH [of ?s] Cons.prems put_inv by auto
  also have "\<dots> = look s a"
    using put_atomic [OF Cons.prems(1), of e a' b] Cons.prems x
    by (auto simp: look_abs put_inv)
  finally show ?case by (simp add: x)
qed

text \<open>A put that reported success is read back, whatever failed before and after on other keys.\<close>

lemma read_your_write:
  assumes "inv s" and "fst (put e (run_puts put xs s) a b)"
    and "\<forall>(e, a', b) \<in> set ys. key a' \<noteq> key a"
  shows "look (run_puts put (xs @ (e, a, b) # ys) s) a = Some (val b)"
proof -
  have i: "inv (run_puts put xs s)" using assms(1) by (rule run_inv)
  have "look (run_puts put (xs @ (e, a, b) # ys) s) a = look (snd (put e (run_puts put xs s) a b)) a"
    using run_frame [OF put_inv [OF i] assms(3)] by (simp add: run_puts_append)
  also have "\<dots> = Some (val b)"
    using put_done [OF i assms(2)] put_inv [OF i] by (simp add: look_abs)
  finally show ?thesis .
qed

text \<open>Nothing is read that nobody wrote.\<close>

lemma read_written:
  "inv s \<Longrightarrow> look (run_puts put xs s) a = Some v \<Longrightarrow>
    look s a = Some v \<or> (\<exists>e a' b. (e, a', b) \<in> set xs \<and> key a' = key a \<and> val b = v)"
proof (induction xs arbitrary: s)
  case Nil
  then show ?case by simp
next
  case (Cons x xs)
  obtain e a' b where x: "x = (e, a', b)" by (cases x)
  let ?s = "snd (put e s a' b)"
  have "look ?s a = Some v \<or> (\<exists>e a' b. (e, a', b) \<in> set xs \<and> key a' = key a \<and> val b = v)"
    using Cons x put_inv by auto
  moreover have "look ?s a = Some v \<Longrightarrow> look s a = Some v \<or> key a' = key a \<and> val b = v"
    using put_atomic [OF Cons.prems(1), of e a' b] Cons.prems(1)
    by (auto simp: look_abs put_inv split: if_splits)
  ultimately show ?case using x by auto
qed

end

subsection \<open>kvdb_put and kvdb_get keep the contract\<close>

definition db_map :: "kvdb_t \<Rightarrow> bytes \<rightharpoonup> bytes" where
  "db_map db = kv_map (contents (db_file db))"

definition db_ok :: "kvdb_t \<Rightarrow> bool" where
  "db_ok db \<longleftrightarrow> 0 \<le> fd db \<and> healthy (db_file db) \<and> clean (contents (db_file db)) \<and> unlocked db"

lemma clean_tail:
  assumes "clean c" "dead t"
  shows "clean (take (valid_end c) c @ t) \<and> kv_map (take (valid_end c) c @ t) = kv_map c"
proof -
  have "length (take (valid_end c) c) = valid_end c" using valid_end_le [of c] by simp
  then show ?thesis
    using assms valid_end_prefix [of c t] live_recs_prefix [of c t] live_recs_clean [OF assms(1)]
    by (simp add: clean_def dead_def kv_map_def)
qed

lemma clean_entry:
  assumes "clean c" "put_args_ok key val"
  shows "clean (take (valid_end c) c @ entry key val) \<and>
    kv_map (take (valid_end c) c @ entry key val) = (kv_map c)(cstr key \<mapsto> cstr val)"
proof -
  have "length (take (valid_end c) c) = valid_end c" using valid_end_le [of c] by simp
  then show ?thesis
    using assms valid_end_prefix [of c "entry key val"] live_recs_prefix [of c "entry key val"]
      live_recs_clean [OF assms(1)] entry_live [OF assms(2), of "[]"]
    by (simp add: clean_def kv_map_def)
qed

lemma put_outcome_map:
  assumes "clean (contents f)" "put_args_ok key val" "put_outcome f key val (r, f')"
  shows "healthy f' \<and> clean (contents f') \<and> (r = 0 \<or> r = -1) \<and>
    (kv_map (contents f') = kv_map (contents f) \<and> r = -1 \<or>
     kv_map (contents f') = (kv_map (contents f))(cstr key \<mapsto> cstr val))"
  using assms clean_tail [OF assms(1)] clean_entry [OF assms(1,2)] put_tail_dead [OF assms(2)]
  by (auto simp: put_outcome_def Let_def)

lemma put_args_iff:
  "put_args_ok key val \<longleftrightarrow> \<not> (strlen key = 0 \<or> strlen key > unat KVDB_MAX_KEY \<or>
     strlen val > unat KVDB_MAX_VALUE)"
  by (auto simp: put_args_ok_def)

text \<open>Every path of \<open>kvdb_put\<close> on an open handle, as one equation.\<close>

lemma kvdb_put_paths:
  assumes "0 \<le> fd db"
  shows "kvdb_put e (Some db) (Some key) (Some val) =
    (if \<not> put_args_ok key val then (-1, Some db)
     else if \<not> flock_ok e then (-1, Some (db\<lparr>mutex := False, global_mutex := False\<rparr>))
     else (case put_file e (db_file db) (put_record key val) key val of
             (ok, f) \<Rightarrow> (ok, Some (unlock_db (db\<lparr>db_file := f\<rparr>)))))"
  using assms
  by (simp add: kvdb_put_def put_args_iff lock_db_def unlock_db_def Let_def split: prod.split)

definition put_op :: "env \<Rightarrow> kvdb_t \<Rightarrow> bytes \<Rightarrow> bytes \<Rightarrow> bool \<times> kvdb_t" where
  "put_op e db key val =
     (case kvdb_put e (Some db) (Some key) (Some val) of (r, dbp) \<Rightarrow> (r = 0, the dbp))"

lemma unlock_db_ok: "unlocked (unlock_db db)" "fd (unlock_db db) = fd db"
  "db_file (unlock_db db) = db_file db"
  by (simp_all add: unlocked_def unlock_db_def)

lemma put_step:
  assumes "db_ok db"
  obtains rc db' where "kvdb_put e (Some db) (Some key) (Some val) = (rc, Some db')"
    and "db_ok db'" and "rc = 0 \<or> rc = -1"
    and "rc = 0 \<Longrightarrow> put_args_ok key val"
    and "db_map db' = db_map db \<and> rc = -1 \<or> db_map db' = (db_map db)(cstr key \<mapsto> cstr val)"
proof -
  have fd: "0 \<le> fd db" and h: "healthy (db_file db)" and c: "clean (contents (db_file db))"
    and u: "unlocked db"
    using assms by (auto simp: db_ok_def)
  show thesis
  proof (cases "put_args_ok key val \<and> flock_ok e")
    case False
    have "db\<lparr>mutex := False, global_mutex := False\<rparr> = db"
      using u by (cases db) (simp add: unlocked_def)
    with False fd assms show thesis
      by (intro that [of "-1" db]) (auto simp: kvdb_put_paths)
  next
    case True
    obtain r f where pf: "put_file e (db_file db) (put_record key val) key val = (r, f)"
      by (cases "put_file e (db_file db) (put_record key val) key val")
    have "put_outcome (db_file db) key val (r, f)"
      using put_file_outcome [OF h] True pf by metis
    note o = put_outcome_map [OF c _ this]
    show thesis
      by (rule that [of r "unlock_db (db\<lparr>db_file := f\<rparr>)"])
        (use True fd pf o in \<open>auto simp: kvdb_put_paths db_ok_def unlock_db_ok db_map_def\<close>)
  qed
qed

text \<open>What \<open>kvdb_get\<close> returns, in terms of the map.\<close>

lemma live_recs_bounds:
  "(k, v) \<in> set (live_recs t) \<Longrightarrow>
    k \<noteq> [] \<and> length k \<le> unat KVDB_MAX_KEY \<and> length v \<le> unat KVDB_MAX_VALUE"
proof (induction t rule: live_recs.induct)
  case (1 t)
  show ?case
  proof (cases "parse_entry t")
    case None
    with "1.prems" show ?thesis by simp
  next
    case (Some a)
    then obtain r k' v' rest where p: "parse_entry t = Some (r, k', v', rest)" by (cases a) auto
    have "header_ok r" using parse_entry_Some(4) [OF p] .
    then have "length k' \<le> unat KVDB_MAX_KEY" "length v' \<le> unat KVDB_MAX_VALUE"
      using parse_entry_Some(5,6) [OF p] by (auto simp: header_ok_def word_le_nat_alt)
    then show ?thesis
      using "1.IH" [OF p refl refl refl] "1.prems" p parse_entry_Some(7) [OF p]
      by (auto simp: live_recs.simps [of t] split: if_splits)
  qed
qed

lemma kv_map_bounds:
  "kv_map c k = Some v \<Longrightarrow>
    k \<noteq> [] \<and> length k \<le> unat KVDB_MAX_KEY \<and> length v \<le> unat KVDB_MAX_VALUE"
  unfolding kv_map_def by (drule map_of_SomeD) (auto dest: live_recs_bounds)

lemma kvdb_get_paths:
  assumes "db_ok db"
  shows "kvdb_get e (Some db) (Some key) has_buf len =
      (case copy_out (db_map db (cstr key)) has_buf len of (rc, out) \<Rightarrow> (rc, out, Some db)) \<or>
    kvdb_get e (Some db) (Some key) has_buf len = (-1, None, Some db) \<and>
      (\<not> has_buf \<and> len \<noteq> 0 \<or> \<not> (allocs e \<and> flock_ok e \<and> lseek_ok e))"
proof (cases "fd db < 0 \<or> (\<not> has_buf \<and> len \<noteq> 0) \<or> \<not> flock_ok e \<or> \<not> lseek_ok e")
  case True
  have "unlock_db (db\<lparr>global_mutex := True, mutex := True, flocked := True\<rparr>) = db"
    "db\<lparr>mutex := False, global_mutex := False\<rparr> = db"
    using assms by (cases db; simp add: db_ok_def unlocked_def unlock_db_def)+
  moreover have "db_map db (cstr key) = None"
    if "strlen key = 0 \<or> strlen key > unat KVDB_MAX_KEY"
    using kv_map_bounds [of "contents (db_file db)" "cstr key"] that
    by (cases "db_map db (cstr key)") (auto simp: db_map_def simp flip: length_0_conv)
  ultimately show ?thesis
    using True assms
    by (auto simp: kvdb_get_def lock_db_def db_ok_def Let_def copy_out_def)
next
  case False
  have restore: "unlock_db (db\<lparr>global_mutex := True, mutex := True, flocked := True\<rparr>) = db"
    using assms by (cases db) (simp add: db_ok_def unlocked_def unlock_db_def)
  have "healthy ((db_file db)\<lparr>pos := 0\<rparr>)" using assms by (simp add: db_ok_def)
  from get_loop_result [OF this, of e key None]
  have g: "get_loop e ((db_file db)\<lparr>pos := 0\<rparr>) key (strlen key) None = Some (db_map db (cstr key)) \<or>
    get_loop e ((db_file db)\<lparr>pos := 0\<rparr>) key (strlen key) None = None \<and> \<not> allocs e"
    by (simp add: remaining_def db_map_def kv_map_def last_match_map_of split: option.splits)
  have none: "db_map db (cstr key) = None"
    if "strlen key = 0 \<or> strlen key > unat KVDB_MAX_KEY"
    using kv_map_bounds [of "contents (db_file db)" "cstr key"] that
    by (cases "db_map db (cstr key)") (auto simp: db_map_def simp flip: length_0_conv)
  show ?thesis
  proof (cases "strlen key = 0 \<or> strlen key > unat KVDB_MAX_KEY")
    case True
    with False none show ?thesis
      by (auto simp: kvdb_get_def copy_out_def)
  next
    case ok: False
    show ?thesis
      using g False ok restore by (auto simp: kvdb_get_def lock_db_def split: prod.split)
  qed
qed

definition ideal_env :: env where
  "ideal_env = \<lparr>alloc_ok = (\<lambda>_. True), flock_ok = True, lseek_ok = True, lseek_cur_ok = (\<lambda>_. True), lseek_end_ok = True, ftruncate_ok = True,
     w_rec = None, w_key = None, w_value = None, fsync_ok = True, w_commit = None,
     fsync2_ok = True\<rparr>"

definition get_op :: "kvdb_t \<Rightarrow> bytes \<Rightarrow> bytes option" where
  "get_op db key =
     (case kvdb_get ideal_env (Some db) (Some key) True (unat KVDB_MAX_VALUE + 1) of
        (rc, out, _) \<Rightarrow> map_option butlast out)"

lemma get_op_map:
  assumes "db_ok db"
  shows "get_op db key = db_map db (cstr key)"
proof -
  have "length v \<le> unat KVDB_MAX_VALUE" if "db_map db (cstr key) = Some v" for v
    using kv_map_bounds [of "contents (db_file db)" "cstr key" v] that by (simp add: db_map_def)
  then show ?thesis
    using kvdb_get_paths [OF assms, of ideal_env key True "unat KVDB_MAX_VALUE + 1"]
    by (cases "db_map db (cstr key)")
      (auto simp: get_op_def copy_out_def ideal_env_def allocs_def Let_def)
qed

interpretation kv: durable_map put_op get_op db_ok db_map cstr cstr
proof unfold_locales
  fix s a e b
  show "db_ok s \<Longrightarrow> get_op s a = db_map s (cstr a)" by (rule get_op_map)
  show "db_ok s \<Longrightarrow> db_ok (snd (put_op e s a b))"
    by (rule put_step [of s e a b]) (auto simp: put_op_def)
  show "db_ok s \<Longrightarrow> fst (put_op e s a b) \<Longrightarrow>
      db_map (snd (put_op e s a b)) = (db_map s)(cstr a \<mapsto> cstr b)"
    by (rule put_step [of s e a b]) (auto simp: put_op_def)
  show "db_ok s \<Longrightarrow> db_map (snd (put_op e s a b)) = db_map s \<or>
      db_map (snd (put_op e s a b)) = (db_map s)(cstr a \<mapsto> cstr b)"
    by (rule put_step [of s e a b]) (auto simp: put_op_def)
qed

subsection \<open>Properties\<close>

text \<open>A handle on an empty, healthy file, for concrete runs.\<close>

definition empty_db :: kvdb_t where
  "empty_db = \<lparr>path = None, fd = 3, mutex = False, global_mutex = False, flocked = False,
     db_file = \<lparr>contents = [], pos = 0, bad = (\<lambda>_. False)\<rparr>\<rparr>"

lemma empty_db_ok: "db_ok empty_db"
  by (simp add: db_ok_def empty_db_def healthy_def clean_def unlocked_def)

lemma strlen_single: "b \<noteq> 0 \<Longrightarrow> strlen [b] = 1" "b \<noteq> 0 \<Longrightarrow> cstr [b] = [b]"
  by (simp_all add: strlen_def cstr_def)

text \<open>C1: While the device can be read (\<open>db_ok\<close>), whichever write, truncation, seek, sync, lock or
  allocation of \<open>kvdb_put\<close> fails, the file stays well
  formed, all three locks are released, the call returns 0 or -1, and the stored map is either
  the old one or the old one with the key updated; 0 is returned only for the latter.  (With a read that
  fails it is not so: see the read errors below.)\<close>

theorem kvdb_put_atomic:
  assumes "db_ok db"
  shows "\<exists>rc db'. kvdb_put e (Some db) (Some key) (Some val) = (rc, Some db') \<and> db_ok db' \<and>
    (rc = 0 \<or> rc = -1) \<and>
    (db_map db' = db_map db \<and> rc = -1 \<or> db_map db' = (db_map db)(cstr key \<mapsto> cstr val))"
  by (rule put_step [OF assms, of e key val]) blast

theorem kvdb_put_atomic_witness:
  "db_ok empty_db \<and>
   (\<exists>rc db'. kvdb_put (ideal_env\<lparr>w_commit := Some 2\<rparr>) (Some empty_db) (Some [107]) (Some [118]) =
      (rc, Some db') \<and> db_ok db' \<and> (rc = 0 \<or> rc = -1) \<and>
      (db_map db' = db_map empty_db \<and> rc = -1 \<or>
       db_map db' = (db_map empty_db)(cstr [107] \<mapsto> cstr [118])))"
  using empty_db_ok kvdb_put_atomic [OF empty_db_ok] by blast

lemma put_file_faultless:
  assumes "healthy f" "put_args_ok key val" "faultless e"
  shows "fst (put_file e f (put_record key val) key val) = 0"
  using valid_prefix_end_result [OF assms(1), of e] assms(2,3)
  by (auto simp: put_file_def faultless_def allocs_def Let_def)

lemma put_op_done:
  assumes "db_ok db" "put_args_ok key val" "faultless e"
  shows "fst (put_op e db key val)"
  using assms put_file_faultless [of "db_file db" key val e]
  by (auto simp: put_op_def kvdb_put_paths db_ok_def faultless_def split: prod.splits)

text \<open>C16: When no call fails and the key has 1 to 64 Ki bytes and the value at most 16 Mi, \<open>kvdb_put\<close>
  returns 0 and the map is updated at that key and nowhere else.\<close>

theorem kvdb_put_stores:
  assumes "db_ok db" and "put_args_ok key val" and "faultless e"
  shows "\<exists>db'. kvdb_put e (Some db) (Some key) (Some val) = (0, Some db') \<and> db_ok db' \<and>
    db_map db' = (db_map db)(cstr key \<mapsto> cstr val)"
proof -
  obtain rc db' where p: "kvdb_put e (Some db) (Some key) (Some val) = (rc, Some db')"
    "db_ok db'" "db_map db' = db_map db \<and> rc = -1 \<or> db_map db' = (db_map db)(cstr key \<mapsto> cstr val)"
    using put_step [OF assms(1), of e key val] by metis
  moreover have "rc = 0"
    using put_op_done [OF assms] p(1) by (simp add: put_op_def)
  ultimately show ?thesis by auto
qed

theorem kvdb_put_stores_witness:
  "db_ok empty_db \<and> put_args_ok [107] [118] \<and> faultless ideal_env \<and>
   (\<exists>db'. kvdb_put ideal_env (Some empty_db) (Some [107]) (Some [118]) = (0, Some db') \<and>
      db_ok db' \<and> db_map db' = (db_map empty_db)(cstr [107] \<mapsto> cstr [118]))"
proof -
  have "put_args_ok [107] [118]" by (simp add: put_args_ok_def strlen_single max_consts)
  moreover have "faultless ideal_env" by (simp add: faultless_def ideal_env_def allocs_def)
  ultimately show ?thesis using empty_db_ok kvdb_put_stores [OF empty_db_ok] by blast
qed

text \<open>C17: On a well-formed file \<open>kvdb_get\<close> changes nothing and returns the stored value cut to the
  buffer, 0 for a probe of an existing key, -1 for a missing key; it may return -1 otherwise
  only when a lock, a seek or an allocation fails or the buffer is NULL with a length.\<close>

theorem kvdb_get_reads:
  assumes "db_ok db"
  shows "kvdb_get e (Some db) (Some key) has_buf len =
      (case copy_out (db_map db (cstr key)) has_buf len of (rc, out) \<Rightarrow> (rc, out, Some db)) \<or>
    kvdb_get e (Some db) (Some key) has_buf len = (-1, None, Some db) \<and>
      (\<not> has_buf \<and> len \<noteq> 0 \<or> \<not> (allocs e \<and> flock_ok e \<and> lseek_ok e))"
  by (rule kvdb_get_paths [OF assms])

theorem kvdb_get_reads_witness:
  "db_ok empty_db \<and>
   (kvdb_get ideal_env (Some empty_db) (Some [107]) True 8 =
      (case copy_out (db_map empty_db (cstr [107])) True 8 of (rc, out) \<Rightarrow> (rc, out, Some empty_db)) \<or>
    kvdb_get ideal_env (Some empty_db) (Some [107]) True 8 = (-1, None, Some empty_db) \<and>
      (\<not> True \<and> (8::nat) \<noteq> 0 \<or>
       \<not> (allocs ideal_env \<and> flock_ok ideal_env \<and> lseek_ok ideal_env)))"
  using empty_db_ok kvdb_get_reads [OF empty_db_ok] by blast

text \<open>C2: In any sequence of puts, each with its own failures, a put that returned 0 is read back as
  long as no later call of the sequence names the same key.\<close>

theorem kvdb_durable:
  assumes "db_ok db" and "fst (put_op e (run_puts put_op xs db) key val)"
    and "\<forall>(e', key', val') \<in> set ys. cstr key' \<noteq> cstr key"
  shows "get_op (run_puts put_op (xs @ (e, key, val) # ys) db) key = Some (cstr val)"
  using assms by (rule kv.read_your_write)

theorem kvdb_durable_witness:
  "get_op (run_puts put_op
     ([(ideal_env\<lparr>fsync_ok := False\<rparr>, [107], [120])] @ (ideal_env, [107], [118]) #
      [(ideal_env\<lparr>w_key := Some 0\<rparr>, [108], [119])]) empty_db) [107] = Some (cstr [118])"
proof (rule kvdb_durable [OF empty_db_ok])
  have a: "put_args_ok [107] [118]" by (simp add: put_args_ok_def strlen_single max_consts)
  have f: "faultless ideal_env" by (simp add: faultless_def ideal_env_def allocs_def)
  let ?db = "run_puts put_op [(ideal_env\<lparr>fsync_ok := False\<rparr>, [107], [120])] empty_db"
  have "db_ok ?db" by (rule kv.run_inv [OF empty_db_ok])
  then show "fst (put_op ideal_env ?db [107] [118])" using a f by (rule put_op_done)
  show "\<forall>(e', key', val') \<in> set [(ideal_env\<lparr>w_key := Some 0\<rparr>, [108], [119 :: u8])].
      cstr key' \<noteq> cstr [107]"
    by (simp add: strlen_single)
qed

text \<open>C19: Short reads and writes and interrupted calls do not show: with enough progress and no
  I/O error \<open>read_all_or_eof\<close> and \<open>write_all\<close> return what one full transfer returns, and a
  \<open>write_all\<close> that fails has written a prefix of its data.\<close>

theorem transfer_loops:
  assumes "healthy f" and "pos f \<le> length (contents f)" and "Eio \<notin> set evs"
    and "len \<le> transfers evs" and "length data \<le> transfers evs"
  shows "read_loop evs f len [] = Some (read_all_or_eof f len) \<and>
    write_loop evs f data = Some (write_all None f data) \<and>
    (\<forall>r f'. write_loop evs' f data = Some (r, f') \<longrightarrow>
       (r, f') = write_all None f data \<or> (\<exists>n. (r, f') = write_all (Some n) f data))"
  using read_loop_read_all [OF assms(1,3,4)] write_loop_result [OF assms(3,5,2)]
    write_loop_cases [OF _ assms(2), of evs' data] by auto

theorem transfer_loops_witness:
  "read_loop [Eintr, Upto 0, Upto 5] (db_file empty_db) 2 [] =
      Some (read_all_or_eof (db_file empty_db) 2) \<and>
   write_loop [Eintr, Upto 0, Upto 5] (db_file empty_db) [7, 8] =
      Some (write_all None (db_file empty_db) [7, 8])"
proof -
  have "healthy (db_file empty_db)" "pos (db_file empty_db) \<le> length (contents (db_file empty_db))"
    by (simp_all add: empty_db_def healthy_def)
  from transfer_loops [OF this, of "[Eintr, Upto 0, Upto 5]" 2 "[7, 8]" "[]"]
  show ?thesis by simp
qed

lemma unreadable_header:
  assumes "bad f i" "i < HDR" "i < length (contents f)" "lseek_ok e" "lseek_cur_ok e 0"
  shows "valid_prefix_end e f = 0"
proof -
  have "\<exists>j \<in> set [0..<length (take HDR (contents f))]. bad f j"
    by (rule bexI [of _ i]) (use assms in simp_all)
  then have "read_all_or_eof (f\<lparr>pos := 0\<rparr>) HDR = (-1, [], f\<lparr>pos := 0\<rparr>)"
    by (simp add: read_all_or_eof_def remaining_def Let_def)
  then show ?thesis
    using assms(4,5) by (simp add: valid_prefix_end_def valid_prefix_loop.simps [of e _ 0] Let_def)
qed

text \<open>C18: A device error while \<open>kvdb_put\<close> scans the log is taken for its end: if a byte of the first
  header cannot be read, a put whose own calls all succeed returns 0 and the file holds
  nothing but the new entry.\<close>

theorem put_after_read_error_drops_log:
  assumes "0 \<le> fd db" and "put_args_ok key val" and "faultless e"
    and "bad (db_file db) i" and "i < HDR" and "i < length (contents (db_file db))"
  shows "\<exists>db'. kvdb_put e (Some db) (Some key) (Some val) = (0, Some db') \<and>
    contents (db_file db') = entry key val"
proof -
  let ?f = "db_file db"
  let ?start = "(ftruncate ?f 0)\<lparr>pos := 0\<rparr>"
  have "valid_prefix_end e ?f = 0"
    using unreadable_header [OF assms(4-6)] assms(3) by (simp add: faultless_def)
  moreover have "contents ?start = []" "pos ?start = length (contents ?start)"
    by (simp_all add: ftruncate_def)
  note w1 = append_at_end [OF this(2)]
  note w2 = append_at_end [OF w1(2) [of "rec_bytes (put_record key val)"]]
  note w3 = append_at_end [OF w2(2) [of "cstr key"]]
  let ?done = "file_write (file_write (file_write ?start (rec_bytes (put_record key val))) (cstr key)) (cstr val)"
  have "contents ?done = [] @ rec_bytes (put_record key val) @ cstr key @ cstr val"
    by (simp only: w1(1) w2(1) w3(1)) (simp add: ftruncate_def)
  from commit_contents [OF this, of KVDB_COMMITTED]
  have "contents (file_pwrite ?done (le32 KVDB_COMMITTED) 4) = entry key val"
    by (simp add: entry_def)
  ultimately show ?thesis
    using assms(1-3) put_record_simps(1,2) [OF assms(2)]
    by (simp add: kvdb_put_paths put_file_def faultless_def cstr_def [symmetric] unlock_db_ok Let_def)
qed

definition faulty_db :: kvdb_t where
  "faulty_db = empty_db\<lparr>db_file := \<lparr>contents = entry [107] [118], pos = 0, bad = (\<lambda>i. i = 3)\<rparr>\<rparr>"

theorem put_after_read_error_drops_log_witness:
  "db_map faulty_db [107] = Some [118] \<and>
   (\<exists>db'. kvdb_put ideal_env (Some faulty_db) (Some [108]) (Some [119]) = (0, Some db') \<and>
      contents (db_file db') = entry [108] [119] \<and> db_map db' [107] = None)"
proof -
  have a: "put_args_ok [107] [118]" "put_args_ok [108] [119]"
    by (simp_all add: put_args_ok_def strlen_single max_consts)
  have f: "faultless ideal_env" by (simp add: faultless_def ideal_env_def allocs_def)
  have "kv_map (entry [107] [118]) = [[107] \<mapsto> [118]]" "kv_map (entry [108] [119]) = [[108] \<mapsto> [119]]"
    using entry_live(1) [OF a(1), of "[]"] entry_live(1) [OF a(2), of "[]"]
    by (simp_all add: kv_map_def strlen_single)
  moreover obtain db' where
    "kvdb_put ideal_env (Some faulty_db) (Some [108]) (Some [119]) = (0, Some db')"
    "contents (db_file db') = entry [108] [119]"
    using put_after_read_error_drops_log [of faulty_db "[108]" "[119]" ideal_env 3] a f
    by (auto simp: faulty_db_def empty_db_def entry_def HDR_def)
  ultimately show ?thesis by (simp add: db_map_def faulty_db_def)
qed

end
