(* ===== verification/KvThreads.thy ===== *)
theory KvThreads
  imports KvCorrect
begin

text \<open>
  \<open>m9/kvdb.c\<close> with several processes, each with several threads and handles, on one file.  A call
  takes \<open>global_mutex\<close> of its process, the mutex of its handle and the advisory lock of the file,
  works on the file, and releases them in the other order.  The lock calls of all threads interleave,
  and a process may die at any point.  At most one thread works on the file, and what the calls
  return is what they would return one after the other.
\<close>

subsection \<open>Calls\<close>

text \<open>What \<open>kvdb_get\<close> does between \<open>lock_db\<close> and \<open>unlock_db\<close>.\<close>

definition get_body :: "env \<Rightarrow> kfile \<Rightarrow> bytes \<Rightarrow> bool \<Rightarrow> nat \<Rightarrow> int \<times> bytes option" where
  "get_body e f key has_buf len =
     (if \<not> lseek_ok e then (-1, None)
      else
        (case get_loop e (f\<lparr>pos := 0\<rparr>) key (strlen key) None of
           None \<Rightarrow> (-1, None)
         | Some best \<Rightarrow> copy_out best has_buf len))"

lemma kvdb_get_body:
  assumes "0 \<le> fd db" "has_buf \<or> len = 0" "strlen key \<noteq> 0" "strlen key \<le> unat KVDB_MAX_KEY" "flock_ok e"
  shows "kvdb_get e (Some db) (Some key) has_buf len =
    (case get_body e (db_file db) key has_buf len of (rc, out) \<Rightarrow>
       (rc, out, Some (unlock_db (snd (lock_db e db)))))"
  using assms
  by (auto simp: kvdb_get_def get_body_def lock_db_def Let_def unlock_db_def split: option.split prod.split)

text \<open>A call with its environment, and whether its arguments pass the tests before the locks.\<close>

datatype kv_op = Put env bytes bytes | Get env bytes bool nat

fun op_env :: "kv_op \<Rightarrow> env" where
  "op_env (Put e key val) = e"
| "op_env (Get e key has_buf len) = e"

fun op_args :: "kv_op \<Rightarrow> bool" where
  "op_args (Put e key val) = put_args_ok key val"
| "op_args (Get e key has_buf len) =
     ((has_buf \<or> len = 0) \<and> strlen key \<noteq> 0 \<and> strlen key \<le> unat KVDB_MAX_KEY)"

type_synonym ret = "int \<times> bytes option"

fun op_work :: "kv_op \<Rightarrow> kfile \<Rightarrow> ret \<times> kfile" where
  "op_work (Put e key val) f = (case put_file e f (put_record key val) key val of (r, f') \<Rightarrow> ((r, None), f'))"
| "op_work (Get e key has_buf len) f = (get_body e f key has_buf len, f)"

subsection \<open>Threads\<close>

text \<open>Where a thread is; the number is the handle that it uses.\<close>

datatype kv_pc =
    Idle
  | Want_Global nat kv_op
  | Want_Mutex nat kv_op
  | Want_Flock nat kv_op
  | Working nat kv_op
  | Unlock_Flock nat ret
  | Unlock_Mutex nat ret
  | Unlock_Global nat ret
  | Dead

text \<open>\<open>global_held p\<close>: \<open>global_mutex\<close> of process \<open>p\<close>; \<open>mutex_held h\<close>: the mutex of handle \<open>h\<close>;
  \<open>flock_held\<close>: the handle whose open file has the advisory lock.  \<open>history\<close> has the calls in the order
  in which they worked on the file.\<close>

record kv_sys =
  kv_pcs :: "nat \<Rightarrow> kv_pc"
  global_held :: "nat \<Rightarrow> bool"
  mutex_held :: "nat \<Rightarrow> bool"
  flock_held :: "nat option"
  shared :: kfile
  history :: "(kv_op \<times> ret) list"

abbreviation kv_goto :: "kv_sys \<Rightarrow> nat \<Rightarrow> kv_pc \<Rightarrow> kv_sys" where
  "kv_goto s i q \<equiv> s\<lparr>kv_pcs := (kv_pcs s)(i := q)\<rparr>"

text \<open>What a process leaves of the file when it dies: a put in progress stops at some point, which is
  where some environment makes it fail.\<close>

inductive left_behind :: "kv_pc \<Rightarrow> kfile \<Rightarrow> (kv_op \<times> ret) list \<Rightarrow> kfile \<Rightarrow> bool" where
  left_put: "op_work (Put e' key val) f = (r, f') \<Longrightarrow>
    left_behind (Working h (Put e key val)) f [(Put e' key val, (-1, None))] f'"
| left_same: "left_behind q f [] f"

text \<open>The steps of \<open>N\<close> threads; \<open>proc i\<close> is the process of thread \<open>i\<close> and \<open>home h\<close> that of handle \<open>h\<close>.
  \<open>flock\<close> gives the lock when nobody has it or the same open file has it.  When the process \<open>p\<close> dies,
  its mutexes are gone and its file locks are released; \<open>i\<close> is the thread that works on the file, if
  one of the process does.\<close>

inductive kv_step ::
  "nat \<Rightarrow> (nat \<Rightarrow> nat) \<Rightarrow> (nat \<Rightarrow> nat) \<Rightarrow> kv_sys \<Rightarrow> kv_sys \<Rightarrow> bool" for N proc home where
  call: "i < N \<Longrightarrow> kv_pcs s i = Idle \<Longrightarrow> home h = proc i \<Longrightarrow> op_args c \<Longrightarrow>
    kv_step N proc home s (kv_goto s i (Want_Global h c))"
| lock_global: "i < N \<Longrightarrow> kv_pcs s i = Want_Global h c \<Longrightarrow> \<not> global_held s (proc i) \<Longrightarrow>
    kv_step N proc home s
      (kv_goto s i (Want_Mutex h c)\<lparr>global_held := (global_held s)(proc i := True)\<rparr>)"
| lock_mutex: "i < N \<Longrightarrow> kv_pcs s i = Want_Mutex h c \<Longrightarrow> \<not> mutex_held s h \<Longrightarrow>
    kv_step N proc home s (kv_goto s i (Want_Flock h c)\<lparr>mutex_held := (mutex_held s)(h := True)\<rparr>)"
| flock_interrupted: "i < N \<Longrightarrow> kv_pcs s i = Want_Flock h c \<Longrightarrow> kv_step N proc home s s"
| flock_fails: "i < N \<Longrightarrow> kv_pcs s i = Want_Flock h c \<Longrightarrow> \<not> flock_ok (op_env c) \<Longrightarrow>
    kv_step N proc home s (kv_goto s i (Unlock_Mutex h (-1, None)))"
| flock_takes: "i < N \<Longrightarrow> kv_pcs s i = Want_Flock h c \<Longrightarrow> flock_ok (op_env c) \<Longrightarrow>
    flock_held s = None \<or> flock_held s = Some h \<Longrightarrow>
    kv_step N proc home s (kv_goto s i (Working h c)\<lparr>flock_held := Some h\<rparr>)"
| work: "i < N \<Longrightarrow> kv_pcs s i = Working h c \<Longrightarrow> op_work c (shared s) = (r, f) \<Longrightarrow>
    kv_step N proc home s
      (kv_goto s i (Unlock_Flock h r)\<lparr>shared := f, history := history s @ [(c, r)]\<rparr>)"
| unlock_flock: "i < N \<Longrightarrow> kv_pcs s i = Unlock_Flock h r \<Longrightarrow>
    kv_step N proc home s (kv_goto s i (Unlock_Mutex h r)\<lparr>flock_held := None\<rparr>)"
| unlock_mutex: "i < N \<Longrightarrow> kv_pcs s i = Unlock_Mutex h r \<Longrightarrow>
    kv_step N proc home s (kv_goto s i (Unlock_Global h r)\<lparr>mutex_held := (mutex_held s)(h := False)\<rparr>)"
| unlock_global: "i < N \<Longrightarrow> kv_pcs s i = Unlock_Global h r \<Longrightarrow>
    kv_step N proc home s (kv_goto s i Idle\<lparr>global_held := (global_held s)(proc i := False)\<rparr>)"
| dies: "i < N \<Longrightarrow> (\<forall>j < N. proc j = proc i \<longrightarrow> (\<exists>h c. kv_pcs s j = Working h c) \<longrightarrow> j = i) \<Longrightarrow>
    left_behind (kv_pcs s i) (shared s) hs f \<Longrightarrow>
    kv_step N proc home s
      (s\<lparr>kv_pcs := (\<lambda>j. if proc j = proc i then Dead else kv_pcs s j),
         global_held := (global_held s)(proc i := False),
         mutex_held := (\<lambda>h. home h \<noteq> proc i \<and> mutex_held s h),
         flock_held := (case flock_held s of None \<Rightarrow> None | Some h \<Rightarrow> if home h = proc i then None else Some h),
         shared := f, history := history s @ hs\<rparr>)"

definition kv_start :: "kfile \<Rightarrow> kv_sys" where
  "kv_start f = \<lparr>kv_pcs = \<lambda>_. Idle, global_held = \<lambda>_. False, mutex_held = \<lambda>_. False,
     flock_held = None, shared = f, history = []\<rparr>"

subsection \<open>The locks\<close>

fun handle_of :: "kv_pc \<Rightarrow> nat option" where
  "handle_of Idle = None"
| "handle_of (Want_Global h c) = Some h"
| "handle_of (Want_Mutex h c) = Some h"
| "handle_of (Want_Flock h c) = Some h"
| "handle_of (Working h c) = Some h"
| "handle_of (Unlock_Flock h r) = Some h"
| "handle_of (Unlock_Mutex h r) = Some h"
| "handle_of (Unlock_Global h r) = Some h"
| "handle_of Dead = None"

fun in_global :: "kv_pc \<Rightarrow> bool" where
  "in_global (Want_Mutex h c) = True"
| "in_global (Want_Flock h c) = True"
| "in_global (Working h c) = True"
| "in_global (Unlock_Flock h r) = True"
| "in_global (Unlock_Mutex h r) = True"
| "in_global (Unlock_Global h r) = True"
| "in_global _ = False"

fun has_mutex :: "nat \<Rightarrow> kv_pc \<Rightarrow> bool" where
  "has_mutex g (Want_Flock h c) = (h = g)"
| "has_mutex g (Working h c) = (h = g)"
| "has_mutex g (Unlock_Flock h r) = (h = g)"
| "has_mutex g (Unlock_Mutex h r) = (h = g)"
| "has_mutex g _ = False"

fun has_flock :: "nat \<Rightarrow> kv_pc \<Rightarrow> bool" where
  "has_flock g (Working h c) = (h = g)"
| "has_flock g (Unlock_Flock h r) = (h = g)"
| "has_flock g _ = False"

definition who :: "nat \<Rightarrow> (nat \<Rightarrow> kv_pc) \<Rightarrow> (nat \<Rightarrow> kv_pc \<Rightarrow> bool) \<Rightarrow> nat set" where
  "who N ps P = {i. i < N \<and> P i (ps i)}"

lemma who_same: "P i q = P i (ps i) \<Longrightarrow> who N (ps(i := q)) P = who N ps P"
  by (auto simp: who_def)

lemma who_upd:
  "i < N \<Longrightarrow> who N (ps(i := q)) P = (if P i q then insert i (who N ps P) else who N ps P - {i})"
  by (auto simp: who_def split: if_splits)

lemma who_in: "i < N \<Longrightarrow> i \<in> who N ps P \<longleftrightarrow> P i (ps i)"
  by (simp add: who_def)

text \<open>A lock is held exactly if some thread is where it holds it; two threads of one process never
  both hold \<open>global_mutex\<close>; a thread uses handles of its process only.\<close>

definition handles_home :: "nat \<Rightarrow> (nat \<Rightarrow> nat) \<Rightarrow> (nat \<Rightarrow> nat) \<Rightarrow> kv_sys \<Rightarrow> bool" where
  "handles_home N proc home s \<longleftrightarrow> (\<forall>i < N. \<forall>h. handle_of (kv_pcs s i) = Some h \<longrightarrow> home h = proc i)"

abbreviation globals :: "nat \<Rightarrow> (nat \<Rightarrow> nat) \<Rightarrow> kv_sys \<Rightarrow> nat \<Rightarrow> nat set" where
  "globals N proc s p \<equiv> who N (kv_pcs s) (\<lambda>i q. in_global q \<and> proc i = p)"

definition globals_ok :: "nat \<Rightarrow> (nat \<Rightarrow> nat) \<Rightarrow> kv_sys \<Rightarrow> bool" where
  "globals_ok N proc s \<longleftrightarrow>
     (\<forall>p. if global_held s p then \<exists>i. globals N proc s p = {i} else globals N proc s p = {})"

definition mutexes_ok :: "nat \<Rightarrow> kv_sys \<Rightarrow> bool" where
  "mutexes_ok N s \<longleftrightarrow> (\<forall>h. mutex_held s h \<longleftrightarrow> who N (kv_pcs s) (\<lambda>i. has_mutex h) \<noteq> {})"

definition flock_right :: "nat \<Rightarrow> kv_sys \<Rightarrow> bool" where
  "flock_right N s \<longleftrightarrow> (\<forall>h. flock_held s = Some h \<longleftrightarrow> who N (kv_pcs s) (\<lambda>i. has_flock h) \<noteq> {})"

definition locks_ok :: "nat \<Rightarrow> (nat \<Rightarrow> nat) \<Rightarrow> (nat \<Rightarrow> nat) \<Rightarrow> kv_sys \<Rightarrow> bool" where
  "locks_ok N proc home s \<longleftrightarrow>
     handles_home N proc home s \<and> globals_ok N proc s \<and> mutexes_ok N s \<and> flock_right N s"

lemma locks_okD:
  "locks_ok N proc home s \<Longrightarrow> handles_home N proc home s" "locks_ok N proc home s \<Longrightarrow> globals_ok N proc s"
  "locks_ok N proc home s \<Longrightarrow> mutexes_ok N s" "locks_ok N proc home s \<Longrightarrow> flock_right N s"
  by (simp_all add: locks_ok_def)

lemma has_mutex_global: "has_mutex h q \<Longrightarrow> in_global q \<and> handle_of q = Some h"
  by (cases q) auto

lemma has_flock_mutex: "has_flock h q \<Longrightarrow> has_mutex h q"
  by (cases q) auto

lemma one_in_global:
  assumes "locks_ok N proc home s" "i < N" "j < N" "in_global (kv_pcs s i)" "in_global (kv_pcs s j)" "proc i = proc j"
  shows "i = j"
proof -
  have "i \<in> globals N proc s (proc j)" "j \<in> globals N proc s (proc j)" using assms by (simp_all add: who_in)
  moreover have "if global_held s (proc j) then \<exists>i. globals N proc s (proc j) = {i} else globals N proc s (proc j) = {}"
    using locks_okD(2) [OF assms(1)] by (simp add: globals_ok_def)
  ultimately show ?thesis by (auto split: if_splits)
qed

lemma one_with_mutex:
  assumes "locks_ok N proc home s" "i < N" "j < N" "has_mutex h (kv_pcs s i)" "has_mutex h (kv_pcs s j)"
  shows "i = j"
proof -
  have "home h = proc i" "home h = proc j"
    using assms has_mutex_global unfolding locks_ok_def handles_home_def by blast+
  then show ?thesis using one_in_global [OF assms(1-3)] has_mutex_global assms(4,5) by metis
qed

lemma flock_holder:
  assumes "locks_ok N proc home s" "i < N" "has_flock h (kv_pcs s i)"
  shows "flock_held s = Some h"
  using assms who_in [of i N "kv_pcs s" "\<lambda>i. has_flock h"] locks_okD(4) [OF assms(1)]
  unfolding flock_right_def by blast

lemma one_with_flock:
  assumes "locks_ok N proc home s" "i < N" "j < N" "has_flock h (kv_pcs s i)" "has_flock g (kv_pcs s j)"
  shows "i = j"
  using flock_holder [OF assms(1,2,4)] flock_holder [OF assms(1,3,5)] one_with_mutex [OF assms(1-3)]
    has_flock_mutex assms(4,5) by auto

lemma home_step: "kv_step N proc home s s' \<Longrightarrow> handles_home N proc home s \<Longrightarrow> handles_home N proc home s'"
  by (induction rule: kv_step.induct) (simp_all add: handles_home_def)

lemma globals_step: "kv_step N proc home s s' \<Longrightarrow> globals_ok N proc s \<Longrightarrow> globals_ok N proc s'"
proof (induction rule: kv_step.induct)
  case (lock_global i s h c)
  then have "globals N proc s (proc i) = {}" by (auto simp: globals_ok_def split: if_splits)
  moreover have "globals N proc (kv_goto s i (Want_Mutex h c)) p =
      (if p = proc i then insert i (globals N proc s p) else globals N proc s p)" for p
    using lock_global by (auto simp: who_def)
  ultimately show ?case using lock_global by (simp add: globals_ok_def)
next
  case (unlock_global i s h r)
  then have "i \<in> globals N proc s (proc i)" by (simp add: who_in)
  moreover from this obtain j where "globals N proc s (proc i) = {j}"
    using unlock_global by (metis empty_iff globals_ok_def)
  ultimately have "globals N proc s (proc i) = {i}" by simp
  moreover have "globals N proc (kv_goto s i Idle) p =
      (if p = proc i then globals N proc s p - {i} else globals N proc s p)" for p
    using unlock_global by (auto simp: who_def)
  ultimately show ?case using unlock_global by (simp add: globals_ok_def)
next
  case (dies i s hs f)
  have "globals N proc (s\<lparr>kv_pcs := (\<lambda>j. if proc j = proc i then Dead else kv_pcs s j)\<rparr>) p =
      (if p = proc i then {} else globals N proc s p)" for p
    by (auto simp: who_def)
  with dies show ?case by (simp add: globals_ok_def)
qed (simp_all add: globals_ok_def who_same)

lemma mutexes_step:
  assumes "kv_step N proc home s s'" "locks_ok N proc home s"
  shows "mutexes_ok N s'"
  using assms
proof (induction rule: kv_step.induct)
  case (lock_mutex i s h c)
  moreover have "who N (kv_pcs (kv_goto s i (Want_Flock h c))) (\<lambda>i. has_mutex g) =
      (if g = h then insert i (who N (kv_pcs s) (\<lambda>i. has_mutex g)) else who N (kv_pcs s) (\<lambda>i. has_mutex g))" for g
    using lock_mutex by (auto simp: who_def)
  ultimately show ?case by (simp add: mutexes_ok_def locks_ok_def)
next
  case (unlock_mutex i s h r)
  have "who N (kv_pcs s) (\<lambda>i. has_mutex h) = {i}"
    using unlock_mutex one_with_mutex [OF unlock_mutex(3)] by (fastforce simp: who_def)
  moreover have "who N (kv_pcs (kv_goto s i (Unlock_Global h r))) (\<lambda>i. has_mutex g) =
      (if g = h then who N (kv_pcs s) (\<lambda>i. has_mutex g) - {i} else who N (kv_pcs s) (\<lambda>i. has_mutex g))" for g
    using unlock_mutex by (auto simp: who_def)
  ultimately show ?case using unlock_mutex by (simp add: mutexes_ok_def locks_ok_def)
next
  case (dies i s hs f)
  have "handles_home N proc home s" using dies by (simp add: locks_ok_def)
  then have "who N (\<lambda>j. if proc j = proc i then Dead else kv_pcs s j) (\<lambda>i. has_mutex h) =
      (if home h = proc i then {} else who N (kv_pcs s) (\<lambda>i. has_mutex h))" for h
    using has_mutex_global by (fastforce simp: who_def handles_home_def split: if_splits)
  with dies show ?case by (simp add: mutexes_ok_def locks_ok_def)
qed (simp_all add: mutexes_ok_def locks_ok_def who_same)

lemma flock_step:
  assumes "kv_step N proc home s s'" "locks_ok N proc home s"
  shows "flock_right N s'"
  using assms
proof (induction rule: kv_step.induct)
  case (flock_takes i s h c)
  have "flock_held s = Some g \<longleftrightarrow> who N (kv_pcs s) (\<lambda>i. has_flock g) \<noteq> {}" for g
    using flock_takes(5) by (simp add: flock_right_def locks_ok_def)
  then have none: "who N (kv_pcs s) (\<lambda>i. has_flock g) = {}" if "g \<noteq> h" for g
    using flock_takes(4) that by (metis option.distinct(1) option.sel)
  have "who N (kv_pcs (kv_goto s i (Working h c))) (\<lambda>i. has_flock g) =
      (if g = h then insert i (who N (kv_pcs s) (\<lambda>i. has_flock g)) else who N (kv_pcs s) (\<lambda>i. has_flock g))" for g
    using flock_takes by (auto simp: who_def)
  with none show ?case by (simp add: flock_right_def)
next
  case (unlock_flock i s h r)
  have "x = i" if "x \<in> who N (kv_pcs s) (\<lambda>i. has_flock g)" for x g
    using one_with_flock [OF unlock_flock(3), of x i g h] that unlock_flock(1,2) by (simp add: who_def)
  then have "who N (kv_pcs s) (\<lambda>i. has_flock g) \<subseteq> {i}" for g by blast
  moreover have "who N (kv_pcs (kv_goto s i (Unlock_Mutex h r))) (\<lambda>i. has_flock g) =
      who N (kv_pcs s) (\<lambda>i. has_flock g) - {i}" for g
    using unlock_flock by (auto simp: who_def)
  ultimately show ?case by (simp add: flock_right_def)
next
  case (dies i s hs f)
  have "handles_home N proc home s" using dies by (simp add: locks_ok_def)
  then have "who N (\<lambda>j. if proc j = proc i then Dead else kv_pcs s j) (\<lambda>i. has_flock h) =
      (if home h = proc i then {} else who N (kv_pcs s) (\<lambda>i. has_flock h))" for h
    using has_mutex_global has_flock_mutex by (fastforce simp: who_def handles_home_def split: if_splits)
  moreover have "flock_held s = Some h \<longleftrightarrow> who N (kv_pcs s) (\<lambda>i. has_flock h) \<noteq> {}" for h
    using dies by (simp add: flock_right_def locks_ok_def)
  moreover have "(case flock_held s of None \<Rightarrow> None | Some h \<Rightarrow> if home h = proc i then None else Some h) = Some h \<longleftrightarrow>
      flock_held s = Some h \<and> home h \<noteq> proc i" for h
    by (auto split: option.split)
  ultimately show ?case by (simp add: flock_right_def)
qed (simp_all add: flock_right_def locks_ok_def who_same)

lemma locks_step: "kv_step N proc home s s' \<Longrightarrow> locks_ok N proc home s \<Longrightarrow> locks_ok N proc home s'"
  unfolding locks_ok_def [of N proc home s']
  using home_step globals_step mutexes_step flock_step locks_okD(1,2) by metis

subsection \<open>The file\<close>

text \<open>What a call may answer when the stored pairs are \<open>m\<close>, and the pairs after it.\<close>

fun op_spec :: "(bytes \<rightharpoonup> bytes) \<Rightarrow> kv_op \<Rightarrow> ret \<Rightarrow> (bytes \<rightharpoonup> bytes) \<Rightarrow> bool" where
  "op_spec m (Put e key val) r m' \<longleftrightarrow>
     (r = (0, None) \<or> r = (-1, None)) \<and>
     (m' = m(cstr key \<mapsto> cstr val) \<or> m' = m \<and> r = (-1, None))"
| "op_spec m (Get e key has_buf len) r m' \<longleftrightarrow>
     m' = m \<and> (r = copy_out (m (cstr key)) has_buf len \<or> r = (-1, None) \<and> \<not> (allocs e \<and> lseek_ok e))"

primrec explained :: "(bytes \<rightharpoonup> bytes) \<Rightarrow> (kv_op \<times> ret) list \<Rightarrow> (bytes \<rightharpoonup> bytes) \<Rightarrow> bool" where
  "explained m [] m' \<longleftrightarrow> m' = m"
| "explained m (x # xs) m' \<longleftrightarrow> (\<exists>m1. op_spec m (fst x) (snd x) m1 \<and> explained m1 xs m')"

lemma explained_append:
  "explained m (xs @ ys) m' \<longleftrightarrow> (\<exists>m1. explained m xs m1 \<and> explained m1 ys m')"
  by (induction xs arbitrary: m) auto

definition file_ok :: "kfile \<Rightarrow> bool" where
  "file_ok f \<longleftrightarrow> healthy f \<and> clean (contents f)"

lemma op_work_spec:
  assumes "file_ok f" "op_args c" "op_work c f = (r, f')"
  shows "file_ok f' \<and> op_spec (kv_map (contents f)) c r (kv_map (contents f'))"
proof (cases c)
  case (Put e key val)
  obtain q g where pf: "put_file e f (put_record key val) key val = (q, g)" by (metis surj_pair)
  then have "put_outcome f key val (q, g)"
    using put_file_outcome [of f key val e] assms(1,2) Put by (simp add: file_ok_def)
  from put_outcome_map [OF _ _ this] show ?thesis
    using assms Put pf by (auto simp: file_ok_def)
next
  case (Get e key has_buf len)
  have "healthy (f\<lparr>pos := 0\<rparr>)" using assms(1) by (simp add: file_ok_def)
  from get_loop_result [OF this, of e key None]
  have "get_loop e (f\<lparr>pos := 0\<rparr>) key (strlen key) None = Some (kv_map (contents f) (cstr key)) \<or>
    get_loop e (f\<lparr>pos := 0\<rparr>) key (strlen key) None = None \<and> \<not> allocs e"
    by (simp add: remaining_def kv_map_def last_match_map_of split: option.splits)
  then show ?thesis using assms Get by (auto simp: get_body_def)
qed

text \<open>The call that a thread is in.\<close>

fun op_of :: "kv_pc \<Rightarrow> kv_op option" where
  "op_of (Want_Global h c) = Some c"
| "op_of (Want_Mutex h c) = Some c"
| "op_of (Want_Flock h c) = Some c"
| "op_of (Working h c) = Some c"
| "op_of _ = None"

definition file_right :: "nat \<Rightarrow> (bytes \<rightharpoonup> bytes) \<Rightarrow> kv_sys \<Rightarrow> bool" where
  "file_right N m s \<longleftrightarrow>
     (\<forall>i < N. \<forall>c. op_of (kv_pcs s i) = Some c \<longrightarrow> op_args c) \<and>
     file_ok (shared s) \<and> explained m (history s) (kv_map (contents (shared s)))"

lemma file_step: "kv_step N proc home s s' \<Longrightarrow> file_right N m s \<Longrightarrow> file_right N m s'"
proof (induction rule: kv_step.induct)
  case (work i s h c r f)
  then have "op_args c" by (auto simp: file_right_def)
  with work op_work_spec [of "shared s" c r f] show ?case
    by (auto simp: file_right_def explained_append)
next
  case (dies i s hs f)
  from dies(3) show ?case
  proof (cases rule: left_behind.cases)
    case (left_put e' key val r h e)
    then have "op_args (Put e' key val)" using dies(1,4) by (auto simp: file_right_def)
    from op_work_spec [OF _ this left_put(3)] dies(4)
    have o: "file_ok f" "op_spec (kv_map (contents (shared s))) (Put e' key val) r (kv_map (contents f))"
      by (simp_all add: file_right_def)
    then have "op_spec (kv_map (contents (shared s))) (Put e' key val) (-1, None) (kv_map (contents f))" by auto
    with o(1) dies(4) left_put(2) show ?thesis by (auto simp: file_right_def explained_append)
  next
    case left_same
    with dies(4) show ?thesis by (auto simp: file_right_def)
  qed
qed (auto simp: file_right_def)

lemma kv_reachable:
  assumes "(kv_step N proc home)\<^sup>*\<^sup>* (kv_start f) s" "file_ok f"
  shows "locks_ok N proc home s \<and> file_right N (kv_map (contents f)) s"
  using assms(1)
proof (induction rule: rtranclp_induct)
  case base
  then show ?case using assms(2)
    by (simp add: locks_ok_def handles_home_def globals_ok_def mutexes_ok_def flock_right_def who_def
        kv_start_def file_right_def)
next
  case (step s s')
  then show ?case using locks_step file_step by blast
qed

subsection \<open>Every call can finish\<close>

text \<open>How many steps a thread is from the end of its call.\<close>

fun to_go :: "kv_pc \<Rightarrow> nat" where
  "to_go (Want_Global h c) = 7"
| "to_go (Want_Mutex h c) = 6"
| "to_go (Want_Flock h c) = 5"
| "to_go (Working h c) = 4"
| "to_go (Unlock_Flock h r) = 3"
| "to_go (Unlock_Mutex h r) = 2"
| "to_go (Unlock_Global h r) = 1"
| "to_go _ = 0"

text \<open>A step with which thread \<open>i\<close> comes nearer to the end of its call.\<close>

definition nearer :: "nat \<Rightarrow> (nat \<Rightarrow> nat) \<Rightarrow> (nat \<Rightarrow> nat) \<Rightarrow> nat \<Rightarrow> kv_sys \<Rightarrow> kv_sys \<Rightarrow> bool" where
  "nearer N proc home i s s' \<longleftrightarrow> kv_step N proc home s s' \<and> i < N \<and>
     (\<exists>q. kv_pcs s' = (kv_pcs s)(i := q) \<and> q \<noteq> Dead \<and> to_go q < to_go (kv_pcs s i))"

definition advances :: "nat \<Rightarrow> (nat \<Rightarrow> nat) \<Rightarrow> (nat \<Rightarrow> nat) \<Rightarrow> kv_sys \<Rightarrow> nat \<Rightarrow> bool" where
  "advances N proc home s i \<longleftrightarrow> (\<exists>s'. nearer N proc home i s s')"

lemma advancesI:
  "kv_step N proc home s s' \<Longrightarrow> i < N \<Longrightarrow> kv_pcs s' = (kv_pcs s)(i := q) \<Longrightarrow>
   q \<noteq> Dead \<and> to_go q < to_go (kv_pcs s i) \<Longrightarrow> advances N proc home s i"
  unfolding advances_def nearer_def by blast

lemma unlocks_advance:
  assumes "i < N" "in_global (kv_pcs s i)" "\<forall>h c. kv_pcs s i \<noteq> Want_Mutex h c" "\<forall>h c. kv_pcs s i \<noteq> Want_Flock h c"
  shows "advances N proc home s i"
proof (cases "kv_pcs s i")
  case (Working h c)
  obtain r f where "op_work c (shared s) = (r, f)" by (metis surj_pair)
  from kv_step.work [OF assms(1) Working this] show ?thesis by (rule advancesI) (simp add: Working assms(1), simp, simp add: Working)
next
  case (Unlock_Flock h r)
  from kv_step.unlock_flock [OF assms(1) this] show ?thesis by (rule advancesI) (simp add: Unlock_Flock assms(1), simp, simp add: Unlock_Flock)
next
  case (Unlock_Mutex h r)
  from kv_step.unlock_mutex [OF assms(1) this] show ?thesis by (rule advancesI) (simp add: Unlock_Mutex assms(1), simp, simp add: Unlock_Mutex)
next
  case (Unlock_Global h r)
  from kv_step.unlock_global [OF assms(1) this] show ?thesis by (rule advancesI) (simp add: Unlock_Global assms(1), simp, simp add: Unlock_Global)
qed (use assms in auto)

text \<open>A thread that waits for \<open>flock\<close> can go on, or the thread that has the lock can.\<close>

lemma flock_advances:
  assumes "locks_ok N proc home s" "i < N" "kv_pcs s i = Want_Flock h c"
  shows "\<exists>j < N. advances N proc home s j"
proof (cases "\<not> flock_ok (op_env c) \<or> flock_held s = None \<or> flock_held s = Some h")
  case True
  have "advances N proc home s i"
  proof (cases "flock_ok (op_env c)")
    case False
    from kv_step.flock_fails [OF assms(2,3) this] show ?thesis
      by (rule advancesI) (simp add: assms(2), simp, simp add: assms(3))
  next
    case ok: True
    with True have "flock_held s = None \<or> flock_held s = Some h" by simp
    from kv_step.flock_takes [OF assms(2,3) ok this] show ?thesis
      by (rule advancesI) (simp add: assms(2), simp, simp add: assms(3))
  qed
  with assms(2) show ?thesis by blast
next
  case False
  then obtain g where "flock_held s = Some g" by auto
  then obtain j where j: "j < N" "has_flock g (kv_pcs s j)"
    using locks_okD(4) [OF assms(1)] by (fastforce simp: flock_right_def who_def)
  then have "in_global (kv_pcs s j)" "\<forall>h c. kv_pcs s j \<noteq> Want_Mutex h c" "\<forall>h c. kv_pcs s j \<noteq> Want_Flock h c"
    by (cases "kv_pcs s j"; simp)+
  then show ?thesis using unlocks_advance [OF j(1)] j(1) by blast
qed

text \<open>So a thread that holds \<open>global_mutex\<close> is never in the way for ever.\<close>

lemma global_advances:
  assumes "locks_ok N proc home s" "i < N" "in_global (kv_pcs s i)"
  shows "\<exists>j < N. advances N proc home s j"
proof (cases "kv_pcs s i")
  case (Want_Mutex h c)
  have "\<not> mutex_held s h"
  proof
    assume "mutex_held s h"
    then obtain j where j: "j < N" "has_mutex h (kv_pcs s j)"
      using locks_okD(3) [OF assms(1)] by (fastforce simp: mutexes_ok_def who_def)
    have "home h = proc i" using locks_okD(1) [OF assms(1)] assms(2) Want_Mutex by (simp add: handles_home_def)
    moreover have "home h = proc j"
      using locks_okD(1) [OF assms(1)] j has_mutex_global unfolding handles_home_def by blast
    ultimately have "i = j" using one_in_global [OF assms(1,2) j(1) assms(3)] has_mutex_global [OF j(2)] by simp
    with j Want_Mutex show False by simp
  qed
  from kv_step.lock_mutex [OF assms(2) Want_Mutex this] have "advances N proc home s i"
    by (rule advancesI) (simp add: assms(2), simp, simp add: Want_Mutex)
  with assms(2) show ?thesis by blast
next
  case (Want_Flock h c)
  then show ?thesis using flock_advances [OF assms(1,2)] by blast
qed (use assms unlocks_advance [OF assms(2)] in auto)

lemma some_advances:
  assumes "locks_ok N proc home s" "i < N" "handle_of (kv_pcs s i) \<noteq> None"
  shows "\<exists>j < N. advances N proc home s j"
proof (cases "in_global (kv_pcs s i)")
  case True
  then show ?thesis using global_advances assms by blast
next
  case False
  then obtain h c where i: "kv_pcs s i = Want_Global h c" using assms(3) by (cases "kv_pcs s i") auto
  show ?thesis
  proof (cases "global_held s (proc i)")
    case True
    then obtain j where "globals N proc s (proc i) = {j}"
      using locks_okD(2) [OF assms(1)] unfolding globals_ok_def by metis
    then have "j < N" "in_global (kv_pcs s j)" by (auto simp: who_def)
    then show ?thesis using global_advances [OF assms(1)] by blast
  next
    case False
    from kv_step.lock_global [of i N s h c proc home, OF assms(2) i this] have "advances N proc home s i"
      by (rule advancesI) (simp add: assms(2), simp, simp add: i)
    with assms(2) show ?thesis by blast
  qed
qed

lemma calls_end:
  assumes "locks_ok N proc home s"
  shows "\<exists>s'. (\<lambda>s s'. \<exists>i. nearer N proc home i s s')\<^sup>*\<^sup>* s s' \<and> (\<forall>i < N. handle_of (kv_pcs s' i) = None)"
  using assms
proof (induction "\<Sum>i<N. to_go (kv_pcs s i)" arbitrary: s rule: less_induct)
  case less
  show ?case
  proof (cases "\<forall>i < N. handle_of (kv_pcs s i) = None")
    case False
    then obtain j s' where n: "nearer N proc home j s s'"
      using some_advances [OF less.prems] unfolding advances_def by blast
    then obtain q where s': "kv_step N proc home s s'" "kv_pcs s' = (kv_pcs s)(j := q)"
      "to_go q < to_go (kv_pcs s j)" "j < N" unfolding nearer_def by blast
    have "(\<Sum>i<N. to_go (kv_pcs s' i)) < (\<Sum>i<N. to_go (kv_pcs s i))"
      using s' by (intro sum_strict_mono_ex1) auto
    from less.hyps [OF this locks_step [OF s'(1) less.prems]] obtain s'' where
      "(\<lambda>s s'. \<exists>i. nearer N proc home i s s')\<^sup>*\<^sup>* s' s''" "\<forall>i < N. handle_of (kv_pcs s'' i) = None" by blast
    with n show ?thesis
      by (metis (mono_tags, lifting) converse_rtranclp_into_rtranclp)
  qed blast
qed

subsection \<open>A run\<close>

text \<open>Two processes put at the same time; the second one waits for \<open>flock\<close> until the first has put.\<close>

abbreviation put_kv :: kv_op where
  "put_kv \<equiv> Put ideal_env [107] [118]"

definition kv_two :: "kv_pc \<Rightarrow> kv_pc \<Rightarrow> nat \<Rightarrow> kv_pc" where
  "kv_two p q i = (if i = 0 then p else if i = 1 then q else Idle)"

definition bits :: "bool \<Rightarrow> bool \<Rightarrow> nat \<Rightarrow> bool" where
  "bits a b i = (if i = 0 then a else i = 1 \<and> b)"

lemma kv_two_simps [simp]:
  "kv_two p q 0 = p" "kv_two p q (Suc 0) = q"
  "(kv_two p q)(0 := r) = kv_two r q" "(kv_two p q)(Suc 0 := r) = kv_two p r"
  "bits a b 0 = a" "bits a b (Suc 0) = b"
  "(bits a b)(0 := c) = bits c b" "(bits a b)(Suc 0 := c) = bits a c"
  by (auto simp: kv_two_def bits_def fun_eq_iff)

abbreviation two_state :: "kv_pc \<Rightarrow> kv_pc \<Rightarrow> bool \<Rightarrow> bool \<Rightarrow> bool \<Rightarrow> bool \<Rightarrow> nat option \<Rightarrow> kfile \<Rightarrow> (kv_op \<times> ret) list \<Rightarrow> kv_sys" where
  "two_state p q g0 g1 m0 m1 l f hs \<equiv>
     \<lparr>kv_pcs = kv_two p q, global_held = bits g0 g1, mutex_held = bits m0 m1, flock_held = l, shared = f, history = hs\<rparr>"

abbreviation two_step :: "kv_sys \<Rightarrow> kv_sys \<Rightarrow> bool" where
  "two_step \<equiv> kv_step 2 (\<lambda>i. i) (\<lambda>h. h)"

definition no_file :: kfile where
  "no_file = \<lparr>contents = [], pos = 0, bad = (\<lambda>_. False)\<rparr>"

lemma no_file_ok: "file_ok no_file"
  using empty_db_ok by (simp add: file_ok_def no_file_def db_ok_def empty_db_def)

lemma put_kv_args: "put_args_ok [107] [118]"
  by (simp add: put_args_ok_def strlen_def KVDB_MAX_KEY_def KVDB_MAX_VALUE_def)

lemma two_run:
  "\<exists>f. two_step\<^sup>*\<^sup>* (kv_start no_file)
     (two_state (Unlock_Mutex 0 (0, None)) (Working 1 put_kv) True True True True (Some 1) f [(put_kv, (0, None))])"
proof -
  obtain r f where pf: "put_file ideal_env no_file (put_record [107] [118]) [107] [118] = (r, f)" by (metis surj_pair)
  have "faultless ideal_env" by (simp add: faultless_def ideal_env_def allocs_def)
  then have "r = 0" using put_file_faultless [of no_file "[107]" "[118]" ideal_env] pf put_kv_args no_file_ok
    by (simp add: file_ok_def)
  with pf have w: "op_work put_kv no_file = ((0, None), f)" by simp
  have fl: "flock_ok ideal_env" by (simp add: ideal_env_def)
  have start: "kv_start no_file = two_state Idle Idle False False False False None no_file []"
    by (simp add: kv_start_def kv_two_def bits_def fun_eq_iff)
  let ?S = "\<lambda>p q g0 g1 m0 m1 l. two_state p q g0 g1 m0 m1 l no_file []"
  have "two_step (kv_start no_file) (?S (Want_Global 0 put_kv) Idle False False False False None)"
    unfolding start using call [of 0 2 "?S Idle Idle False False False False None" "\<lambda>h. h" 0 "\<lambda>i. i" put_kv] put_kv_args by simp
  moreover have "two_step (?S (Want_Global 0 put_kv) Idle False False False False None)
      (?S (Want_Mutex 0 put_kv) Idle True False False False None)"
    using lock_global [of 0 2 "?S (Want_Global 0 put_kv) Idle False False False False None" 0 put_kv "\<lambda>i. i"] by simp
  moreover have "two_step (?S (Want_Mutex 0 put_kv) Idle True False False False None)
      (?S (Want_Flock 0 put_kv) Idle True False True False None)"
    using lock_mutex [of 0 2 "?S (Want_Mutex 0 put_kv) Idle True False False False None" 0 put_kv] by simp
  moreover have "two_step (?S (Want_Flock 0 put_kv) Idle True False True False None)
      (?S (Working 0 put_kv) Idle True False True False (Some 0))"
    using flock_takes [of 0 2 "?S (Want_Flock 0 put_kv) Idle True False True False None" 0 put_kv] fl by simp
  moreover have "two_step (?S (Working 0 put_kv) Idle True False True False (Some 0))
      (?S (Working 0 put_kv) (Want_Global 1 put_kv) True False True False (Some 0))"
    using call [of 1 2 "?S (Working 0 put_kv) Idle True False True False (Some 0)" "\<lambda>h. h" 1 "\<lambda>i. i" put_kv] put_kv_args by simp
  moreover have "two_step (?S (Working 0 put_kv) (Want_Global 1 put_kv) True False True False (Some 0))
      (?S (Working 0 put_kv) (Want_Mutex 1 put_kv) True True True False (Some 0))"
    using lock_global [of 1 2 "?S (Working 0 put_kv) (Want_Global 1 put_kv) True False True False (Some 0)" 1 put_kv "\<lambda>i. i"] by simp
  moreover have "two_step (?S (Working 0 put_kv) (Want_Mutex 1 put_kv) True True True False (Some 0))
      (?S (Working 0 put_kv) (Want_Flock 1 put_kv) True True True True (Some 0))"
    using lock_mutex [of 1 2 "?S (Working 0 put_kv) (Want_Mutex 1 put_kv) True True True False (Some 0)" 1 put_kv] by simp
  moreover have "two_step (?S (Working 0 put_kv) (Want_Flock 1 put_kv) True True True True (Some 0))
      (two_state (Unlock_Flock 0 (0, None)) (Want_Flock 1 put_kv) True True True True (Some 0) f [(put_kv, (0, None))])"
    using work [of 0 2 "?S (Working 0 put_kv) (Want_Flock 1 put_kv) True True True True (Some 0)" 0 put_kv] w by simp
  moreover have "two_step (two_state (Unlock_Flock 0 (0, None)) (Want_Flock 1 put_kv) True True True True (Some 0) f [(put_kv, (0, None))])
      (two_state (Unlock_Mutex 0 (0, None)) (Want_Flock 1 put_kv) True True True True None f [(put_kv, (0, None))])"
    using unlock_flock [of 0 2 "two_state (Unlock_Flock 0 (0, None)) (Want_Flock 1 put_kv) True True True True (Some 0) f [(put_kv, (0, None))]" 0] by simp
  moreover have "two_step (two_state (Unlock_Mutex 0 (0, None)) (Want_Flock 1 put_kv) True True True True None f [(put_kv, (0, None))])
      (two_state (Unlock_Mutex 0 (0, None)) (Working 1 put_kv) True True True True (Some 1) f [(put_kv, (0, None))])"
    using flock_takes [of 1 2 "two_state (Unlock_Mutex 0 (0, None)) (Want_Flock 1 put_kv) True True True True None f [(put_kv, (0, None))]" 1 put_kv] fl by simp
  ultimately show ?thesis
    by (meson rtranclp.rtrancl_refl converse_rtranclp_into_rtranclp)
qed

subsection \<open>Properties\<close>

text \<open>
  C5: However the threads of several processes interleave, and wherever a process dies, at most one
  thread is working on the file, and the calls are linearizable: in the order in which they worked on
  the file, every get answers with the value of the last put for its key, and every put that
  returns 0 has stored its pair.
\<close>
theorem kvdb_linearizable:
  assumes "(kv_step N proc home)\<^sup>*\<^sup>* (kv_start f) s" "file_ok f"
  shows "(\<forall>i<N. \<forall>j<N. \<forall>g h c d. kv_pcs s i = Working g c \<longrightarrow> kv_pcs s j = Working h d \<longrightarrow> i = j) \<and>
    file_ok (shared s) \<and> explained (kv_map (contents f)) (history s) (kv_map (contents (shared s)))"
proof -
  have ok: "locks_ok N proc home s" "file_right N (kv_map (contents f)) s"
    using kv_reachable [OF assms] by simp_all
  have "i = j" if "i < N" "j < N" "kv_pcs s i = Working g c" "kv_pcs s j = Working h d" for i j g h c d
    using one_with_flock [OF ok(1) that(1,2), of g h] that(3,4) by simp
  with ok(2) show ?thesis by (auto simp: file_right_def)
qed

theorem kvdb_linearizable_witness:
  "\<exists>f. file_ok f \<and> explained (kv_map []) [(put_kv, (0, None))] (kv_map (contents f)) \<and>
     kv_map (contents f) = (kv_map [])([107] \<mapsto> [118])"
proof -
  obtain f where r: "two_step\<^sup>*\<^sup>* (kv_start no_file)
     (two_state (Unlock_Mutex 0 (0, None)) (Working 1 put_kv) True True True True (Some 1) f [(put_kv, (0, None))])"
    using two_run by blast
  from kvdb_linearizable [OF r no_file_ok]
  have "file_ok f" "explained (kv_map []) [(put_kv, (0, None))] (kv_map (contents f))"
    by (simp_all add: no_file_def)
  then show ?thesis by (auto simp: cstr_def strlen_def)
qed

text \<open>
  C6: The three locks never deadlock: from every state that threads and dying processes can reach, the
  calls in progress can all run to their end by steps that bring one of them nearer to it, without
  a new call and without another process dying.
\<close>
theorem kvdb_calls_finish:
  assumes "(kv_step N proc home)\<^sup>*\<^sup>* (kv_start f) s" "file_ok f"
  shows "\<exists>s'. (\<lambda>s s'. \<exists>i. nearer N proc home i s s')\<^sup>*\<^sup>* s s' \<and> (\<forall>i < N. handle_of (kv_pcs s' i) = None)"
  by (rule calls_end) (use kv_reachable [OF assms] in simp)

theorem kvdb_calls_finish_witness:
  "\<exists>f s'. (\<lambda>s s'. \<exists>i. nearer 2 (\<lambda>i. i) (\<lambda>h. h) i s s')\<^sup>*\<^sup>*
      (two_state (Unlock_Mutex 0 (0, None)) (Working 1 put_kv) True True True True (Some 1) f [(put_kv, (0, None))]) s' \<and>
    (\<forall>i < 2. handle_of (kv_pcs s' i) = None)"
  using two_run kvdb_calls_finish [OF _ no_file_ok] by blast

end
