(* ===== verification/Malloc.thy ===== *)
theory Malloc
  imports Prelude "HOL-Library.Monad_Syntax"
begin

text \<open>
  The allocator \<open>m5/mymalloc.c\<close> over an explicit memory.  Block headers live at 64-bit addresses
  and point to each other; an access to an address that holds no header, and a loop that does
  not end, are \<open>None\<close>.  \<open>vmalloc\<close>, which the library does not define, is an argument.
\<close>

record block_t =
  bsize :: u64
  bfree :: bool
  bprev :: u64
  bnext :: u64

record heap =
  mem :: "u64 \<rightharpoonup> block_t"
  heap_head :: u64
  malloc_count :: int
  heap_lock :: int

definition PAGE_SIZE :: u64 where "PAGE_SIZE = 4096"
definition CHUNK_SIZE :: u64 where "CHUNK_SIZE = 64 * 1024"
definition MIN_PAYLOAD :: u64 where "MIN_PAYLOAD = 8"
definition BLK :: u64 where "BLK = 32"

definition align_up :: "u64 \<Rightarrow> u64 \<Rightarrow> u64" where
  "align_up x align = (x + align - 1) AND NOT (align - 1)"

definition request_size :: "u64 \<Rightarrow> u64" where
  "request_size sz = align_up (if sz < MIN_PAYLOAD then MIN_PAYLOAD else sz) 8"

definition page_round :: "u64 \<Rightarrow> u64" where
  "page_round sz = align_up sz PAGE_SIZE"

definition block_end :: "u64 \<Rightarrow> block_t \<Rightarrow> u64" where
  "block_end a b = a + BLK + bsize b"

text \<open>\<open>upd h a g\<close>: a write to fields of the header at \<open>a\<close>.\<close>

definition upd :: "heap \<Rightarrow> u64 \<Rightarrow> (block_t \<Rightarrow> block_t) \<Rightarrow> heap option" where
  "upd h a g = do { b \<leftarrow> mem h a; Some (h\<lparr>mem := (mem h)(a \<mapsto> g b)\<rparr>) }"

partial_function (option) insert_pos :: "heap \<Rightarrow> u64 \<Rightarrow> u64 \<Rightarrow> u64 option" where
  "insert_pos h block cur = do {
     c \<leftarrow> mem h cur;
     if bnext c \<noteq> 0 \<and> bnext c < block then insert_pos h block (bnext c) else Some cur }"

definition insert_block :: "heap \<Rightarrow> u64 \<Rightarrow> heap option" where
  "insert_block h block =
     (if heap_head h = 0 \<or> block < heap_head h then do {
        h \<leftarrow> upd h block (\<lambda>b. b\<lparr>bprev := 0\<rparr>);
        h \<leftarrow> upd h block (\<lambda>b. b\<lparr>bnext := heap_head h\<rparr>);
        h \<leftarrow> (if heap_head h \<noteq> 0 then upd h (heap_head h) (\<lambda>b. b\<lparr>bprev := block\<rparr>) else Some h);
        Some (h\<lparr>heap_head := block\<rparr>) }
      else do {
        cur \<leftarrow> insert_pos h block (heap_head h);
        h \<leftarrow> upd h block (\<lambda>b. b\<lparr>bprev := cur\<rparr>);
        c \<leftarrow> mem h cur;
        h \<leftarrow> upd h block (\<lambda>b. b\<lparr>bnext := bnext c\<rparr>);
        h \<leftarrow> (if bnext c \<noteq> 0 then upd h (bnext c) (\<lambda>b. b\<lparr>bprev := block\<rparr>) else Some h);
        upd h cur (\<lambda>b. b\<lparr>bnext := block\<rparr>) })"

definition coalesce_with_next :: "heap \<Rightarrow> u64 \<Rightarrow> heap option" where
  "coalesce_with_next h block = do {
     b \<leftarrow> mem h block;
     if bnext b \<noteq> 0 \<and> bfree b then do {
       n \<leftarrow> mem h (bnext b);
       if bfree n \<and> block_end block b = bnext b then do {
         h \<leftarrow> upd h block (\<lambda>b. b\<lparr>bsize := bsize b + (BLK + bsize n)\<rparr>);
         h \<leftarrow> upd h block (\<lambda>b. b\<lparr>bnext := bnext n\<rparr>);
         (if bnext n \<noteq> 0 then upd h (bnext n) (\<lambda>x. x\<lparr>bprev := block\<rparr>) else Some h) }
       else Some h }
     else Some h }"

definition split_block :: "heap \<Rightarrow> u64 \<Rightarrow> u64 \<Rightarrow> heap option" where
  "split_block h block sz = do {
     b \<leftarrow> mem h block;
     if bsize b < sz + BLK + MIN_PAYLOAD then Some h
     else do {
       let rest = block + BLK + sz;
       let h = h\<lparr>mem := (mem h)(rest \<mapsto> \<lparr>bsize = bsize b - sz - BLK, bfree = True,
                    bprev = block, bnext = bnext b\<rparr>)\<rparr>;
       h \<leftarrow> (if bnext b \<noteq> 0 then upd h (bnext b) (\<lambda>x. x\<lparr>bprev := rest\<rparr>) else Some h);
       h \<leftarrow> upd h block (\<lambda>b. b\<lparr>bsize := sz\<rparr>);
       upd h block (\<lambda>b. b\<lparr>bnext := rest\<rparr>) } }"

partial_function (option) find_free_from :: "heap \<Rightarrow> u64 \<Rightarrow> u64 \<Rightarrow> u64 option" where
  "find_free_from h sz cur =
     (if cur = 0 then Some 0
      else do {
        c \<leftarrow> mem h cur;
        if bfree c \<and> sz \<le> bsize c then Some cur else find_free_from h sz (bnext c) })"

definition find_free_block :: "heap \<Rightarrow> u64 \<Rightarrow> u64 option" where
  "find_free_block h sz = find_free_from h sz (heap_head h)"

definition extend_bytes :: "u64 \<Rightarrow> u64" where
  "extend_bytes sz =
     (let bytes = page_round (BLK + sz) in if bytes < CHUNK_SIZE then CHUNK_SIZE else bytes)"

definition extend_heap :: "(u64 \<Rightarrow> u64) \<Rightarrow> heap \<Rightarrow> u64 \<Rightarrow> (heap \<times> u64) option" where
  "extend_heap vmalloc h sz =
     (let bytes = extend_bytes sz; block = vmalloc bytes in
      if block = 0 then Some (h, 0)
      else do {
        let h = h\<lparr>mem := (mem h)(block \<mapsto>
                  \<lparr>bsize = bytes - BLK, bfree = True, bprev = 0, bnext = 0\<rparr>)\<rparr>;
        h \<leftarrow> insert_block h block;
        b \<leftarrow> mem h block;
        (h, block) \<leftarrow>
          (if bprev b \<noteq> 0 then do {
             h \<leftarrow> coalesce_with_next h (bprev b);
             b \<leftarrow> mem h block;
             Some (h, bprev b) }
           else Some (h, block));
        h \<leftarrow> coalesce_with_next h block;
        Some (h, block) })"

text \<open>With no other thread running, \<open>spin_lock\<close> on a held lock spins for ever.\<close>

definition lock_heap :: "heap \<Rightarrow> heap option" where
  "lock_heap h = (if heap_lock h = 0 then Some (h\<lparr>heap_lock := 1\<rparr>) else None)"

definition unlock_heap :: "heap \<Rightarrow> heap" where
  "unlock_heap h = h\<lparr>heap_lock := 0\<rparr>"

definition mymalloc :: "(u64 \<Rightarrow> u64) \<Rightarrow> heap \<Rightarrow> u64 \<Rightarrow> (heap \<times> u64) option" where
  "mymalloc vmalloc h sz =
     (let sz = request_size sz in do {
        h \<leftarrow> lock_heap h;
        let h = h\<lparr>malloc_count := malloc_count h + 1\<rparr>;
        block \<leftarrow> find_free_block h sz;
        (h, block) \<leftarrow> (if block = 0 then extend_heap vmalloc h sz else Some (h, block));
        if block = 0 then Some (unlock_heap h, 0)
        else do {
          h \<leftarrow> split_block h block sz;
          h \<leftarrow> upd h block (\<lambda>b. b\<lparr>bfree := False\<rparr>);
          Some (unlock_heap h, block + BLK) } })"

definition myfree :: "heap \<Rightarrow> u64 \<Rightarrow> heap option" where
  "myfree h ptr =
     (if ptr = 0 then Some h
      else
        (let block = ptr - BLK in do {
           h \<leftarrow> lock_heap h;
           h \<leftarrow> upd h block (\<lambda>b. b\<lparr>bfree := True\<rparr>);
           h \<leftarrow> coalesce_with_next h block;
           b \<leftarrow> mem h block;
           h \<leftarrow> (if bprev b \<noteq> 0 then coalesce_with_next h (bprev b) else Some h);
           Some (unlock_heap h) }))"

end
