(* ===== verification/MallocList.thy ===== *)
theory MallocList
  imports Malloc
begin

text \<open>
  The block list of \<open>m5/mymalloc.c\<close>: a doubly linked list in memory is a HOL list of
  (address, size, free) triples laid out in increasing address order without overlap.  Each
  pointer routine of the allocator is shown to perform the corresponding list operation.
\<close>

type_synonym blk = "u64 \<times> u64 \<times> bool"

abbreviation addrs :: "blk list \<Rightarrow> u64 set" where
  "addrs xs \<equiv> fst ` set xs"

subsection \<open>Linked segments\<close>

text \<open>\<open>lseg m p q xs l e\<close>: from \<open>q\<close>, whose predecessor is \<open>p\<close>, the blocks \<open>xs\<close> lead to \<open>e\<close>, and \<open>l\<close>
  is the last of them (\<open>p\<close> if there is none).\<close>

fun lseg :: "(u64 \<rightharpoonup> block_t) \<Rightarrow> u64 \<Rightarrow> u64 \<Rightarrow> blk list \<Rightarrow> u64 \<Rightarrow> u64 \<Rightarrow> bool" where
  "lseg m p q [] l e \<longleftrightarrow> l = p \<and> q = e"
| "lseg m p q ((a, s, f) # xs) l e \<longleftrightarrow> q = a \<and> a \<noteq> 0 \<and>
     (\<exists>n. m a = Some \<lparr>bsize = s, bfree = f, bprev = p, bnext = n\<rparr> \<and> lseg m a n xs l e)"

lemma lseg_append:
  "lseg m p q (xs @ ys) l e \<longleftrightarrow> (\<exists>r t. lseg m p q xs r t \<and> lseg m r t ys l e)"
  by (induction m p q xs l e rule: lseg.induct) auto

lemma lseg_frame: "a \<notin> addrs xs \<Longrightarrow> lseg (m(a := v)) p q xs l e = lseg m p q xs l e"
  by (induction m p q xs l e rule: lseg.induct) auto

lemma lseg_last: "lseg m p q xs l e \<Longrightarrow> l = (if xs = [] then p else fst (last xs))"
  by (induction m p q xs l e rule: lseg.induct) auto

lemma lseg_nonzero: "lseg m p q xs l e \<Longrightarrow> a \<in> addrs xs \<Longrightarrow> a \<noteq> 0 \<and> m a \<noteq> None"
  by (induction m p q xs l e rule: lseg.induct) auto

definition link_prev :: "(u64 \<rightharpoonup> block_t) \<Rightarrow> u64 \<Rightarrow> u64 \<Rightarrow> (u64 \<rightharpoonup> block_t)" where
  "link_prev m c a = (if c = 0 then m else m(c \<mapsto> (the (m c))\<lparr>bprev := a\<rparr>))"

lemma link_prev_upd:
  "c = 0 \<or> mem h c \<noteq> None \<Longrightarrow>
    (if c \<noteq> 0 then upd h c (\<lambda>x. x\<lparr>bprev := a\<rparr>) else Some h) = Some (h\<lparr>mem := link_prev (mem h) c a\<rparr>)"
  by (auto simp: link_prev_def upd_def)

lemma link_prev_other: "b \<noteq> c \<Longrightarrow> link_prev m c a b = m b"
  by (simp add: link_prev_def)

lemma lseg_link_prev_frame: "c \<notin> addrs xs \<Longrightarrow> lseg (link_prev m c a) p q xs l e = lseg m p q xs l e"
  by (simp add: link_prev_def lseg_frame)

lemma lseg_link_prev:
  assumes "lseg m p q xs l 0" "distinct (map fst xs)"
  shows "\<exists>l'. lseg (link_prev m q a) a q xs l' 0"
proof (cases xs)
  case Nil
  with assms show ?thesis by (simp add: link_prev_def)
next
  case (Cons x ys)
  obtain c s f where "x = (c, s, f)" by (cases x)
  with Cons assms show ?thesis by (auto simp: link_prev_def lseg_frame)
qed

lemma lseg_head_dom: "lseg m p q xs l 0 \<Longrightarrow> q = 0 \<or> m q \<noteq> None"
  by (cases xs) auto

lemma lseg_set_next:
  assumes "lseg m p q (xs @ [(c, s, f)]) c e" "c \<notin> addrs xs"
  shows "lseg (m(c \<mapsto> (the (m c))\<lparr>bnext := r\<rparr>)) p q (xs @ [(c, s, f)]) c r"
  using assms by (auto simp: lseg_append lseg_frame)

subsection \<open>Layout\<close>

text \<open>Blocks are 8-aligned, lie above \<open>lo\<close>, do not overlap, and end below \<open>2 ^ 64\<close>.\<close>

fun layout :: "nat \<Rightarrow> blk list \<Rightarrow> bool" where
  "layout lo [] \<longleftrightarrow> lo < 2 ^ 64"
| "layout lo ((a, s, f) # xs) \<longleftrightarrow> lo \<le> unat a \<and> 8 dvd unat a \<and> 8 dvd unat s \<and>
     layout (unat a + 32 + unat s) xs"

fun endof :: "nat \<Rightarrow> blk list \<Rightarrow> nat" where
  "endof lo [] = lo"
| "endof lo ((a, s, f) # xs) = endof (unat a + 32 + unat s) xs"

lemma layout_le_endof: "layout lo xs \<Longrightarrow> lo \<le> endof lo xs \<and> endof lo xs < 2 ^ 64"
  by (induction lo xs rule: layout.induct) auto

lemma layout_append: "layout lo (xs @ ys) \<longleftrightarrow> layout lo xs \<and> layout (endof lo xs) ys"
proof (induction lo xs rule: layout.induct)
  case (1 lo)
  then show ?case using layout_le_endof [of lo ys] by auto
qed auto

lemma endof_append: "endof lo (xs @ ys) = endof (endof lo xs) ys"
  by (induction lo xs rule: endof.induct) auto

lemma layout_mono: "layout lo xs \<Longrightarrow> lo' \<le> lo \<Longrightarrow> layout lo' xs"
  by (cases xs) auto

lemma layout_in:
  "layout lo xs \<Longrightarrow> (a, s, f) \<in> set xs \<Longrightarrow>
    lo \<le> unat a \<and> unat a + 32 + unat s \<le> endof lo xs \<and> 8 dvd unat a \<and> 8 dvd unat s"
proof (induction lo xs rule: layout.induct)
  case (2 lo b t g xs)
  then show ?case
    using layout_le_endof [of "unat b + 32 + unat t" xs] by auto
qed simp

lemma layout_distinct: "layout lo xs \<Longrightarrow> distinct (map fst xs)"
proof (induction lo xs rule: layout.induct)
  case (2 lo b t g xs)
  then show ?case using layout_in [of "unat b + 32 + unat t" xs] by fastforce
qed simp

lemma addrs_iff: "a \<in> addrs xs \<longleftrightarrow> (\<exists>s f. (a, s, f) \<in> set xs)"
  by force

text \<open>Two different blocks of a layout are disjoint.\<close>

lemma layout_disjoint:
  assumes "layout lo xs" "(a, s, f) \<in> set xs" "(b, t, g) \<in> set xs" "a \<noteq> b"
  shows "unat a + 32 + unat s \<le> unat b \<or> unat b + 32 + unat t \<le> unat a"
  using assms
proof (induction lo xs rule: layout.induct)
  case (2 lo c u h xs)
  then show ?case using layout_in [of "unat c + 32 + unat u" xs] by fastforce
qed simp

text \<open>Around one block.\<close>

lemma layout_split_at:
  assumes "layout lo (pre @ (a, s, f) # post)"
  shows "a \<notin> addrs pre" "a \<notin> addrs post" "addrs pre \<inter> addrs post = {}"
    "endof lo pre \<le> unat a" "layout (unat a + 32 + unat s) post" "layout lo pre"
    "unat a + 32 + unat s < 2 ^ 64" "8 dvd unat a" "8 dvd unat s"
  using assms layout_distinct [OF assms] layout_le_endof [of "unat a + 32 + unat s" post]
  by (auto simp: layout_append)

lemma unat_plus_le:
  fixes a b :: u64
  assumes "unat a + unat b < 2 ^ 64"
  shows "unat (a + b) = unat a + unat b"
  using assms unat_plus_simple [of a b] no_olen_add_nat [of a b] by simp

lemma unat_BLK: "unat BLK = 32" "unat MIN_PAYLOAD = 8" "unat PAGE_SIZE = 4096"
  "unat CHUNK_SIZE = 65536"
  by (simp_all add: BLK_def MIN_PAYLOAD_def PAGE_SIZE_def CHUNK_SIZE_def)

lemma unat_block_end:
  fixes a s :: u64
  assumes "unat a + 32 + unat s < 2 ^ 64"
  shows "unat (a + BLK + s) = unat a + 32 + unat s"
  using assms by (simp add: unat_plus_le unat_BLK)

end
