(* ===== verification/MallocRefine.thy ===== *)
theory MallocRefine
  imports MallocList
begin

text \<open>
  The pointer routines of \<open>m5/mymalloc.c\<close> refine operations on the block list.  \<open>heap_rep h xs\<close>
  says that the heap holds exactly the blocks \<open>xs\<close>; for every routine there is a list operation
  and a lemma that the routine returns and leaves a heap for the operation's result.
\<close>

definition heap_rep :: "heap \<Rightarrow> blk list \<Rightarrow> bool" where
  "heap_rep h xs \<longleftrightarrow> (\<exists>l. lseg (mem h) 0 (heap_head h) xs l 0) \<and> layout 4096 xs"

definition same_rest :: "heap \<Rightarrow> heap \<Rightarrow> bool" where
  "same_rest h h' \<longleftrightarrow> malloc_count h' = malloc_count h \<and> heap_lock h' = heap_lock h"

lemma same_rest_simps [simp]:
  "same_rest h h"
  "same_rest h (h\<lparr>mem := m\<rparr>)"
  "same_rest h (h\<lparr>heap_head := p\<rparr>)"
  "same_rest h h' \<Longrightarrow> same_rest h (h'\<lparr>mem := m\<rparr>)"
  "same_rest h h' \<Longrightarrow> same_rest h (h'\<lparr>heap_head := p\<rparr>)"
  by (simp_all add: same_rest_def)

lemma heap_rep_cong [simp]:
  "heap_rep (h\<lparr>heap_lock := k\<rparr>) xs = heap_rep h xs"
  "heap_rep (h\<lparr>malloc_count := n\<rparr>) xs = heap_rep h xs"
  by (simp_all add: heap_rep_def)

subsection \<open>List operations\<close>

definition merge_next :: "blk \<Rightarrow> blk list \<Rightarrow> blk list" where
  "merge_next x xs =
     (case (x, xs) of
        ((a, s, True), (c, t, True) # ys) \<Rightarrow>
          if a + BLK + s = c then (a, s + (BLK + t), True) # ys else x # xs
      | _ \<Rightarrow> x # xs)"

definition split_at :: "u64 \<Rightarrow> blk \<Rightarrow> blk list \<Rightarrow> blk list" where
  "split_at sz x xs =
     (case x of (a, s, f) \<Rightarrow>
        if unat s < unat sz + 40 then x # xs
        else (a, sz, f) # (a + BLK + sz, s - sz - BLK, True) # xs)"

definition first_fit :: "u64 \<Rightarrow> blk list \<Rightarrow> blk option" where
  "first_fit sz xs = find (\<lambda>(a, s, f). f \<and> sz \<le> s) xs"

definition insert_sorted :: "blk \<Rightarrow> blk list \<Rightarrow> blk list" where
  "insert_sorted x xs =
     takeWhile (\<lambda>b. fst b < fst x) xs @ x # dropWhile (\<lambda>b. fst b < fst x) xs"

subsection \<open>Reading a block\<close>

lemma heap_rep_block:
  assumes "heap_rep h (pre @ (a, s, f) # post)"
  shows "mem h a = Some \<lparr>bsize = s, bfree = f,
      bprev = (if pre = [] then 0 else fst (last pre)),
      bnext = (if post = [] then 0 else fst (hd post))\<rparr>" "a \<noteq> 0"
proof -
  obtain l r n where "lseg (mem h) 0 (heap_head h) pre r a" "a \<noteq> 0"
    "mem h a = Some \<lparr>bsize = s, bfree = f, bprev = r, bnext = n\<rparr>" "lseg (mem h) a n post l 0"
    using assms by (auto simp: heap_rep_def lseg_append)
  moreover have "n = (if post = [] then 0 else fst (hd post))"
    using \<open>lseg (mem h) a n post l 0\<close> by (cases post) auto
  ultimately show "mem h a = Some \<lparr>bsize = s, bfree = f,
      bprev = (if pre = [] then 0 else fst (last pre)),
      bnext = (if post = [] then 0 else fst (hd post))\<rparr>" "a \<noteq> 0"
    using lseg_last by auto
qed

lemma heap_rep_at:
  assumes "heap_rep h (pre @ (a, s, f) # post)"
  obtains r n l where "lseg (mem h) 0 (heap_head h) pre r a" "a \<noteq> 0"
    "mem h a = Some \<lparr>bsize = s, bfree = f, bprev = r, bnext = n\<rparr>"
    "lseg (mem h) a n post l 0" "n = 0 \<or> n \<in> addrs post" "n = 0 \<or> mem h n \<noteq> None"
proof -
  obtain r n l where *: "lseg (mem h) 0 (heap_head h) pre r a" "a \<noteq> 0"
    "mem h a = Some \<lparr>bsize = s, bfree = f, bprev = r, bnext = n\<rparr>" "lseg (mem h) a n post l 0"
    using assms by (auto simp: heap_rep_def lseg_append)
  moreover have "n = 0 \<or> n \<in> addrs post" using *(4) by (cases post) auto
  moreover have "n = 0 \<or> mem h n \<noteq> None" using lseg_head_dom [OF *(4)] .
  ultimately show thesis by (rule that)
qed

text \<open>Replacing the blocks from \<open>a\<close> on, the shape of all in-place updates.\<close>

lemma heap_rep_replace:
  assumes "lseg (mem h) 0 (heap_head h) pre r a"
    and "lseg m r a new l e" "lseg m l e zs l' 0"
    and "\<And>x. x \<in> addrs pre \<Longrightarrow> m x = mem h x"
    and "layout 4096 (pre @ new @ zs)"
  shows "heap_rep (h\<lparr>mem := m\<rparr>) (pre @ new @ zs)"
proof -
  have "lseg m p q ys l e = lseg (mem h) p q ys l e"
    if "\<And>x. x \<in> addrs ys \<Longrightarrow> m x = mem h x" for p q ys l e
    using that by (induction "mem h" p q ys l e rule: lseg.induct) auto
  from this [OF assms(4)] assms(1) have "lseg m 0 (heap_head h) pre r a" by simp
  then show ?thesis
    using assms(2,3,5) unfolding heap_rep_def lseg_append by simp blast
qed

subsection \<open>coalesce_with_next\<close>

lemma merge_next_cases:
  obtains (stay) "merge_next (a, s, f) post = (a, s, f) # post"
      "\<And>c t g ys. post = (c, t, g) # ys \<Longrightarrow> \<not> (f \<and> g \<and> a + BLK + s = c)"
  | (merge) c t ys where "post = (c, t, True) # ys" "f" "a + BLK + s = c"
      "merge_next (a, s, f) post = (a, s + (BLK + t), True) # ys"
  by (cases post; cases f; cases "snd (snd (hd post))"; cases "a + BLK + s = fst (hd post)")
    (auto simp: merge_next_def)

lemma coalesce_rep:
  assumes "heap_rep h (pre @ (a, s, f) # post)"
  shows "\<exists>h'. coalesce_with_next h a = Some h' \<and> same_rest h h' \<and>
    heap_rep h' (pre @ merge_next (a, s, f) post)"
proof (cases rule: merge_next_cases [of a s f post])
  case stay
  obtain r n l where a: "mem h a = Some \<lparr>bsize = s, bfree = f, bprev = r, bnext = n\<rparr>"
    "lseg (mem h) a n post l 0"
    using heap_rep_at [OF assms] by metis
  have "coalesce_with_next h a = Some h"
  proof (cases post)
    case Nil
    with a show ?thesis by (simp add: coalesce_with_next_def)
  next
    case (Cons x ys)
    obtain c t g where x: "x = (c, t, g)" by (cases x)
    with a Cons stay(2) [of c t g ys] show ?thesis
      by (auto simp: coalesce_with_next_def block_end_def)
  qed
  with assms stay(1) show ?thesis by auto
next
  case (merge c t ys)
  obtain r where a: "lseg (mem h) 0 (heap_head h) pre r a" "a \<noteq> 0"
    "mem h a = Some \<lparr>bsize = s, bfree = f, bprev = r, bnext = c\<rparr>"
    using heap_rep_at [OF assms] merge(1) by auto
  have "heap_rep h ((pre @ [(a, s, f)]) @ (c, t, True) # ys)" using assms merge by simp
  from heap_rep_at [OF this] obtain e l q where c: "c \<noteq> 0"
    "mem h c = Some \<lparr>bsize = t, bfree = True, bprev = q, bnext = e\<rparr>"
    "lseg (mem h) c e ys l 0" "e = 0 \<or> e \<in> addrs ys" "e = 0 \<or> mem h e \<noteq> None"
    by metis
  have lay: "layout 4096 (pre @ (a, s, f) # (c, t, True) # ys)"
    using assms merge by (simp add: heap_rep_def)
  note la = layout_split_at [OF lay]
  have "layout 4096 ((pre @ [(a, s, f)]) @ (c, t, True) # ys)" using lay by simp
  note lc = layout_split_at [OF this]
  have ea: "e \<noteq> a" using c(4) la(2) a(2) by auto
  have epre: "x \<noteq> a \<and> x \<noteq> e" if "x \<in> addrs pre" for x
    using that la(1) lc(3) c(4) lseg_nonzero [OF a(1)] by auto
  let ?m1 = "(mem h)(a \<mapsto> \<lparr>bsize = s + (BLK + t), bfree = True, bprev = r, bnext = e\<rparr>)"
  let ?m2 = "link_prev ?m1 e a"
  have run: "coalesce_with_next h a = Some (h\<lparr>mem := ?m2\<rparr>)"
    using a c(1,2,5) merge link_prev_upd [of e "h\<lparr>mem := ?m1\<rparr>" a]
    by (auto simp: coalesce_with_next_def block_end_def upd_def)
  have "lseg ?m1 c e ys l 0" using c(3) la(2) by (simp add: lseg_frame)
  then obtain l' where seg2: "lseg ?m2 a e ys l' 0"
    using lseg_link_prev layout_distinct [OF lc(5)] by blast
  have node: "lseg ?m2 r a [(a, s + (BLK + t), True)] a e"
    using a(2) ea by (simp add: link_prev_other)
  have uc: "unat c = unat a + 32 + unat s"
    using merge(3) unat_block_end la(7) by blast
  have "unat (BLK + t) = 32 + unat t" using lc(7) uc by (simp add: unat_plus_le unat_BLK)
  then have sz: "unat (s + (BLK + t)) = unat s + 32 + unat t"
    using lc(7) uc by (simp add: unat_plus_le)
  have e: "unat a + 32 + unat (s + (BLK + t)) = unat c + 32 + unat t" using sz uc by linarith
  have "8 dvd unat (s + (BLK + t))" unfolding sz using la(9) lc(9) by simp
  then have "layout 4096 (pre @ [(a, s + (BLK + t), True)] @ ys)"
    using la(4,6,8) lc(5) by (simp only: layout_append layout.simps append_Cons append_Nil e)
  then have "heap_rep (h\<lparr>mem := ?m2\<rparr>) (pre @ [(a, s + (BLK + t), True)] @ ys)"
    using heap_rep_replace [OF a(1) node seg2] epre by (simp add: link_prev_other)
  then show ?thesis using run merge by simp
qed

subsection \<open>split_block and the free flag\<close>

lemma split_rep:
  assumes "heap_rep h (pre @ (a, s, f) # post)" "8 dvd unat sz" "unat sz + 40 < 2 ^ 64"
  shows "\<exists>h'. split_block h a sz = Some h' \<and> same_rest h h' \<and>
    heap_rep h' (pre @ split_at sz (a, s, f) post)"
proof -
  obtain r n l where a: "lseg (mem h) 0 (heap_head h) pre r a" "a \<noteq> 0"
    "mem h a = Some \<lparr>bsize = s, bfree = f, bprev = r, bnext = n\<rparr>"
    "lseg (mem h) a n post l 0" "n = 0 \<or> n \<in> addrs post" "n = 0 \<or> mem h n \<noteq> None"
    using heap_rep_at [OF assms(1)] by metis
  have lay: "layout 4096 (pre @ (a, s, f) # post)" using assms by (simp add: heap_rep_def)
  note la = layout_split_at [OF lay]
  have u40: "unat (sz + BLK + MIN_PAYLOAD) = unat sz + 40"
    using assms(3) by (simp add: unat_plus_le unat_BLK)
  show ?thesis
  proof (cases "unat s < unat sz + 40")
    case True
    then have "s < sz + BLK + MIN_PAYLOAD" by (simp only: word_less_nat_alt u40)
    with True assms(1) a(3) show ?thesis by (simp add: split_block_def split_at_def)
  next
    case False
    then have no: "\<not> s < sz + BLK + MIN_PAYLOAD" unfolding word_less_nat_alt u40 .
    let ?b = "a + BLK + sz" and ?t = "s - sz - BLK"
    have ub: "unat ?b = unat a + 32 + unat sz" using False la(7) by (simp add: unat_block_end)
    have ut: "unat ?t = unat s - unat sz - 32"
    proof -
      have "unat (s - sz) = unat s - unat sz" using False by (simp add: unat_sub_if')
      then show ?thesis using False by (simp add: unat_sub_if' unat_BLK)
    qed
    have end_eq: "unat ?b + 32 + unat ?t = unat a + 32 + unat s"
      using False ub ut by simp
    have bpost: "?b \<notin> addrs post"
      using layout_in [OF la(5)] ub False by (force simp: addrs_iff)
    have bpre: "?b \<notin> addrs pre"
      using layout_in [OF la(6)] la(4) ub by (force simp: addrs_iff)
    have "unat ?b \<noteq> unat a" "unat ?b \<noteq> unat (0 :: u64)" using ub by simp_all
    then have ba: "?b \<noteq> a" and b0: "?b \<noteq> 0" by metis+
    have npre: "x \<noteq> a \<and> x \<noteq> n \<and> x \<noteq> ?b" if "x \<in> addrs pre" for x
      using that la(1,3) a(5) bpre lseg_nonzero [OF a(1) that] by blast
    have na: "n \<noteq> a" "n \<noteq> ?b" using a(2,5) la(2) bpost b0 by auto
    let ?m1 = "(mem h)(?b \<mapsto> \<lparr>bsize = ?t, bfree = True, bprev = a, bnext = n\<rparr>)"
    let ?m2 = "link_prev ?m1 n ?b"
    let ?m3 = "?m2(a \<mapsto> \<lparr>bsize = sz, bfree = f, bprev = r, bnext = ?b\<rparr>)"
    have n1: "n = 0 \<or> ?m1 n \<noteq> None" using a(6) by auto
    have m2a: "?m2 a = mem h a" using na ba by (simp add: link_prev_other)
    have run: "split_block h a sz = Some (h\<lparr>mem := ?m3\<rparr>)"
    proof -
      have "(if n \<noteq> 0 then upd (h\<lparr>mem := ?m1\<rparr>) n (\<lambda>x. x\<lparr>bprev := ?b\<rparr>) else Some (h\<lparr>mem := ?m1\<rparr>)) =
          Some (h\<lparr>mem := ?m2\<rparr>)"
        using link_prev_upd [of n "h\<lparr>mem := ?m1\<rparr>" ?b] n1 by simp
      then have "split_block h a sz = Option.bind (Some (h\<lparr>mem := ?m2\<rparr>)) (\<lambda>h.
          Option.bind (upd h a (\<lambda>b. b\<lparr>bsize := sz\<rparr>)) (\<lambda>h. upd h a (\<lambda>b. b\<lparr>bnext := ?b\<rparr>)))"
        by (simp only: split_block_def a(3) no Let_def if_False Option.bind_lunit block_t.simps)
      then show ?thesis by (simp add: upd_def m2a a(3))
    qed
    have "lseg ?m1 a n post l 0" using a(4) bpost by (simp add: lseg_frame)
    then obtain l' where "lseg ?m2 ?b n post l' 0"
      using lseg_link_prev layout_distinct [OF la(5)] by blast
    then have seg: "lseg ?m3 ?b n post l' 0" using la(2) by (simp add: lseg_frame)
    have node: "lseg ?m3 r a [(a, sz, f), (?b, ?t, True)] ?b n"
      using a(2) b0 ba na by (simp add: link_prev_other)
    have "8 dvd unat ?b" "8 dvd unat ?t"
      using la(8,9) assms(2) False unfolding ub ut by (auto intro!: dvd_add dvd_diff_nat)
    moreover have "unat a + 32 + unat sz \<le> unat ?b" using ub by simp
    ultimately have "layout 4096 (pre @ [(a, sz, f), (?b, ?t, True)] @ post)"
      using la(4-6,8) assms(2)
      by (simp only: layout_append layout.simps append_Cons append_Nil end_eq)
    then have "heap_rep (h\<lparr>mem := ?m3\<rparr>) (pre @ [(a, sz, f), (?b, ?t, True)] @ post)"
      using heap_rep_replace [OF a(1) node seg] npre by (simp add: link_prev_other)
    then show ?thesis using run False by (simp add: split_at_def)
  qed
qed

lemma set_free_rep:
  assumes "heap_rep h (pre @ (a, s, f) # post)"
  shows "\<exists>h'. upd h a (\<lambda>b. b\<lparr>bfree := g\<rparr>) = Some h' \<and> same_rest h h' \<and>
    heap_rep h' (pre @ (a, s, g) # post)"
proof -
  obtain r n l where a: "lseg (mem h) 0 (heap_head h) pre r a" "a \<noteq> 0"
    "mem h a = Some \<lparr>bsize = s, bfree = f, bprev = r, bnext = n\<rparr>" "lseg (mem h) a n post l 0"
    using heap_rep_at [OF assms] by metis
  have lay: "layout 4096 (pre @ (a, s, f) # post)" using assms by (simp add: heap_rep_def)
  note la = layout_split_at [OF lay]
  let ?m = "(mem h)(a \<mapsto> \<lparr>bsize = s, bfree = g, bprev = r, bnext = n\<rparr>)"
  have "lseg ?m r a [(a, s, g)] a n" "lseg ?m a n post l 0"
    using a la(2) by (simp_all add: lseg_frame)
  moreover have "?m x = mem h x" if "x \<in> addrs pre" for x using that la(1) by auto
  moreover have "layout 4096 (pre @ [(a, s, g)] @ post)" using lay by (simp add: layout_append)
  ultimately have "heap_rep (h\<lparr>mem := ?m\<rparr>) (pre @ [(a, s, g)] @ post)"
    by (rule heap_rep_replace [OF a(1)])
  then show ?thesis using a(3) by (simp add: upd_def)
qed

subsection \<open>find_free_block\<close>

lemma find_free_from_rep:
  "lseg (mem h) p q xs l 0 \<Longrightarrow>
    find_free_from h sz q = Some (case first_fit sz xs of None \<Rightarrow> 0 | Some (a, s, f) \<Rightarrow> a)"
proof (induction "mem h" p q xs l "0 :: u64" rule: lseg.induct)
  case (1 p q l)
  then show ?case by (simp add: first_fit_def find_free_from.simps [of h sz 0])
next
  case (2 p q a s f xs l)
  then obtain n where "mem h a = Some \<lparr>bsize = s, bfree = f, bprev = p, bnext = n\<rparr>" "a \<noteq> 0"
    "q = a" "lseg (mem h) a n xs l 0" by auto
  with "2.hyps" show ?case by (simp add: first_fit_def find_free_from.simps [of h sz a])
qed

lemma find_free_rep:
  assumes "heap_rep h xs"
  shows "find_free_block h sz = Some (case first_fit sz xs of None \<Rightarrow> 0 | Some (a, s, f) \<Rightarrow> a)"
  using assms find_free_from_rep by (auto simp: heap_rep_def find_free_block_def)

lemma first_fit_Some:
  assumes "first_fit sz xs = Some (a, s, f)"
  obtains pre post where "xs = pre @ (a, s, True) # post" "f" "sz \<le> s"
proof -
  from assms obtain i where i: "i < length xs" "xs ! i = (a, s, f)" "f" "sz \<le> s"
    by (auto simp: first_fit_def find_Some_iff)
  then have "xs = take i xs @ (a, s, True) # drop (Suc i) xs"
    using id_take_nth_drop [OF i(1)] by simp
  with i show thesis by (intro that) auto
qed

lemma first_fit_None:
  "first_fit sz xs = None \<longleftrightarrow> (\<forall>(a, s, f) \<in> set xs. f \<longrightarrow> s < sz)"
  by (auto simp: first_fit_def find_None_iff not_le)

subsection \<open>insert_block\<close>

lemma insert_pos_rep:
  "lseg (mem h) p a ((a, s, f) # pre) l e \<Longrightarrow> \<forall>x \<in> addrs pre. x < r \<Longrightarrow> e = 0 \<or> \<not> e < r \<Longrightarrow>
    insert_pos h r a = Some l"
proof (induction pre arbitrary: p a s f)
  case Nil
  then show ?case by (auto simp: insert_pos.simps [of h r a])
next
  case (Cons x pre)
  obtain b t g where "x = (b, t, g)" by (cases x)
  with Cons show ?case by (auto simp: insert_pos.simps [of h r a])
qed

text \<open>A region \<open>[r, r + n)\<close> that meets none of the blocks.\<close>

definition fresh_region :: "u64 \<Rightarrow> nat \<Rightarrow> blk list \<Rightarrow> bool" where
  "fresh_region r n xs \<longleftrightarrow> 4096 \<le> unat r \<and> unat r + n < 2 ^ 64 \<and> 8 dvd unat r \<and>
     (\<forall>(a, s, f) \<in> set xs. unat r + n \<le> unat a \<or> unat a + 32 + unat s \<le> unat r)"

lemma layout_insert_sorted:
  assumes "layout lo xs" "lo \<le> unat r" "unat r + 32 + unat s < 2 ^ 64" "8 dvd unat r" "8 dvd unat s"
    "\<forall>(a, t, f) \<in> set xs. unat r + 32 + unat s \<le> unat a \<or> unat a + 32 + unat t \<le> unat r"
  shows "layout lo (insert_sorted (r, s, g) xs)"
  using assms
proof (induction lo xs rule: layout.induct)
  case (1 lo)
  then show ?case by (simp add: insert_sorted_def)
next
  case (2 lo a t f xs)
  show ?case
  proof (cases "a < r")
    case True
    then have "unat a + 32 + unat t \<le> unat r"
      using "2.prems"(6) by (auto simp: word_less_nat_alt)
    with True "2" show ?thesis by (simp add: insert_sorted_def)
  next
    case False
    then have "unat r + 32 + unat s \<le> unat a"
      using "2.prems"(6) by (auto simp: word_less_nat_alt)
    with False "2.prems" show ?thesis by (simp add: insert_sorted_def)
  qed
qed

lemma fresh_region_notin: "fresh_region r n xs \<Longrightarrow> 0 < n \<Longrightarrow> r \<notin> addrs xs"
  by (force simp: fresh_region_def)

lemma insert_front_rep:
  assumes rep: "heap_rep h xs" and r: "mem h r = Some \<lparr>bsize = s, bfree = g, bprev = p, bnext = q\<rparr>"
    and "r \<noteq> 0" "r \<notin> addrs xs" "heap_head h = 0 \<or> r < heap_head h" "layout 4096 ((r, s, g) # xs)"
  shows "\<exists>h'. insert_block h r = Some h' \<and> same_rest h h' \<and> heap_rep h' ((r, s, g) # xs)"
proof -
  obtain l where seg: "lseg (mem h) 0 (heap_head h) xs l 0" using rep by (auto simp: heap_rep_def)
  let ?n = "heap_head h"
  let ?m1 = "(mem h)(r \<mapsto> \<lparr>bsize = s, bfree = g, bprev = 0, bnext = ?n\<rparr>)"
  let ?m2 = "link_prev ?m1 ?n r"
  have nr: "?n \<noteq> r" using seg assms(3,4) by (cases xs) auto
  have seg1: "lseg ?m1 0 ?n xs l 0" using seg assms(4) by (simp add: lseg_frame)
  have run: "insert_block h r = Some (h\<lparr>mem := ?m2, heap_head := r\<rparr>)"
    using link_prev_upd [of ?n "h\<lparr>mem := ?m1\<rparr>" r] lseg_head_dom [OF seg1] assms(5)
    by (simp add: insert_block_def upd_def r) (auto simp: upd_def)
  obtain l' where "lseg ?m2 r ?n xs l' 0"
    using lseg_link_prev [OF seg1] layout_distinct assms(6) by fastforce
  then have "lseg ?m2 0 r ((r, s, g) # xs) l' 0"
    using assms(3) nr by (simp add: link_prev_other)
  then show ?thesis using run assms(6) by (auto simp: heap_rep_def)
qed

lemma insert_after_rep:
  assumes rep: "heap_rep h (pre @ (c, t, u) # post)"
    and r: "mem h r = Some \<lparr>bsize = s, bfree = g, bprev = p, bnext = q\<rparr>"
    and "r \<noteq> 0" "r \<notin> addrs (pre @ (c, t, u) # post)"
    and "\<forall>x \<in> addrs (pre @ [(c, t, u)]). x < r" "\<forall>x \<in> addrs post. \<not> x < r"
    and lay: "layout 4096 (pre @ (c, t, u) # (r, s, g) # post)"
  shows "\<exists>h'. insert_block h r = Some h' \<and> same_rest h h' \<and>
    heap_rep h' (pre @ (c, t, u) # (r, s, g) # post)"
proof -
  obtain k n l where c: "lseg (mem h) 0 (heap_head h) pre k c" "c \<noteq> 0"
    "mem h c = Some \<lparr>bsize = t, bfree = u, bprev = k, bnext = n\<rparr>"
    "lseg (mem h) c n post l 0" "n = 0 \<or> n \<in> addrs post" "n = 0 \<or> mem h n \<noteq> None"
    using heap_rep_at [OF rep] by metis
  have "layout 4096 (pre @ (c, t, u) # post)" using rep by (simp add: heap_rep_def)
  note lc = layout_split_at [OF this]
  have head: "\<not> (heap_head h = 0 \<or> r < heap_head h)"
  proof (cases pre)
    case Nil
    with c(1,2) assms(5) show ?thesis by (auto simp: not_less_iff_gr_or_eq)
  next
    case (Cons x ys)
    with c(1) assms(5) show ?thesis by (cases x) (auto simp: not_less_iff_gr_or_eq)
  qed
  have pos: "insert_pos h r (heap_head h) = Some c"
  proof -
    have "lseg (mem h) 0 (heap_head h) (pre @ [(c, t, u)]) c n"
      using c(1-3) by (auto simp: lseg_append)
    moreover have "n = 0 \<or> \<not> n < r" using c(5) assms(6) by blast
    ultimately show ?thesis
      using insert_pos_rep [of h 0 "heap_head h"] assms(5)
      by (cases "pre @ [(c, t, u)]") auto
  qed
  have rc: "r \<noteq> c" "n \<noteq> c" "n \<noteq> r" "r \<notin> addrs pre" "r \<notin> addrs post"
    using assms(3,4) c(2,5) lc(2) by auto
  have npre: "x \<noteq> c \<and> x \<noteq> n \<and> x \<noteq> r" if "x \<in> addrs pre" for x
    using that lc(1,3) c(5) rc(4) lseg_nonzero [OF c(1) that] by blast
  let ?m1 = "(mem h)(r \<mapsto> \<lparr>bsize = s, bfree = g, bprev = c, bnext = n\<rparr>)"
  let ?m2 = "link_prev ?m1 n r"
  let ?m3 = "?m2(c \<mapsto> \<lparr>bsize = t, bfree = u, bprev = k, bnext = r\<rparr>)"
  have m2c: "?m2 c = mem h c" using rc by (simp add: link_prev_other)
  have run: "insert_block h r = Some (h\<lparr>mem := ?m3\<rparr>)"
  proof -
    have link: "(if n \<noteq> 0 then upd (h\<lparr>mem := ?m1\<rparr>) n (\<lambda>x. x\<lparr>bprev := r\<rparr>) else Some (h\<lparr>mem := ?m1\<rparr>)) =
        Some (h\<lparr>mem := ?m2\<rparr>)"
      using link_prev_upd [of n "h\<lparr>mem := ?m1\<rparr>" r] c(6) by auto
    have u1: "upd h r (\<lambda>b. b\<lparr>bprev := c\<rparr>) =
        Some (h\<lparr>mem := (mem h)(r \<mapsto> \<lparr>bsize = s, bfree = g, bprev = c, bnext = q\<rparr>)\<rparr>)"
      by (simp add: upd_def r)
    have u2: "upd (h\<lparr>mem := (mem h)(r \<mapsto> \<lparr>bsize = s, bfree = g, bprev = c, bnext = q\<rparr>)\<rparr>) r
        (\<lambda>b. b\<lparr>bnext := n\<rparr>) = Some (h\<lparr>mem := ?m1\<rparr>)"
      by (simp add: upd_def)
    have mc: "mem (h\<lparr>mem := (mem h)(r \<mapsto> \<lparr>bsize = s, bfree = g, bprev = c, bnext = q\<rparr>)\<rparr>) c =
        Some \<lparr>bsize = t, bfree = u, bprev = k, bnext = n\<rparr>"
      using rc c(3) by simp
    have "insert_block h r = upd (h\<lparr>mem := ?m2\<rparr>) c (\<lambda>b. b\<lparr>bnext := r\<rparr>)"
      by (simp only: insert_block_def head if_False pos u1 mc u2 link Option.bind_lunit block_t.simps)
    then show ?thesis by (simp add: upd_def m2c c(3))
  qed
  have "lseg ?m1 c n post l 0" using c(4) rc by (simp add: lseg_frame)
  then obtain l' where "lseg ?m2 r n post l' 0"
    using lseg_link_prev layout_distinct [OF lc(5)] by blast
  then have seg: "lseg ?m3 r n post l' 0" using lc(2) by (simp add: lseg_frame)
  have node: "lseg ?m3 k c [(c, t, u), (r, s, g)] r n"
    using c(2) assms(3) rc by (simp add: link_prev_other)
  have "heap_rep (h\<lparr>mem := ?m3\<rparr>) (pre @ [(c, t, u), (r, s, g)] @ post)"
    using heap_rep_replace [OF c(1) node seg] npre lay by (simp add: link_prev_other)
  then show ?thesis using run by simp
qed

lemma insert_rep:
  assumes "heap_rep h xs" "mem h r = Some \<lparr>bsize = s, bfree = g, bprev = p, bnext = q\<rparr>"
    and "fresh_region r (32 + unat s) xs" "8 dvd unat s"
  shows "\<exists>h'. insert_block h r = Some h' \<and> same_rest h h' \<and>
    heap_rep h' (insert_sorted (r, s, g) xs)"
proof -
  have f: "r \<notin> addrs xs" "r \<noteq> 0" "4096 \<le> unat r" "unat r + 32 + unat s < 2 ^ 64" "8 dvd unat r"
    using fresh_region_notin [OF assms(3)] assms(3) by (auto simp: fresh_region_def)
  have lay: "layout 4096 (insert_sorted (r, s, g) xs)"
    using assms(1,3,4) f by (intro layout_insert_sorted) (auto simp: heap_rep_def fresh_region_def)
  let ?pre = "takeWhile (\<lambda>b. fst b < r) xs" and ?post = "dropWhile (\<lambda>b. fst b < r) xs"
  have xs: "xs = ?pre @ ?post" by simp
  obtain l where seg: "lseg (mem h) 0 (heap_head h) xs l 0" using assms(1) by (auto simp: heap_rep_def)
  show ?thesis
  proof (cases "?pre = []")
    case True
    have "xs = ?post"
      using True takeWhile_dropWhile_id [of "\<lambda>b. fst b < r" xs] by (metis append_Nil)
    have "heap_head h = 0 \<or> r < heap_head h"
    proof (cases xs)
      case Nil
      with seg show ?thesis by simp
    next
      case (Cons x ys)
      with True seg f(1) show ?thesis by (cases x) (auto split: if_splits)
    qed
    moreover have "insert_sorted (r, s, g) xs = (r, s, g) # xs"
      using True \<open>xs = ?post\<close> by (simp add: insert_sorted_def)
    ultimately show ?thesis
      using insert_front_rep [OF assms(1,2) f(2,1)] lay by simp
  next
    case False
    then obtain pre c t u where pre: "?pre = pre @ [(c, t, u)]"
      by (metis append_butlast_last_id prod.exhaust_sel)
    have eq: "xs = pre @ (c, t, u) # ?post" using xs pre by (metis append.assoc append_Cons append_Nil)
    have below: "\<forall>x \<in> addrs (pre @ [(c, t, u)]). x < r"
      using set_takeWhileD [of _ "\<lambda>b. fst b < r" xs] unfolding pre [symmetric] by blast
    have sorted: "layout 4096 xs" using assms(1) by (simp add: heap_rep_def)
    have above: "\<forall>x \<in> addrs ?post. \<not> x < r"
    proof (cases ?post)
      case (Cons y ys)
      obtain a v w where y: "y = (a, v, w)" by (cases y)
      have "\<not> a < r" using hd_dropWhile [of "\<lambda>b. fst b < r" xs] Cons y by auto
      moreover have "layout (unat a + 32 + unat v) ys"
        using sorted xs Cons y by (metis layout_append layout.simps(2))
      ultimately show ?thesis
        using Cons y layout_in [of "unat a + 32 + unat v" ys]
        by (force simp: word_less_nat_alt)
    next
      case Nil
      show ?thesis unfolding Nil by simp
    qed
    have ins: "insert_sorted (r, s, g) xs = pre @ (c, t, u) # (r, s, g) # ?post"
      using pre by (simp add: insert_sorted_def)
    have "heap_rep h (pre @ (c, t, u) # ?post)" "r \<notin> addrs (pre @ (c, t, u) # ?post)"
      by (fold eq) (rule assms(1) f(1))+
    from insert_after_rep [OF this(1) assms(2) f(2) this(2) below above lay [unfolded ins]]
    show ?thesis unfolding ins .
  qed
qed

end
