(* ===== verification/MallocCorrect.thy ===== *)
theory MallocCorrect
  imports MallocRefine
begin

text \<open>
  \<open>mymalloc\<close> and \<open>myfree\<close> of \<open>m5/mymalloc.c\<close> over the block list: request rounding at 64
  bits, the blocks in use before and after each call, coalescing, and the case in which a
  fresh chunk makes the allocator return the block below it.
\<close>

subsection \<open>Rounding\<close>

lemma unat_lt64: "unat (x :: u64) < 2 ^ 64"
  by (rule order_less_le_trans [OF unsigned_less]) simp

lemma unat_two_power: "n < 64 \<Longrightarrow> unat (2 ^ n :: u64) = 2 ^ n"
proof -
  assume n: "n < 64"
  have "unat (of_nat (2 ^ n) :: u64) = take_bit 64 (2 ^ n)" by (simp only: unsigned_of_nat) simp
  also have "\<dots> = 2 ^ n" using power_strict_increasing [of n 64 "2 :: nat"] n by (intro take_bit_nat_eq_self) simp
  finally show ?thesis by simp
qed

lemma and_not_mask: "(x :: u64) AND NOT (mask n) = push_bit n (drop_bit n x)"
  by (rule bit_word_eqI) (auto simp: bit_simps)

lemma unat_clear_low:
  assumes "n < 64"
  shows "unat (push_bit n (drop_bit n (x :: u64))) = unat x div 2 ^ n * 2 ^ n"
proof -
  have d: "unat (drop_bit n x) = unat x div 2 ^ n"
    unfolding unat_drop_bit_eq by (rule drop_bit_eq_div)
  have p: "unat (2 ^ n :: u64) = 2 ^ n" using assms by (rule unat_two_power)
  have "unat x div 2 ^ n * 2 ^ n \<le> unat x" by (rule div_times_less_eq_dividend)
  also have "\<dots> < 2 ^ 64" using unsigned_less [of x] by simp
  finally have "unat (drop_bit n x) * unat (2 ^ n :: u64) < 2 ^ LENGTH(64)" by (simp add: d p)
  then have "unat (drop_bit n x * 2 ^ n) = unat (drop_bit n x) * unat (2 ^ n :: u64)"
    by (simp only: unat_mult_lem)
  then show ?thesis by (simp add: push_bit_eq_mult d p)
qed

lemma unat_align_up:
  assumes "0 < n" "n < 64" "unat x + 2 ^ n \<le> 2 ^ 64"
  shows "unat (align_up x (2 ^ n)) = (unat x + 2 ^ n - 1) div 2 ^ n * 2 ^ n"
proof -
  have p: "unat (2 ^ n :: u64) = 2 ^ n" using assms(2) by (rule unat_two_power)
  have "unat (2 ^ n - 1 :: u64) = 2 ^ n - 1"
    using p by (simp add: unat_minus_one unat_gt_0 flip: unat_eq_0)
  then have "unat (x + (2 ^ n - 1)) = unat x + (2 ^ n - 1)"
    using assms(3) unat_plus_le [of x "2 ^ n - 1"] by (simp add: less_le_trans)
  then have "unat (x + 2 ^ n - 1) = unat x + (2 ^ n - 1)" by (simp only: add_diff_eq)
  moreover have "(2 ^ n - 1 :: u64) = mask n" by (simp add: mask_eq_exp_minus_1)
  ultimately show ?thesis
    by (simp add: align_up_def and_not_mask unat_clear_low [OF assms(2)])
qed

lemma align_up_bounds:
  assumes "0 < n" "n < 64" "unat x + 2 ^ n \<le> 2 ^ 64"
  shows "2 ^ n dvd unat (align_up x (2 ^ n))" "unat x \<le> unat (align_up x (2 ^ n))"
    "unat (align_up x (2 ^ n)) < unat x + 2 ^ n"
proof -
  let ?m = "2 ^ n :: nat"
  let ?y = "unat x + ?m - 1"
  have a: "unat (align_up x (2 ^ n)) = ?y div ?m * ?m" using unat_align_up [OF assms] .
  show "?m dvd unat (align_up x (2 ^ n))" unfolding a by simp
  have "?y div ?m * ?m + ?y mod ?m = ?y" by (rule div_mult_mod_eq)
  moreover have "?y mod ?m < ?m" by simp
  moreover have "0 < ?m" by simp
  ultimately show "unat x \<le> unat (align_up x (2 ^ n))" "unat (align_up x (2 ^ n)) < unat x + ?m"
    unfolding a by linarith+
qed

lemma request_size_fits:
  assumes "unat sz \<le> 2 ^ 64 - 8"
  shows "8 dvd unat (request_size sz)" "max 8 (unat sz) \<le> unat (request_size sz)"
    "unat (request_size sz) < max 8 (unat sz) + 8"
proof -
  let ?x = "if sz < MIN_PAYLOAD then MIN_PAYLOAD else sz"
  have x: "unat ?x = max 8 (unat sz)"
    by (auto simp: word_less_nat_alt unat_BLK)
  have "unat ?x + 2 ^ 3 \<le> 2 ^ 64" using assms unfolding x by simp
  from align_up_bounds [OF _ _ this]
  show "8 dvd unat (request_size sz)" "max 8 (unat sz) \<le> unat (request_size sz)"
    "unat (request_size sz) < max 8 (unat sz) + 8"
    unfolding x request_size_def by simp_all
qed

lemma request_size_wraps:
  assumes "2 ^ 64 - 8 < unat sz"
  shows "request_size sz = 0"
proof -
  have "\<not> sz < MIN_PAYLOAD" using assms by (simp add: word_less_nat_alt unat_BLK)
  moreover have "unat (sz + 7) < 8"
  proof -
    have "unat (sz + 7) = (unat sz + 7) mod 2 ^ 64" by (simp add: unat_word_ariths)
    also have "\<dots> = (unat sz + 7 - 2 ^ 64) mod 2 ^ 64" using assms by (simp add: le_mod_geq)
    also have "\<dots> \<le> unat sz + 7 - 2 ^ 64" by (rule mod_less_eq_dividend)
    finally show ?thesis using unat_lt64 [of sz] by simp
  qed
  then have "unat (sz + 7) div 2 ^ 3 = 0" by simp
  then have "unat (push_bit 3 (drop_bit 3 (sz + 7))) = 0" by (simp only: unat_clear_low)
  then have "push_bit 3 (drop_bit 3 (sz + 7)) = 0" by (simp only: unat_eq_0)
  moreover have "(7 :: u64) = mask 3" by (simp add: mask_eq_exp_minus_1)
  ultimately show ?thesis
    using and_not_mask [of "sz + 7" 3] by (simp add: request_size_def align_up_def add.commute)
qed

subsection \<open>Taking and returning a block\<close>

text \<open>The list after a block of size \<open>s\<close> at \<open>a\<close> is split and marked in use, and after the block at
  \<open>a\<close> is freed.\<close>

definition claim_block :: "u64 \<Rightarrow> u64 \<Rightarrow> u64 \<Rightarrow> blk list \<Rightarrow> blk list" where
  "claim_block sz a s post =
     (if unat s < unat sz + 40 then (a, s, False) # post
      else (a, sz, False) # (a + BLK + sz, s - sz - BLK, True) # post)"

definition release :: "blk list \<Rightarrow> u64 \<Rightarrow> u64 \<Rightarrow> blk list \<Rightarrow> blk list" where
  "release pre a s post =
     (let m = merge_next (a, s, True) post in
        if pre = [] then m else butlast pre @ merge_next (last pre) m)"

lemma claim_rep:
  assumes "heap_rep h (pre @ (a, s, f) # post)" "8 dvd unat sz" "unat sz + 40 < 2 ^ 64"
  shows "\<exists>h'. do { h \<leftarrow> split_block h a sz; upd h a (\<lambda>b. b\<lparr>bfree := False\<rparr>) } = Some h' \<and>
    same_rest h h' \<and> heap_rep h' (pre @ claim_block sz a s post)"
proof -
  obtain h1 where 1: "split_block h a sz = Some h1" "same_rest h h1"
    "heap_rep h1 (pre @ split_at sz (a, s, f) post)"
    using split_rep [OF assms] by blast
  obtain t ys where sp: "split_at sz (a, s, f) post = (a, t, f) # ys"
    "claim_block sz a s post = (a, t, False) # ys"
    by (cases "unat s < unat sz + 40") (simp_all add: split_at_def claim_block_def)
  obtain h2 where "upd h1 a (\<lambda>b. b\<lparr>bfree := False\<rparr>) = Some h2" "same_rest h1 h2"
    "heap_rep h2 (pre @ (a, t, False) # ys)"
    using set_free_rep [of h1 pre a t f ys False] 1(3) sp(1) by auto
  with 1 sp(2) show ?thesis by (auto simp: same_rest_def)
qed

lemma merge_next_hd: "\<exists>t ys. merge_next (a, s, f) post = (a, t, f) # ys"
  by (cases rule: merge_next_cases [of a s f post]) auto

lemma myfree_rep:
  assumes "heap_rep h (pre @ (a, s, f) # post)" "heap_lock h = 0"
  shows "\<exists>h'. myfree h (a + BLK) = Some h' \<and> heap_lock h' = 0 \<and>
    malloc_count h' = malloc_count h \<and> heap_rep h' (release pre a s post)"
proof -
  let ?h = "h\<lparr>heap_lock := 1\<rparr>"
  have "heap_rep ?h (pre @ (a, s, f) # post)" using assms(1) by simp
  then obtain h1 where 1: "upd ?h a (\<lambda>b. b\<lparr>bfree := True\<rparr>) = Some h1" "same_rest ?h h1"
    "heap_rep h1 (pre @ (a, s, True) # post)"
    using set_free_rep by blast
  obtain h2 where 2: "coalesce_with_next h1 a = Some h2" "same_rest h1 h2"
    "heap_rep h2 (pre @ merge_next (a, s, True) post)"
    using coalesce_rep [OF 1(3)] by blast
  obtain t ys where m: "merge_next (a, s, True) post = (a, t, True) # ys"
    using merge_next_hd by blast
  have "8 dvd unat a" "unat a + 32 + unat s < 2 ^ 64" "4096 \<le> unat a"
    using assms(1) layout_split_at [of 4096 pre a s f post] layout_in [of 4096 "pre @ (a, s, f) # post" a s f]
    by (auto simp: heap_rep_def)
  then have "unat (a + BLK) \<noteq> 0" by (simp add: unat_plus_le unat_BLK)
  then have nz: "a + BLK \<noteq> 0" by auto
  have base: "a + BLK - BLK = a" by simp
  have b: "mem h2 a = Some \<lparr>bsize = t, bfree = True,
      bprev = (if pre = [] then 0 else fst (last pre)),
      bnext = (if ys = [] then 0 else fst (hd ys))\<rparr>"
    using heap_rep_block(1) 2(3) m by simp
  obtain h3 where 3: "(if bprev (the (mem h2 a)) \<noteq> 0 then
      coalesce_with_next h2 (bprev (the (mem h2 a))) else Some h2) = Some h3"
    "same_rest h2 h3" "heap_rep h3 (release pre a s post)"
  proof (cases "pre = []")
    case True
    with 2(3) b show thesis by (intro that [of h2]) (simp_all add: release_def)
  next
    case False
    obtain p q g where l: "last pre = (p, q, g)" by (cases "last pre")
    have r: "heap_rep h2 (butlast pre @ (p, q, g) # merge_next (a, s, True) post)"
      using 2(3) append_butlast_last_id [OF False] l by (metis append.assoc append_Cons append_Nil)
    obtain h3 where "coalesce_with_next h2 p = Some h3" "same_rest h2 h3"
      "heap_rep h3 (butlast pre @ merge_next (p, q, g) (merge_next (a, s, True) post))"
      using coalesce_rep [OF r] by blast
    with heap_rep_block(2) [OF r] False b l show thesis
      by (intro that [of h3]) (auto simp: release_def)
  qed
  have "myfree h (a + BLK) = Some (unlock_heap h3)"
    using 1(1) 2(1) 3(1) b nz assms(2)
    by (simp only: myfree_def nz if_False base Let_def lock_heap_def assms(2) if_True
      Option.bind_lunit option.sel)
  moreover have "heap_rep (unlock_heap h3) (release pre a s post)"
    using 3(3) by (simp add: unlock_heap_def)
  ultimately show ?thesis
    using 1(2) 2(2) 3(2) by (simp add: unlock_heap_def same_rest_def)
qed

subsection \<open>Growing the heap\<close>

lemma coalesce_keeps_next:
  assumes "coalesce_with_next h a = Some h'" "mem h a = Some b" "bnext b \<noteq> a"
    "mem h (bnext b) = Some c" "bnext c \<noteq> bnext b"
  shows "\<exists>c'. mem h' (bnext b) = Some c' \<and> bprev c' = bprev c"
  using assms
  by (auto simp: coalesce_with_next_def upd_def bind_eq_Some_conv split: if_splits)

definition good_chunk :: "u64 \<Rightarrow> u64 \<Rightarrow> blk list \<Rightarrow> bool" where
  "good_chunk r bytes xs \<longleftrightarrow> fresh_region r (unat bytes) xs \<and> 32 \<le> unat bytes \<and> 8 dvd unat bytes"

abbreviation below :: "u64 \<Rightarrow> blk list \<Rightarrow> blk list" where
  "below r xs \<equiv> takeWhile (\<lambda>b. fst b < r) xs"

abbreviation above :: "u64 \<Rightarrow> blk list \<Rightarrow> blk list" where
  "above r xs \<equiv> dropWhile (\<lambda>b. fst b < r) xs"

lemma good_chunk_size:
  assumes "good_chunk r bytes xs"
  shows "unat (bytes - BLK) = unat bytes - 32" "fresh_region r (32 + unat (bytes - BLK)) xs"
    "8 dvd unat (bytes - BLK)" "r \<noteq> 0"
proof -
  show u: "unat (bytes - BLK) = unat bytes - 32"
    using assms by (simp add: good_chunk_def unat_sub_if' unat_BLK)
  show "8 dvd unat (bytes - BLK)" using assms unfolding u good_chunk_def by (auto intro: dvd_diff_nat)
  show "fresh_region r (32 + unat (bytes - BLK)) xs" using assms unfolding u good_chunk_def by simp
  show "r \<noteq> 0" using assms by (auto simp: good_chunk_def fresh_region_def)
qed

lemma extend_insert:
  assumes "heap_rep h xs" "good_chunk r bytes xs"
  shows "\<exists>h'. insert_block (h\<lparr>mem := (mem h)(r \<mapsto>
      \<lparr>bsize = bytes - BLK, bfree = True, bprev = 0, bnext = 0\<rparr>)\<rparr>) r = Some h' \<and> same_rest h h' \<and>
    heap_rep h' (below r xs @ (r, bytes - BLK, True) # above r xs)"
proof -
  note g = good_chunk_size [OF assms(2)]
  let ?h = "h\<lparr>mem := (mem h)(r \<mapsto> \<lparr>bsize = bytes - BLK, bfree = True, bprev = 0, bnext = 0\<rparr>)\<rparr>"
  have "heap_rep ?h xs"
    using assms(1) fresh_region_notin [OF g(2)] by (simp add: heap_rep_def lseg_frame)
  from insert_rep [OF this _ g(2,3)] show ?thesis
    by (auto simp: insert_sorted_def same_rest_def)
qed

text \<open>What \<open>extend_heap\<close> does when the chunk at \<open>r\<close> is the lowest block.\<close>

lemma extend_low:
  assumes "heap_rep h xs" "vmalloc (extend_bytes sz) = r" "good_chunk r (extend_bytes sz) xs"
    and low: "below r xs = []"
  shows "\<exists>h'. extend_heap vmalloc h sz = Some (h', r) \<and> same_rest h h' \<and>
    heap_rep h' (merge_next (r, extend_bytes sz - BLK, True) (above r xs))"
proof -
  note g = good_chunk_size [OF assms(3)]
  let ?h = "h\<lparr>mem := (mem h)(r \<mapsto>
      \<lparr>bsize = extend_bytes sz - BLK, bfree = True, bprev = 0, bnext = 0\<rparr>)\<rparr>"
  obtain h1 where 1: "insert_block ?h r = Some h1" "same_rest h h1"
    "heap_rep h1 ([] @ (r, extend_bytes sz - BLK, True) # above r xs)"
    using extend_insert [OF assms(1,3)] low by auto
  obtain b where b: "mem h1 r = Some b" "bprev b = 0"
    using heap_rep_block(1) [OF 1(3)] by simp
  obtain h2 where 2: "coalesce_with_next h1 r = Some h2" "same_rest h1 h2"
    "heap_rep h2 ([] @ merge_next (r, extend_bytes sz - BLK, True) (above r xs))"
    using coalesce_rep [OF 1(3)] by blast
  have "extend_heap vmalloc h sz = Some (h2, r)"
    using g(4) 1(1) b 2(1) by (simp add: extend_heap_def Let_def assms(2))
  with 1(2) 2(2,3) show ?thesis by (auto simp: same_rest_def)
qed

text \<open>Above a block \<open>p\<close> it returns \<open>p\<close>, whatever the state of \<open>p\<close>.\<close>

lemma extend_above:
  assumes "heap_rep h xs" "vmalloc (extend_bytes sz) = r" "good_chunk r (extend_bytes sz) xs"
    and pre: "below r xs = pre @ [(p, q, f)]"
    and m: "merge_next (p, q, f) ((r, extend_bytes sz - BLK, True) # above r xs) = (p, t, f) # ys"
  shows "\<exists>h'. extend_heap vmalloc h sz = Some (h', p) \<and> same_rest h h' \<and>
    heap_rep h' (pre @ merge_next (p, t, f) ys)"
proof -
  note g = good_chunk_size [OF assms(3)]
  let ?n = "extend_bytes sz - BLK"
  let ?h = "h\<lparr>mem := (mem h)(r \<mapsto> \<lparr>bsize = ?n, bfree = True, bprev = 0, bnext = 0\<rparr>)\<rparr>"
  obtain h1 where 1: "insert_block ?h r = Some h1" "same_rest h h1"
    "heap_rep h1 (pre @ (p, q, f) # (r, ?n, True) # above r xs)"
    using extend_insert [OF assms(1,3)] unfolding pre by auto
  have 11: "heap_rep h1 ((pre @ [(p, q, f)]) @ (r, ?n, True) # above r xs)" using 1(3) by simp
  obtain b where b: "mem h1 r = Some b" "bprev b = p"
    and nb: "bnext b = (if above r xs = [] then 0 else fst (hd (above r xs)))"
    using heap_rep_block(1) [OF 11] by simp
  have p: "p \<noteq> 0" "mem h1 p = Some \<lparr>bsize = q, bfree = f,
      bprev = (if pre = [] then 0 else fst (last pre)), bnext = r\<rparr>"
    using heap_rep_block [OF 1(3)] by simp_all
  have lay: "layout 4096 ((pre @ [(p, q, f)]) @ (r, ?n, True) # above r xs)"
    using 11 by (simp add: heap_rep_def)
  note l = layout_split_at [OF lay]
  have rp: "r \<noteq> p" using l(1) by auto
  have nr: "bnext b \<noteq> r"
    using nb l(2) g(4) by (cases "above r xs") auto
  obtain h2 where 2: "coalesce_with_next h1 p = Some h2" "same_rest h1 h2"
    "heap_rep h2 (pre @ (p, t, f) # ys)"
    using coalesce_rep [OF 1(3)] m by auto
  obtain b' where b': "mem h2 r = Some b'" "bprev b' = p"
    using coalesce_keeps_next [OF 2(1) p(2)] rp b nr by auto
  obtain h3 where 3: "coalesce_with_next h2 p = Some h3" "same_rest h2 h3"
    "heap_rep h3 (pre @ merge_next (p, t, f) ys)"
    using coalesce_rep [OF 2(3)] by blast
  have "extend_heap vmalloc h sz = Some (h3, p)"
    using g(4) 1(1) b p(1) 2(1) b' 3(1) by (simp add: extend_heap_def Let_def assms(2))
  with 1(2) 2(2) 3(2,3) show ?thesis by (auto simp: same_rest_def)
qed

lemma extend_fails:
  "vmalloc (extend_bytes sz) = 0 \<Longrightarrow> extend_heap vmalloc h sz = Some (h, 0)"
  by (simp add: extend_heap_def Let_def)

lemma extend_bytes_bounds:
  assumes "unat sz + 4128 \<le> 2 ^ 64"
  shows "unat sz + 32 \<le> unat (extend_bytes sz)" "4096 dvd unat (extend_bytes sz)"
    "65536 \<le> unat (extend_bytes sz)"
proof -
  have u: "unat (BLK + sz) = unat sz + 32" using assms by (simp add: unat_plus_le unat_BLK)
  have pg: "PAGE_SIZE = 2 ^ 12" by (simp add: PAGE_SIZE_def)
  have "unat (BLK + sz) + 2 ^ 12 \<le> 2 ^ 64" using assms unfolding u by simp
  note b = align_up_bounds [OF _ _ this, folded pg, unfolded u, folded page_round_def]
  show "unat sz + 32 \<le> unat (extend_bytes sz)" "4096 dvd unat (extend_bytes sz)"
    "65536 \<le> unat (extend_bytes sz)"
    using b by (auto simp: extend_bytes_def Let_def word_less_nat_alt unat_BLK)
qed

end
