(* ===== verification/MallocCalls.thy ===== *)
theory MallocCalls
  imports MallocCorrect
begin

text \<open>
  The two entry points of \<open>m5/mymalloc.c\<close>: which blocks are in use before and after a call, what
  the caller gets, and an interface \<open>block_allocator\<close> from which the disjointness of all live
  allocations of a client is derived.
\<close>

definition used :: "blk list \<Rightarrow> (u64 \<times> u64) set" where
  "used xs = {(a, s). (a, s, False) \<in> set xs}"

text \<open>No two free blocks touch.\<close>

fun coalesced :: "blk list \<Rightarrow> bool" where
  "coalesced ((a, s, f) # (b, t, g) # xs) \<longleftrightarrow>
     \<not> (f \<and> g \<and> a + BLK + s = b) \<and> coalesced ((b, t, g) # xs)"
| "coalesced _ \<longleftrightarrow> True"

text \<open>\<open>joins x y\<close>: \<open>x\<close> and the following block \<open>y\<close> may stand next to each other.\<close>

fun joins :: "blk \<Rightarrow> blk \<Rightarrow> bool" where
  "joins (a, s, f) (b, t, g) \<longleftrightarrow> \<not> (f \<and> g \<and> a + BLK + s = b)"

lemma coalesced_Cons:
  "coalesced (x # xs) \<longleftrightarrow> (xs = [] \<or> joins x (hd xs)) \<and> coalesced xs"
  by (cases x; cases xs; cases "hd xs") auto

lemma coalesced_append:
  "coalesced (xs @ ys) \<longleftrightarrow>
    coalesced xs \<and> coalesced ys \<and> (xs = [] \<or> ys = [] \<or> joins (last xs) (hd ys))"
  by (induction xs) (auto simp: coalesced_Cons)

lemma used_simps [simp]:
  "used [] = {}"
  "used ((a, s, f) # xs) = (if f then used xs else insert (a, s) (used xs))"
  "used (xs @ ys) = used xs \<union> used ys"
  by (auto simp: used_def)

lemma used_addrs: "(a, s) \<in> used xs \<Longrightarrow> a \<in> addrs xs"
  by (force simp: used_def)

lemma merge_next_used:
  "used (merge_next x xs) = used (x # xs)"
proof (cases x)
  case (fields a s f)
  show ?thesis unfolding fields
    by (cases rule: merge_next_cases [of a s f xs]) simp_all
qed

lemma release_used: "used (release pre a s post) = used pre \<union> used post"
proof (cases "pre = []")
  case False
  have "used pre = used (butlast pre @ [last pre])" using False by simp
  then show ?thesis
    by (simp add: release_def Let_def False merge_next_used del: append_butlast_last_id)
       (cases "last pre"; simp add: merge_next_used)
qed (simp add: release_def merge_next_used)

lemma claim_used: "\<exists>t. used (claim_block sz a s post) = insert (a, t) (used post) \<and>
    (unat sz \<le> unat s \<longrightarrow> unat sz \<le> unat t \<and> unat t < unat sz + 40)"
  by (auto simp: claim_block_def)

text \<open>Merging with the next block keeps the list coalesced.\<close>

lemma joins_size: "joins (a, s, f) y \<longleftrightarrow> \<not> (f \<and> snd (snd y) \<and> a + BLK + s = fst y)"
  by (cases y) auto

lemma merge_next_coalesced:
  assumes "coalesced xs"
  shows "coalesced (merge_next (a, s, f) xs)"
proof (cases rule: merge_next_cases [of a s f xs])
  case stay
  with assms show ?thesis by (cases xs) (auto simp: coalesced_Cons)
next
  case (merge c t ys)
  have "a + BLK + (s + (BLK + t)) = c + BLK + t" using merge(3) by (simp add: algebra_simps)
  with assms merge show ?thesis by (auto simp: coalesced_Cons joins_size algebra_simps)
qed

lemma release_coalesced:
  assumes "coalesced pre" "coalesced post"
  shows "coalesced (release pre a s post)"
proof (cases "pre = []")
  case True
  with assms show ?thesis by (simp add: release_def merge_next_coalesced)
next
  case False
  obtain p q g where l: "last pre = (p, q, g)" by (cases "last pre")
  have pre: "pre = butlast pre @ [(p, q, g)]" using False l by (metis append_butlast_last_id)
  have "coalesced (butlast pre @ [(p, q, g)])" by (fold pre) (rule assms(1))
  then have b: "coalesced (butlast pre)"
    "butlast pre = [] \<or> joins (last (butlast pre)) (p, q, g)"
    by (auto simp: coalesced_append)
  obtain t ys where m: "merge_next (p, q, g) (merge_next (a, s, True) post) = (p, t, g) # ys"
    using merge_next_hd by blast
  have "coalesced (merge_next (p, q, g) (merge_next (a, s, True) post))"
    by (intro merge_next_coalesced assms)
  with b m have "coalesced (butlast pre @ (p, t, g) # ys)"
    by (cases "last (butlast pre)") (auto simp: coalesced_append)
  with m show ?thesis by (simp add: release_def Let_def False l)
qed

lemma claim_coalesced:
  assumes "coalesced (pre @ (a, s, f) # post)" "f \<or> post = [] \<or> \<not> snd (snd (hd post)) \<or> unat s < unat sz + 40"
  shows "coalesced (pre @ claim_block sz a s post)"
proof -
  have *: "a + BLK + sz + BLK + (s - sz - BLK) = a + BLK + s" by (simp add: algebra_simps)
  show ?thesis
    using assms *
    by (cases "last pre")
      (auto simp: coalesced_append coalesced_Cons claim_block_def joins_size algebra_simps)
qed

subsection \<open>mymalloc\<close>

text \<open>The heap while the lock is held and the call has been counted.\<close>

abbreviation entered :: "heap \<Rightarrow> heap" where
  "entered h \<equiv> h\<lparr>heap_lock := 1, malloc_count := malloc_count h + 1\<rparr>"

text \<open>The part of \<open>mymalloc\<close> after a block has been found.\<close>

definition serve :: "heap \<Rightarrow> u64 \<Rightarrow> u64 \<Rightarrow> (heap \<times> u64) option" where
  "serve h block rs =
     (if block = 0 then Some (unlock_heap h, 0)
      else do {
        h \<leftarrow> split_block h block rs;
        h \<leftarrow> upd h block (\<lambda>b. b\<lparr>bfree := False\<rparr>);
        Some (unlock_heap h, block + BLK) })"

lemma mymalloc_unfold:
  assumes "heap_lock h = 0" "heap_rep h xs"
  shows "mymalloc vmalloc h sz =
    (do { (h, block) \<leftarrow> (case first_fit (request_size sz) xs of
            Some (a, s, f) \<Rightarrow> Some (entered h, a)
          | None \<Rightarrow> extend_heap vmalloc (entered h) (request_size sz));
          serve h block (request_size sz) })"
proof -
  have rep: "heap_rep (entered h) xs" using assms(2) by simp
  show ?thesis
  proof (cases "first_fit (request_size sz) xs")
    case None
    with find_free_rep [OF rep] show ?thesis
      by (simp add: mymalloc_def serve_def Let_def lock_heap_def assms(1))
  next
    case (Some x)
    obtain a s f where x: "x = (a, s, f)" by (cases x)
    obtain pre post where xs: "xs = pre @ (a, s, True) # post"
      using first_fit_Some Some x by metis
    have "a \<noteq> 0" using heap_rep_block(2) rep xs by blast
    with find_free_rep [OF rep] Some x show ?thesis
      by (simp add: mymalloc_def serve_def Let_def lock_heap_def assms(1))
  qed
qed

lemma serve_rep:
  assumes "heap_rep h (pre @ (a, s, f) # post)" "8 dvd unat rs" "unat rs + 40 < 2 ^ 64"
  shows "\<exists>h'. serve h a rs = Some (h', a + BLK) \<and> heap_lock h' = 0 \<and>
    malloc_count h' = malloc_count h \<and> heap_rep h' (pre @ claim_block rs a s post)"
proof -
  obtain h2 where "do { h \<leftarrow> split_block h a rs; upd h a (\<lambda>b. b\<lparr>bfree := False\<rparr>) } = Some h2"
    and r: "same_rest h h2" "heap_rep h2 (pre @ claim_block rs a s post)"
    using claim_rep [OF assms] by blast
  then obtain h1 where "split_block h a rs = Some h1" "upd h1 a (\<lambda>b. b\<lparr>bfree := False\<rparr>) = Some h2"
    by (auto simp: bind_eq_Some_conv)
  then have "serve h a rs = Some (unlock_heap h2, a + BLK)"
    using heap_rep_block(2) [OF assms(1)] by (simp add: serve_def)
  with r show ?thesis by (simp add: unlock_heap_def same_rest_def)
qed

text \<open>A call that a free block can serve.\<close>

lemma mymalloc_reuse:
  assumes "heap_rep h (pre @ (a, s, True) # post)" "heap_lock h = 0"
    and "first_fit (request_size sz) (pre @ (a, s, True) # post) = Some (a, s, True)"
    and "8 dvd unat (request_size sz)" "unat (request_size sz) \<le> unat s"
  shows "\<exists>h'. mymalloc vmalloc h sz = Some (h', a + BLK) \<and> heap_lock h' = 0 \<and>
    malloc_count h' = malloc_count h + 1 \<and>
    heap_rep h' (pre @ claim_block (request_size sz) a s post)"
proof -
  have rep: "heap_rep (entered h) (pre @ (a, s, True) # post)" using assms(1) by simp
  have "layout 4096 (pre @ (a, s, True) # post)" using assms(1) by (simp add: heap_rep_def)
  from layout_split_at [OF this] layout_in [OF this, of a s True]
  have "unat (request_size sz) + 40 < 2 ^ 64" using assms(5) by auto
  from serve_rep [OF rep assms(4) this] show ?thesis
    unfolding mymalloc_unfold [OF assms(2,1)] assms(3) by simp
qed

lemma request_dvd: "8 dvd unat (request_size sz)"
proof (cases "unat sz \<le> 2 ^ 64 - 8")
  case True
  then show ?thesis by (rule request_size_fits)
next
  case False
  then show ?thesis by (simp add: request_size_wraps)
qed

text \<open>A call that needs a chunk, which \<open>extend_heap\<close> makes the head of a block \<open>(b, t, f)\<close>.\<close>

lemma mymalloc_grow:
  assumes "heap_rep h xs" "heap_lock h = 0" "first_fit (request_size sz) xs = None"
    and "extend_heap vmalloc (entered h) (request_size sz) = Some (h1, b)" "same_rest (entered h) h1"
    and "heap_rep h1 (pre @ (b, t, f) # post)" "unat (request_size sz) + 40 < 2 ^ 64"
  shows "\<exists>h'. mymalloc vmalloc h sz = Some (h', b + BLK) \<and> heap_lock h' = 0 \<and>
    malloc_count h' = malloc_count h + 1 \<and>
    heap_rep h' (pre @ claim_block (request_size sz) b t post)"
  using serve_rep [OF assms(6) request_dvd assms(7)] assms(5)
  unfolding mymalloc_unfold [OF assms(2,1)] assms(3,4) by (simp add: same_rest_def)

subsection \<open>The contract of mymalloc\<close>

text \<open>\<open>vmalloc\<close> is \<open>mmap\<close> of anonymous memory: if no block fits, it fails or gives a fresh region, with
  no bytes in common with the blocks there are.  Requests are of at most \<open>2 ^ 63\<close> bytes.\<close>

definition fresh_answer :: "(u64 \<Rightarrow> u64) \<Rightarrow> blk list \<Rightarrow> u64 \<Rightarrow> bool" where
  "fresh_answer vmalloc xs sz \<longleftrightarrow> unat sz \<le> 2 ^ 63 \<and>
     (case first_fit (request_size sz) xs of
        Some _ \<Rightarrow> True
      | None \<Rightarrow>
          (let bytes = extend_bytes (request_size sz); r = vmalloc bytes in
             r = 0 \<or> good_chunk r bytes xs))"

text \<open>The case that \<open>extend_heap\<close> does not handle: the new chunk has a block before it, with which it cannot
  be merged.  The test for \<open>block->prev\<close> in the code does not ask whether they were.\<close>

definition misplaced :: "(u64 \<Rightarrow> u64) \<Rightarrow> blk list \<Rightarrow> u64 \<Rightarrow> bool" where
  "misplaced vmalloc xs sz \<longleftrightarrow> first_fit (request_size sz) xs = None \<and>
     (let r = vmalloc (extend_bytes (request_size sz)) in
        r \<noteq> 0 \<and> below r xs \<noteq> [] \<and> (case last (below r xs) of (p, q, f) \<Rightarrow> \<not> (f \<and> p + BLK + q = r)))"

abbreviation served_by :: "(u64 \<Rightarrow> u64) \<Rightarrow> blk list \<Rightarrow> u64 \<Rightarrow> bool" where
  "served_by vmalloc xs sz \<equiv> fresh_answer vmalloc xs sz \<and> \<not> misplaced vmalloc xs sz"

text \<open>What the caller sees: the null pointer and the same blocks, or one more block in use, at an
  address not in use before and with room for the request.\<close>

definition granted :: "blk list \<Rightarrow> u64 \<Rightarrow> blk list \<Rightarrow> u64 \<Rightarrow> bool" where
  "granted xs sz xs' p \<longleftrightarrow>
     (if p = 0 then xs' = xs
      else \<exists>t. used xs' = insert (p - BLK, t) (used xs) \<and> p - BLK \<notin> fst ` used xs \<and>
             unat sz \<le> unat t \<and> unat t < max 8 (unat sz) + 48)"

lemma block_ptr_nonzero:
  assumes "heap_rep h xs" "(a, s, f) \<in> set xs"
  shows "a + BLK \<noteq> 0"
proof -
  have "unat a + 32 < 2 ^ 64" "4096 \<le> unat a"
    using assms layout_in [of 4096 xs a s f] layout_le_endof [of 4096 xs]
    by (auto simp: heap_rep_def)
  then have "unat (a + BLK) \<noteq> 0" by (simp add: unat_plus_le unat_BLK)
  then show ?thesis by auto
qed

lemma grantedI:
  assumes "heap_rep h' (pre @ claim_block (request_size sz) a s post)"
    and "used xs = used pre \<union> used post" "a \<notin> fst ` used xs"
    and "unat sz \<le> 2 ^ 63" "unat (request_size sz) \<le> unat s"
  shows "granted xs sz (pre @ claim_block (request_size sz) a s post) (a + BLK)"
proof -
  have "unat sz \<le> 2 ^ 64 - 8" using assms(4) by simp
  note r = request_size_fits [OF this]
  obtain t where t: "used (claim_block (request_size sz) a s post) = insert (a, t) (used post)"
    "unat (request_size sz) \<le> unat t" "unat t < unat (request_size sz) + 40"
    using claim_used assms(5) by blast
  have "(a, t) \<in> used (pre @ claim_block (request_size sz) a s post)" using t(1) by simp
  then have "a + BLK \<noteq> 0" using block_ptr_nonzero [OF assms(1)] by (auto simp: used_def)
  with t r assms(2,3) show ?thesis by (auto simp: granted_def intro!: exI [of _ t])
qed

lemma free_addr_unused:
  assumes "layout lo (pre @ (a, s, True) # post)"
  shows "a \<notin> fst ` used (pre @ (a, s, True) # post)"
  using layout_split_at(1,2) [OF assms] used_addrs by fastforce

lemma mymalloc_granted_reuse:
  assumes "heap_rep h xs" "heap_lock h = 0" "coalesced xs" "served_by vmalloc xs sz"
    and "first_fit (request_size sz) xs = Some x"
  shows "\<exists>h' p xs'. mymalloc vmalloc h sz = Some (h', p) \<and> heap_rep h' xs' \<and>
    heap_lock h' = 0 \<and> malloc_count h' = malloc_count h + 1 \<and> coalesced xs' \<and> granted xs sz xs' p"
proof -
  obtain a s f where x: "x = (a, s, f)" by (cases x)
  from first_fit_Some assms(5) x obtain pre post
    where xs: "xs = pre @ (a, s, True) # post" and f: "f" and s: "request_size sz \<le> s" by metis
  have lay: "layout 4096 (pre @ (a, s, True) # post)" using assms(1) xs by (simp add: heap_rep_def)
  have fit: "unat (request_size sz) \<le> unat s" using s by (simp add: word_le_nat_alt)
  from mymalloc_reuse [of h pre a s post sz vmalloc] obtain h' where
    h': "mymalloc vmalloc h sz = Some (h', a + BLK)" "heap_lock h' = 0"
    "malloc_count h' = malloc_count h + 1"
    "heap_rep h' (pre @ claim_block (request_size sz) a s post)"
    using assms(1,2,5) xs x f fit request_dvd by auto
  have "granted xs sz (pre @ claim_block (request_size sz) a s post) (a + BLK)"
    using free_addr_unused [OF lay] assms(4) fit h'(4) xs
    by (intro grantedI) (simp_all add: fresh_answer_def)
  moreover have "coalesced (pre @ claim_block (request_size sz) a s post)"
    using assms(3) xs by (intro claim_coalesced [of _ _ _ True]) auto
  ultimately show ?thesis using h' by blast
qed

lemma served_request:
  assumes "fresh_answer vmalloc xs sz"
  shows "unat (request_size sz) + 40 < 2 ^ 64"
    "unat (request_size sz) + 32 \<le> unat (extend_bytes (request_size sz))"
    "8 dvd unat (extend_bytes (request_size sz))"
proof -
  have s: "unat sz \<le> 2 ^ 63" using assms by (simp add: fresh_answer_def)
  then have "unat sz \<le> 2 ^ 64 - 8" by simp
  from request_size_fits(3) [OF this] s have "unat (request_size sz) < 2 ^ 63 + 8"
    by (simp add: max_def split: if_splits)
  then show "unat (request_size sz) + 40 < 2 ^ 64"
    "unat (request_size sz) + 32 \<le> unat (extend_bytes (request_size sz))"
    "8 dvd unat (extend_bytes (request_size sz))"
    using extend_bytes_bounds [of "request_size sz"] by (auto elim: dvd_trans [rotated])
qed

lemma merge_next_size:
  assumes "layout lo (pre @ (a, s, f) # post)" "merge_next (a, s, f) post = (a, t, f) # ys"
  shows "unat s \<le> unat t"
proof (cases rule: merge_next_cases [of a s f post])
  case stay
  with assms show ?thesis by simp
next
  case (merge c u zs)
  have "layout lo ((pre @ [(a, s, f)]) @ (c, u, True) # zs)" using assms(1) merge(1) by simp
  note l = layout_split_at [OF assms(1)] and m = layout_split_at [OF this]
  have "unat c = unat a + 32 + unat s" using merge(3) unat_block_end l(7) by blast
  then have "unat s + (32 + unat u) < 2 ^ 64" using m(7) by simp
  then have "unat (s + (BLK + u)) = unat s + (32 + unat u)" by (simp add: unat_plus_le unat_BLK)
  with assms(2) merge(4) show ?thesis by simp
qed

lemma merge_in_coalesced:
  assumes "coalesced (pre @ [(a, s, f)])" "coalesced post"
  shows "coalesced (pre @ merge_next (a, t, f) post)"
proof -
  obtain u ys where m: "merge_next (a, t, f) post = (a, u, f) # ys"
    using merge_next_hd by blast
  have "coalesced (merge_next (a, t, f) post)" by (rule merge_next_coalesced [OF assms(2)])
  with assms(1) m show ?thesis by (cases "last pre") (auto simp: coalesced_append)
qed

lemma below_above_layout:
  assumes "heap_rep h xs" "good_chunk r bytes xs"
  shows "layout 4096 (below r xs @ (r, bytes - BLK, True) # above r xs)"
proof -
  note g = good_chunk_size [OF assms(2)]
  have "layout 4096 (insert_sorted (r, bytes - BLK, True) xs)"
    using assms(1) g by (intro layout_insert_sorted) (auto simp: heap_rep_def fresh_region_def)
  then show ?thesis by (simp add: insert_sorted_def)
qed

lemma unat_add3:
  fixes q n :: u64
  assumes "unat q + (32 + unat n) < 2 ^ 64"
  shows "unat (q + (BLK + n)) = unat q + (32 + unat n)"
  using assms by (simp add: unat_plus_le unat_BLK)

text \<open>The chunk ends up in a free block that is large enough.\<close>

lemma extend_served:
  assumes "heap_rep h xs" "coalesced xs" "served_by vmalloc xs sz"
    and "first_fit (request_size sz) xs = None" "vmalloc (extend_bytes (request_size sz)) \<noteq> 0"
  shows "\<exists>h1 b pre t ys. extend_heap vmalloc h (request_size sz) = Some (h1, b) \<and> same_rest h h1 \<and>
    heap_rep h1 (pre @ (b, t, True) # ys) \<and> coalesced (pre @ (b, t, True) # ys) \<and>
    used xs = used pre \<union> used ys \<and> unat (request_size sz) \<le> unat t"
proof -
  let ?bytes = "extend_bytes (request_size sz)" and ?r = "vmalloc (extend_bytes (request_size sz))"
  let ?lo = "below ?r xs" and ?hi = "above ?r xs" and ?n = "extend_bytes (request_size sz) - BLK"
  have good: "good_chunk ?r ?bytes xs"
    and pred: "?lo = [] \<or> (case last ?lo of (p, q, f) \<Rightarrow> f \<and> p + BLK + q = ?r)"
    using assms(3-5) by (auto simp: fresh_answer_def misplaced_def Let_def split: prod.splits)
  have n: "unat (request_size sz) \<le> unat ?n"
    using good_chunk_size(1) [OF good] served_request [OF conjunct1 [OF assms(3)]] by simp
  note lay = below_above_layout [OF assms(1) good]
  have "coalesced (?lo @ ?hi)" "used (?lo @ ?hi) = used xs" using assms(2) by simp_all
  then have c: "coalesced ?lo" "coalesced ?hi" and u: "used xs = used ?lo \<union> used ?hi"
    unfolding coalesced_append used_simps by simp_all
  show ?thesis
  proof (cases "?lo = []")
    case True
    obtain t ys where m: "merge_next (?r, ?n, True) ?hi = (?r, t, True) # ys"
      using merge_next_hd by blast
    obtain h1 where "extend_heap vmalloc h (request_size sz) = Some (h1, ?r)" "same_rest h h1"
      "heap_rep h1 ([] @ (?r, t, True) # ys)"
      using extend_low [of h xs vmalloc "request_size sz" ?r, OF assms(1) refl good True] m by auto
    moreover have "coalesced ((?r, t, True) # ys)"
      using merge_next_coalesced [of ?hi ?r ?n True] c m by simp
    moreover have "used ys = used xs"
      using merge_next_used [of "(?r, ?n, True)" ?hi] m u True by simp
    moreover have "unat ?n \<le> unat t" by (rule merge_next_size [OF lay m])
    ultimately show ?thesis using n by (intro exI [of _ h1] exI [of _ ?r] exI [of _ "[]"] exI [of _ t] exI [of _ ys]) auto
  next
    case False
    obtain p q where l: "last ?lo = (p, q, True)" and adj: "p + BLK + q = ?r"
      using pred False by (cases "last ?lo") auto
    let ?pre = "butlast ?lo" and ?q = "q + (BLK + ?n)"
    have lo: "?lo = ?pre @ [(p, q, True)]" using False l by (metis append_butlast_last_id)
    have m1: "merge_next (p, q, True) ((?r, ?n, True) # ?hi) = (p, ?q, True) # ?hi"
      using adj by (simp add: merge_next_def)
    obtain t ys where m2: "merge_next (p, ?q, True) ?hi = (p, t, True) # ys"
      using merge_next_hd by blast
    obtain h1 where h1: "extend_heap vmalloc h (request_size sz) = Some (h1, p)" "same_rest h h1"
      "heap_rep h1 (?pre @ (p, t, True) # ys)"
      using extend_above [of h xs vmalloc "request_size sz" ?r, OF assms(1) refl good lo m1] m2 by auto
    have "layout 4096 ((?pre @ [(p, q, True)]) @ (?r, ?n, True) # ?hi)"
      using lay by (fold lo)
    then have lay1: "layout 4096 (?pre @ (p, q, True) # (?r, ?n, True) # ?hi)" by simp
    note lp = layout_split_at [OF lay1]
    have ur: "unat ?r = unat p + 32 + unat q" using unat_block_end [OF lp(7)] unfolding adj .
    have "layout 4096 ((?pre @ [(p, q, True)]) @ (?r, ?n, True) # ?hi)" using lay1 by simp
    note lr = layout_split_at [OF this]
    have uq: "unat ?q = unat q + (32 + unat ?n)"
      by (rule unat_add3) (use lr(7) ur in simp)
    have "layout 4096 (?pre @ (p, ?q, True) # ?hi)"
      using lp(4,6,8,9) lr(5,7,9) ur uq
      by (simp add: layout_append add.assoc [symmetric])
    then have "unat ?q \<le> unat t" by (rule merge_next_size [OF _ m2])
    then have "unat (request_size sz) \<le> unat t" using n uq by simp
    moreover have "coalesced (?pre @ [(p, q, True)])"
      by (fold lo) (rule c)
    then have "coalesced (?pre @ (p, t, True) # ys)"
      using merge_in_coalesced [of ?pre p q True ?hi ?q] c m2 by simp
    moreover have "used ?lo = used ?pre" by (subst lo) simp
    then have "used xs = used ?pre \<union> used ys"
      using merge_next_used [of "(p, ?q, True)" ?hi] m2 u by simp
    ultimately show ?thesis using h1 by blast
  qed
qed

lemma heap_rep_head_unused:
  assumes "heap_rep h (pre @ (b, t, True) # ys)"
  shows "b \<notin> fst ` (used pre \<union> used ys)"
  using free_addr_unused [of 4096 pre b t ys] assms by (simp add: heap_rep_def)

lemma mymalloc_granted_grow:
  assumes "heap_rep h xs" "heap_lock h = 0" "coalesced xs" "served_by vmalloc xs sz"
    and "first_fit (request_size sz) xs = None"
  shows "\<exists>h' p xs'. mymalloc vmalloc h sz = Some (h', p) \<and> heap_rep h' xs' \<and>
    heap_lock h' = 0 \<and> malloc_count h' = malloc_count h + 1 \<and> coalesced xs' \<and> granted xs sz xs' p"
proof (cases "vmalloc (extend_bytes (request_size sz)) = 0")
  case True
  then have "mymalloc vmalloc h sz = Some (unlock_heap (entered h), 0)"
    unfolding mymalloc_unfold [OF assms(2,1)] assms(5) by (simp add: extend_fails serve_def)
  with assms show ?thesis by (simp add: unlock_heap_def granted_def)
next
  case False
  have "heap_rep (entered h) xs" using assms(1) by simp
  from extend_served [OF this assms(3-5) False] obtain h1 b pre t ys where
    e: "extend_heap vmalloc (entered h) (request_size sz) = Some (h1, b)" "same_rest (entered h) h1"
    "heap_rep h1 (pre @ (b, t, True) # ys)" and c: "coalesced (pre @ (b, t, True) # ys)"
    and u: "used xs = used pre \<union> used ys" and fit: "unat (request_size sz) \<le> unat t" by blast
  obtain h' where h': "mymalloc vmalloc h sz = Some (h', b + BLK)" "heap_lock h' = 0"
    "malloc_count h' = malloc_count h + 1"
    "heap_rep h' (pre @ claim_block (request_size sz) b t ys)"
    using mymalloc_grow [OF assms(1,2,5) e] served_request(1) [OF conjunct1 [OF assms(4)]] by blast
  have "granted xs sz (pre @ claim_block (request_size sz) b t ys) (b + BLK)"
    using heap_rep_head_unused [OF e(3)] assms(4) fit u
    by (intro grantedI [OF h'(4)]) (simp_all add: fresh_answer_def)
  moreover have "coalesced (pre @ claim_block (request_size sz) b t ys)"
    using c by (intro claim_coalesced [of _ _ _ True]) auto
  ultimately show ?thesis using h' by blast
qed

lemma mymalloc_granted:
  assumes "heap_rep h xs" "heap_lock h = 0" "coalesced xs" "served_by vmalloc xs sz"
  shows "\<exists>h' p xs'. mymalloc vmalloc h sz = Some (h', p) \<and> heap_rep h' xs' \<and>
    heap_lock h' = 0 \<and> malloc_count h' = malloc_count h + 1 \<and> coalesced xs' \<and> granted xs sz xs' p"
  using mymalloc_granted_reuse [OF assms] mymalloc_granted_grow [OF assms]
  by (cases "first_fit (request_size sz) xs") blast+

lemma myfree_released:
  assumes "heap_rep h xs" "heap_lock h = 0" "coalesced xs" "(a, s) \<in> used xs"
  shows "\<exists>h' xs'. myfree h (a + BLK) = Some h' \<and> heap_rep h' xs' \<and> heap_lock h' = 0 \<and>
    malloc_count h' = malloc_count h \<and> coalesced xs' \<and> used xs' = used xs - {(a, s)}"
proof -
  obtain pre post where xs: "xs = pre @ (a, s, False) # post"
    using assms(4) by (auto simp: used_def dest: split_list)
  have rep: "heap_rep h (pre @ (a, s, False) # post)" using assms(1) xs by simp
  have "layout 4096 (pre @ (a, s, False) # post)" using rep by (simp add: heap_rep_def)
  note l = layout_split_at [OF this]
  have "(a, s) \<notin> used pre \<union> used post" using l(1,2) used_addrs by blast
  then have "used (release pre a s post) = used xs - {(a, s)}"
    unfolding release_used xs by auto
  moreover have "coalesced (release pre a s post)"
    using assms(3) xs by (intro release_coalesced) (auto simp: coalesced_append coalesced_Cons)
  ultimately show ?thesis using myfree_rep [OF rep assms(2)] by blast
qed

end
