(* ===== verification/MallocSafe.thy ===== *)
theory MallocSafe
  imports MallocCalls
begin

text \<open>
  What clients of \<open>m5/mymalloc.c\<close> can rely on: an interface \<open>block_allocator\<close> with the laws of
  allocation and release, the disjointness of all live allocations derived from it, its
  interpretation on \<open>mymalloc\<close> and \<open>myfree\<close>, and the cases the laws do not cover.
\<close>

subsection \<open>Clients of an allocator\<close>

text \<open>A client run: the heap and the live allocations (pointer, requested size).  \<open>alloc\<close> is a
  relation because \<open>vmalloc\<close> may answer differently at every call.\<close>

inductive client ::
  "('h \<Rightarrow> u64 \<Rightarrow> 'h \<times> u64 \<Rightarrow> bool) \<Rightarrow> ('h \<Rightarrow> u64 \<Rightarrow> 'h option) \<Rightarrow> 'h \<Rightarrow> 'h \<Rightarrow> (u64 \<times> u64) list \<Rightarrow> bool"
  for alloc free start where
  client_start: "client alloc free start start []"
| client_alloc: "client alloc free start h live \<Longrightarrow> alloc h sz (h', p) \<Longrightarrow>
    client alloc free start h' (if p = 0 then live else (p, sz) # live)"
| client_free: "client alloc free start h live \<Longrightarrow> (p, n) \<in> set live \<Longrightarrow> free h p = Some h' \<Longrightarrow>
    client alloc free start h' (remove1 (p, n) live)"

text \<open>The payloads of two allocations do not overlap.\<close>

definition apart :: "u64 \<times> u64 \<Rightarrow> u64 \<times> u64 \<Rightarrow> bool" where
  "apart x y \<longleftrightarrow> unat (fst x) + unat (snd x) \<le> unat (fst y) \<or>
     unat (fst y) + unat (snd y) \<le> unat (fst x)"

text \<open>Every live allocation lies in a block in use, and no block in use is lost.\<close>

definition accounts :: "blk list \<Rightarrow> (u64 \<times> u64) list \<Rightarrow> bool" where
  "accounts xs live \<longleftrightarrow> distinct (map fst live) \<and>
     (\<lambda>x. fst x - BLK) ` set live = fst ` used xs \<and>
     (\<forall>(p, n) \<in> set live. \<exists>t. (p - BLK, t) \<in> used xs \<and> unat n \<le> unat t)"

locale block_allocator =
  fixes alloc :: "'h \<Rightarrow> u64 \<Rightarrow> 'h \<times> u64 \<Rightarrow> bool"
    and release_ptr :: "'h \<Rightarrow> u64 \<Rightarrow> 'h option"
    and start :: 'h
    and inv :: "'h \<Rightarrow> blk list \<Rightarrow> bool"
  assumes start_law: "\<exists>xs. inv start xs \<and> used xs = {}"
    and alloc_law: "inv h xs \<Longrightarrow> alloc h sz (h', p) \<Longrightarrow> \<exists>xs'. inv h' xs' \<and> granted xs sz xs' p"
    and free_law: "inv h xs \<Longrightarrow> (a, s) \<in> used xs \<Longrightarrow>
      \<exists>h' xs'. release_ptr h (a + BLK) = Some h' \<and> inv h' xs' \<and> used xs' = used xs - {(a, s)}"
    and layout_law: "inv h xs \<Longrightarrow> layout 4096 xs"
begin

lemma accounts_alloc:
  assumes "accounts xs live" "granted xs sz xs' p"
  shows "accounts xs' (if p = 0 then live else (p, sz) # live)"
proof (cases "p = 0")
  case False
  then obtain t where t: "used xs' = insert (p - BLK, t) (used xs)" "p - BLK \<notin> fst ` used xs"
    "unat sz \<le> unat t"
    using assms(2) by (auto simp: granted_def)
  then have "p - BLK \<notin> (\<lambda>x. fst x - BLK) ` set live" using assms(1) by (simp add: accounts_def)
  then have "p \<notin> fst ` set live" by auto
  with t assms(1) False show ?thesis by (auto simp: accounts_def)
qed (use assms in \<open>simp add: granted_def\<close>)

lemma accounts_free:
  assumes "accounts xs live" "(p, n) \<in> set live" "(p - BLK, s) \<in> used xs" "layout 4096 xs"
    and "used xs' = used xs - {(p - BLK, s)}"
  shows "accounts xs' (remove1 (p, n) live)"
proof -
  have d: "distinct (map fst live)" using assms(1) by (simp add: accounts_def)
  have set: "set (remove1 (p, n) live) = set live - {(p, n)}"
    using d by (simp add: set_remove1_eq distinct_map)
  have uniq: "s' = s" if "(p - BLK, s') \<in> used xs" for s'
    using that assms(3) layout_distinct [OF assms(4)] eq_key_imp_eq_value [of xs "p - BLK"]
    by (auto simp: used_def)
  have other: "q \<noteq> p" if "(q, m) \<in> set live" "(q, m) \<noteq> (p, n)" for q m
    using that assms(2) d eq_key_imp_eq_value by fastforce
  have "(\<lambda>x. fst x - BLK) ` (set live - {(p, n)}) = fst ` (used xs - {(p - BLK, s)})"
  proof -
    have "(\<lambda>x. fst x - BLK) ` (set live - {(p, n)}) = (\<lambda>x. fst x - BLK) ` set live - {p - BLK}"
      using other by force
    also have "\<dots> = fst ` used xs - {p - BLK}" using assms(1) by (simp add: accounts_def)
    also have "\<dots> = fst ` (used xs - {(p - BLK, s)})" using uniq by force
    finally show ?thesis .
  qed
  moreover have "distinct (map fst (remove1 (p, n) live))"
    using d by (simp add: distinct_map distinct_remove1 set inj_on_diff)
  moreover have "\<exists>t. (q - BLK, t) \<in> used xs' \<and> unat m \<le> unat t"
    if "(q, m) \<in> set live - {(p, n)}" for q m
    using that other [of q m] assms(1,5) by (fastforce simp: accounts_def)
  ultimately show ?thesis by (auto simp: accounts_def set assms(5))
qed

lemma client_accounts:
  "client alloc release_ptr start h live \<Longrightarrow> \<exists>xs. inv h xs \<and> accounts xs live"
proof (induction rule: client.induct)
  case client_start
  then show ?case using start_law by (auto simp: accounts_def)
next
  case (client_alloc h live sz h' p)
  then show ?case using alloc_law accounts_alloc by blast
next
  case (client_free h live p n h')
  then obtain xs where xs: "inv h xs" "accounts xs live" by blast
  with client_free obtain s where s: "(p - BLK, s) \<in> used xs" by (fastforce simp: accounts_def)
  then obtain xs' where "inv h' xs'" "used xs' = used xs - {(p - BLK, s)}"
    using free_law [OF xs(1) s] client_free by auto
  then show ?case using accounts_free [OF xs(2) _ s layout_law [OF xs(1)]] client_free by blast
qed

lemma client_free_progress:
  assumes "client alloc release_ptr start h live" "(p, n) \<in> set live"
  shows "\<exists>h'. release_ptr h p = Some h'"
proof -
  obtain xs where xs: "inv h xs" "accounts xs live" using client_accounts assms(1) by blast
  with assms(2) obtain s where "(p - BLK, s) \<in> used xs" by (fastforce simp: accounts_def)
  from free_law [OF xs(1) this] show ?thesis by auto
qed

lemma client_apart:
  assumes "client alloc release_ptr start h live" "x \<in> set live" "y \<in> set live" "x \<noteq> y"
  shows "apart x y"
proof -
  obtain xs where xs: "inv h xs" "accounts xs live" using client_accounts assms(1) by blast
  obtain p n where x: "x = (p, n)" by (cases x)
  obtain q m where y: "y = (q, m)" by (cases y)
  obtain s where s: "(p - BLK, s, False) \<in> set xs" "unat n \<le> unat s"
    using xs(2) assms(2) x by (fastforce simp: accounts_def used_def)
  obtain t where t: "(q - BLK, t, False) \<in> set xs" "unat m \<le> unat t"
    using xs(2) assms(3) y by (fastforce simp: accounts_def used_def)
  have "distinct (map fst live)" using xs(2) by (simp add: accounts_def)
  then have "p \<noteq> q" using assms(2-4) x y eq_key_imp_eq_value by fastforce
  then have ne: "p - BLK \<noteq> q - BLK" by simp
  have back32: "unat (a - BLK + BLK) = unat (a - BLK) + 32"
    if "(a - BLK, w, False) \<in> set xs" for a w
    using layout_in [OF layout_law [OF xs(1)] that] layout_le_endof [OF layout_law [OF xs(1)]]
    by (subst unat_plus_le) (auto simp: unat_BLK)
  from layout_disjoint [OF layout_law [OF xs(1)] s(1) t(1) ne] back32 [OF s(1)] back32 [OF t(1)] s(2) t(2)
  show ?thesis by (auto simp: apart_def x y)
qed

end

subsection \<open>mymalloc and myfree as an allocator\<close>

definition no_heap :: heap where
  "no_heap = \<lparr>mem = Map.empty, heap_head = 0, malloc_count = 0, heap_lock = 0\<rparr>"

definition heap_ok :: "heap \<Rightarrow> blk list \<Rightarrow> bool" where
  "heap_ok h xs \<longleftrightarrow> heap_rep h xs \<and> heap_lock h = 0 \<and> coalesced xs"

text \<open>A call of \<open>mymalloc\<close> under some \<open>vmalloc\<close> that answers with a fresh region, not misplaced.\<close>

definition malloc_call :: "heap \<Rightarrow> u64 \<Rightarrow> heap \<times> u64 \<Rightarrow> bool" where
  "malloc_call h sz r \<longleftrightarrow>
     (\<exists>vmalloc xs. heap_rep h xs \<and> served_by vmalloc xs sz \<and> mymalloc vmalloc h sz = Some r)"

lemma lseg_unique: "lseg m p q xs l 0 \<Longrightarrow> lseg m p q ys l' 0 \<Longrightarrow> xs = ys"
proof (induction m p q xs l "0 :: u64" arbitrary: ys rule: lseg.induct)
  case (1 m p q l)
  then show ?case by (cases ys) auto
next
  case (2 m p q a s f xs l)
  then show ?case by (cases ys) auto
qed

lemma heap_rep_unique: "heap_rep h xs \<Longrightarrow> heap_rep h ys \<Longrightarrow> xs = ys"
  using lseg_unique by (auto simp: heap_rep_def)

interpretation mm: block_allocator malloc_call myfree no_heap heap_ok
proof
  show "\<exists>xs. heap_ok no_heap xs \<and> used xs = {}"
    by (intro exI [of _ "[]"]) (simp add: heap_ok_def heap_rep_def no_heap_def)
next
  fix h xs sz h' p
  assume *: "heap_ok h xs" "malloc_call h sz (h', p)"
  then obtain vmalloc ys where ys: "heap_rep h ys" "served_by vmalloc ys sz"
    "mymalloc vmalloc h sz = Some (h', p)" by (auto simp: malloc_call_def)
  with * have "ys = xs" using heap_rep_unique by (auto simp: heap_ok_def)
  with * ys mymalloc_granted [of h xs vmalloc sz]
  show "\<exists>xs'. heap_ok h' xs' \<and> granted xs sz xs' p" by (auto simp: heap_ok_def)
next
  fix h xs a s
  assume "heap_ok h xs" "(a, s) \<in> used xs"
  then show "\<exists>h' xs'. myfree h (a + BLK) = Some h' \<and> heap_ok h' xs' \<and> used xs' = used xs - {(a, s)}"
    using myfree_released [of h xs a s] by (auto simp: heap_ok_def)
next
  fix h xs
  assume "heap_ok h xs"
  then show "layout 4096 xs" by (simp add: heap_ok_def heap_rep_def)
qed

text \<open>Any client of \<open>mymalloc\<close> and \<open>myfree\<close>, with any \<open>vmalloc\<close> that answers with fresh regions, which may
  lie anywhere and be another one at every call: the heap, the live allocations, and whether a chunk was misplaced so far.\<close>

inductive heap_run :: "heap \<Rightarrow> (u64 \<times> u64) list \<Rightarrow> bool \<Rightarrow> bool" where
  run_start: "heap_run no_heap [] False"
| run_malloc: "heap_run h live mis \<Longrightarrow> heap_rep h xs \<Longrightarrow> fresh_answer vmalloc xs sz \<Longrightarrow>
    mymalloc vmalloc h sz = Some (h', p) \<Longrightarrow>
    heap_run h' (if p = 0 then live else (p, sz) # live) (mis \<or> misplaced vmalloc xs sz)"
| run_free: "heap_run h live mis \<Longrightarrow> (p, n) \<in> set live \<Longrightarrow> myfree h p = Some h' \<Longrightarrow>
    heap_run h' (remove1 (p, n) live) mis"

lemma heap_run_client: "heap_run h live mis \<Longrightarrow> \<not> mis \<Longrightarrow> client malloc_call myfree no_heap h live"
proof (induction rule: heap_run.induct)
  case (run_malloc h live mis xs vmalloc sz h' p)
  then have "malloc_call h sz (h', p)" by (auto simp: malloc_call_def)
  with run_malloc show ?case by (blast intro: client_alloc)
qed (auto intro: client.intros)

subsection \<open>Concrete heaps\<close>

text \<open>One free block, and one block in use, of 65504 bytes at address 65536.\<close>

definition one_block :: "bool \<Rightarrow> heap" where
  "one_block f = \<lparr>mem = [65536 \<mapsto> \<lparr>bsize = 65504, bfree = f, bprev = 0, bnext = 0\<rparr>],
     heap_head = 65536, malloc_count = 0, heap_lock = 0\<rparr>"

lemma one_block_ok: "heap_ok (one_block f) [(65536, 65504, f)]"
  by (simp add: heap_ok_def heap_rep_def one_block_def)

lemma request_100: "request_size 100 = 104" "extend_bytes 104 = 65536"
  by (simp_all add: request_size_def align_up_def MIN_PAYLOAD_def extend_bytes_def page_round_def
      PAGE_SIZE_def CHUNK_SIZE_def BLK_def)

lemma fit_100:
  "first_fit 104 [(65536, 65504, True)] = Some (65536, 65504, True)"
  "first_fit 104 [(65536, 65504, False)] = None"
  "first_fit 104 [] = None"
  by (simp_all add: first_fit_def request_100)

lemma merge_next_stays:
  "post = [] \<or> joins (a, s, f) (hd post) \<Longrightarrow> merge_next (a, s, f) post = (a, s, f) # post"
  by (cases rule: merge_next_cases [of a s f post]) auto

text \<open>What happens with a chunk that is misplaced above \<open>p\<close>.\<close>

lemma predecessor_returned:
  assumes "heap_rep h xs" "heap_lock h = 0" "first_fit (request_size sz) xs = None"
    and "unat sz \<le> 2 ^ 63" "vmalloc (extend_bytes (request_size sz)) = r"
    and "good_chunk r (extend_bytes (request_size sz)) xs"
    and "below r xs = pre @ [(p, q, f)]" "\<not> (f \<and> p + BLK + q = r)"
  shows "\<exists>h' xs'. mymalloc vmalloc h sz = Some (h', p + BLK) \<and> heap_rep h' xs' \<and> heap_lock h' = 0 \<and>
    malloc_count h' = malloc_count h + 1"
    and "(p, q) \<in> used xs \<or> (p, q, True) \<in> set xs \<and> unat q < unat (request_size sz)"
proof -
  let ?ext = "extend_bytes (request_size sz) - BLK"
  have m: "merge_next (p, q, f) ((r, ?ext, True) # above r xs) = (p, q, f) # (r, ?ext, True) # above r xs"
    using assms(8) by (intro merge_next_stays) auto
  obtain h1 where h1: "extend_heap vmalloc (entered h) (request_size sz) = Some (h1, p)"
    "same_rest (entered h) h1" "heap_rep h1 (pre @ (p, q, f) # (r, ?ext, True) # above r xs)"
    using extend_above [of "entered h" xs vmalloc _ r, OF _ assms(5-7) m] assms(1) m by auto
  have "unat sz \<le> 2 ^ 64 - 8" using assms(4) by simp
  from request_size_fits(3) [OF this] assms(4) have "unat (request_size sz) + 40 < 2 ^ 64"
    by (simp add: max_def split: if_splits)
  from mymalloc_grow [OF assms(1-3) h1 this]
  show "\<exists>h' xs'. mymalloc vmalloc h sz = Some (h', p + BLK) \<and> heap_rep h' xs' \<and> heap_lock h' = 0 \<and>
    malloc_count h' = malloc_count h + 1" by blast
  have "(p, q, f) \<in> set xs"
    using assms(7) set_takeWhileD [of "(p, q, f)" _ xs] by (metis in_set_conv_decomp)
  then show "(p, q) \<in> used xs \<or> (p, q, True) \<in> set xs \<and> unat q < unat (request_size sz)"
    using assms(3) by (cases f) (auto simp: used_def first_fit_None word_less_nat_alt)
qed

lemma mymalloc_misplaced:
  assumes "heap_rep h xs" "heap_lock h = 0" "fresh_answer vmalloc xs sz" "misplaced vmalloc xs sz"
  shows "\<exists>h' p xs'. mymalloc vmalloc h sz = Some (h', p) \<and> heap_rep h' xs' \<and> heap_lock h' = 0 \<and>
    malloc_count h' = malloc_count h + 1 \<and>
    (\<exists>a s. p = a + BLK \<and> ((a, s) \<in> used xs \<or> (a, s, True) \<in> set xs \<and> unat s < unat (request_size sz)))"
proof -
  let ?r = "vmalloc (extend_bytes (request_size sz))"
  obtain p q f where l: "last (below ?r xs) = (p, q, f)" by (cases "last (below ?r xs)")
  have a: "first_fit (request_size sz) xs = None" "unat sz \<le> 2 ^ 63" "?r \<noteq> 0" "below ?r xs \<noteq> []"
    "\<not> (f \<and> p + BLK + q = ?r)" "good_chunk ?r (extend_bytes (request_size sz)) xs"
    using assms(3,4) l by (auto simp: fresh_answer_def misplaced_def Let_def)
  have "below ?r xs = butlast (below ?r xs) @ [(p, q, f)]" using a(4) l by (metis append_butlast_last_id)
  from predecessor_returned [of h xs sz vmalloc, OF assms(1,2) a(1,2) refl a(6) this a(5)] show ?thesis by blast
qed

subsection \<open>Properties\<close>

text \<open>
  C23: \<open>request_size\<close> rounds a request up to a multiple of 8, at least 8, for all sizes up to
  \<open>2 ^ 64 - 8\<close>; above that the 64-bit sum wraps and the request becomes 0 bytes, so \<open>mymalloc\<close>
  hands out some block for a request that no block can hold.
\<close>
theorem request_size_value:
  "unat (request_size sz) =
    (if unat sz \<le> 2 ^ 64 - 8 then (max 8 (unat sz) + 7) div 8 * 8 else 0)"
proof (cases "unat sz \<le> 2 ^ 64 - 8")
  case True
  let ?r = "unat (request_size sz)" and ?m = "max 8 (unat sz)"
  obtain k where k: "?r = 8 * k" using request_dvd by (auto elim: dvdE)
  have "?m \<le> 8 * k" "8 * k < ?m + 8" using request_size_fits [OF True] unfolding k by auto
  then have "(?m + 7) div 8 = k" by linarith
  with True k show ?thesis by simp
next
  case False
  then show ?thesis by (simp add: request_size_wraps)
qed

text \<open>
  C7: On a well-formed heap with the lock free, for requests up to \<open>2 ^ 63\<close> and any \<open>vmalloc\<close> that fails or
  gives a fresh region, \<open>mymalloc\<close> returns, releases the lock, counts the
  call, and leaves a well-formed heap.  It returns NULL with all
  blocks unchanged, or a pointer to one block not in use before, which is the only new block in
  use, has room for the request and wastes less than 48 bytes, and no free blocks are adjacent; except when the
  new chunk is misplaced, right after a block in the list that it cannot be merged with: exactly then the payload of that block is
  returned, which is in use or too small for the request.
\<close>
theorem mymalloc_serves:
  assumes "heap_rep h xs" "heap_lock h = 0" "coalesced xs" "fresh_answer vmalloc xs sz"
  shows "\<exists>h' p xs'. mymalloc vmalloc h sz = Some (h', p) \<and> heap_rep h' xs' \<and>
    heap_lock h' = 0 \<and> malloc_count h' = malloc_count h + 1 \<and>
    (if misplaced vmalloc xs sz
     then \<exists>a s. p = a + BLK \<and> ((a, s) \<in> used xs \<or> (a, s, True) \<in> set xs \<and> unat s < unat (request_size sz))
     else coalesced xs' \<and> granted xs sz xs' p)"
  using mymalloc_granted [OF assms(1-3), of vmalloc sz] mymalloc_misplaced [OF assms(1,2,4)] assms(4)
  by (cases "misplaced vmalloc xs sz") simp_all

lemma first_served: "fresh_answer (\<lambda>n. 65536) [] 100 \<and> \<not> misplaced (\<lambda>n. 65536) [] 100"
  by (simp add: fresh_answer_def misplaced_def fit_100 Let_def good_chunk_def fresh_region_def request_100)

theorem mymalloc_serves_witness:
  "\<exists>h' p xs'. mymalloc (\<lambda>n. 65536) no_heap 100 = Some (h', p) \<and> heap_rep h' xs' \<and>
    heap_lock h' = 0 \<and> malloc_count h' = malloc_count no_heap + 1 \<and> coalesced xs' \<and>
    granted [] 100 xs' p"
  using mymalloc_serves [of no_heap "[]" "\<lambda>n. 65536" 100] first_served
  by (simp add: heap_rep_def no_heap_def)

text \<open>
  C20: \<open>myfree\<close> of the payload of a block in use returns, releases the lock, takes exactly that
  block out of use and leaves a well-formed heap in which no two free blocks touch.
\<close>
theorem myfree_frees:
  assumes "heap_rep h xs" "heap_lock h = 0" "coalesced xs" "(a, s) \<in> used xs"
  shows "\<exists>h' xs'. myfree h (a + BLK) = Some h' \<and> heap_rep h' xs' \<and> heap_lock h' = 0 \<and>
    malloc_count h' = malloc_count h \<and> coalesced xs' \<and> used xs' = used xs - {(a, s)}"
  by (rule myfree_released [OF assms])

theorem myfree_frees_witness:
  "\<exists>h' xs'. myfree (one_block False) (65536 + BLK) = Some h' \<and> heap_rep h' xs' \<and> heap_lock h' = 0 \<and>
    malloc_count h' = malloc_count (one_block False) \<and> coalesced xs' \<and>
    used xs' = used [(65536, 65504, False)] - {(65536, 65504)}"
  by (rule myfree_frees)
    (use one_block_ok [of False] in \<open>simp_all add: heap_ok_def one_block_def\<close>)

text \<open>
  C13: However calls of \<open>mymalloc\<close> (of at most \<open>2 ^ 63\<close> bytes) and \<open>myfree\<close> of live pointers are
  interleaved from the empty heap, with \<open>vmalloc\<close> failing or giving fresh regions: as long as no chunk was
  misplaced, the payloads of two live allocations do not overlap, the live
  pointers are distinct, and freeing a live pointer succeeds.
\<close>
theorem live_allocations_apart:
  assumes "heap_run h live mis"
  shows "mis \<or> (distinct (map fst live) \<and> pairwise apart (set live) \<and>
    (\<forall>(p, n) \<in> set live. myfree h p \<noteq> None))"
proof (cases mis)
  case False
  note c = heap_run_client [OF assms False]
  show ?thesis
    using mm.client_accounts [OF c] mm.client_apart [OF c] mm.client_free_progress [OF c]
    by (auto simp: accounts_def pairwise_def)
qed simp

text \<open>Two calls from the empty heap, the first of which fetches a chunk.\<close>

definition heap_1 :: heap where
  "heap_1 = \<lparr>mem = [65536 \<mapsto> \<lparr>bsize = 104, bfree = False, bprev = 0, bnext = 65672\<rparr>,
       65672 \<mapsto> \<lparr>bsize = 65368, bfree = True, bprev = 65536, bnext = 0\<rparr>],
     heap_head = 65536, malloc_count = 1, heap_lock = 0\<rparr>"

definition heap_2 :: heap where
  "heap_2 = \<lparr>mem = [65536 \<mapsto> \<lparr>bsize = 104, bfree = False, bprev = 0, bnext = 65672\<rparr>,
       65672 \<mapsto> \<lparr>bsize = 104, bfree = False, bprev = 65536, bnext = 65808\<rparr>,
       65808 \<mapsto> \<lparr>bsize = 65232, bfree = True, bprev = 65672, bnext = 0\<rparr>],
     heap_head = 65536, malloc_count = 2, heap_lock = 0\<rparr>"

lemmas malloc_eval = mymalloc_def Let_def lock_heap_def unlock_heap_def find_free_block_def
  find_free_from.simps request_100 extend_heap_def insert_block_def coalesce_with_next_def
  split_block_def upd_def BLK_def MIN_PAYLOAD_def fun_eq_iff

lemma first_call: "mymalloc (\<lambda>n. 65536) no_heap 100 = Some (heap_1, 65568)"
  by (simp add: malloc_eval no_heap_def heap_1_def)

lemma second_call: "mymalloc (\<lambda>n. 0) heap_1 100 = Some (heap_2, 65704)"
  by (simp add: malloc_eval heap_1_def heap_2_def)

lemma second_served:
  "fresh_answer (\<lambda>n. 0) [(65536, 104, False), (65672, 65368, True)] 100 \<and>
   \<not> misplaced (\<lambda>n. 0) [(65536, 104, False), (65672, 65368, True)] 100"
  by (simp add: fresh_answer_def misplaced_def first_fit_def request_100)

lemma heap_1_rep: "heap_rep heap_1 [(65536, 104, False), (65672, 65368, True)]"
  by (simp add: heap_rep_def heap_1_def)

lemma two_calls: "heap_run heap_2 [(65704, 100), (65568, 100)] False"
proof -
  have "heap_rep no_heap []" by (simp add: heap_rep_def no_heap_def)
  from run_malloc [OF run_start this conjunct1 [OF first_served] first_call] first_served
  have 1: "heap_run heap_1 [(65568, 100)] False" by simp
  from run_malloc [OF 1 heap_1_rep conjunct1 [OF second_served] second_call] second_served
  show ?thesis by simp
qed

theorem live_allocations_apart_witness:
  "apart (65704, 100) (65568, 100) \<and> myfree heap_2 65704 \<noteq> None \<and> myfree heap_2 65568 \<noteq> None"
  using live_allocations_apart [OF two_calls] by (simp add: pairwise_insert)

text \<open>Taking a block and giving it back restores the list of blocks.\<close>

lemma release_claimed:
  assumes "coalesced (pre @ (a, s, True) # post)"
    and "claim_block rs a s post = (a, t, False) # ys"
  shows "release pre a t ys = pre @ (a, s, True) # post"
proof -
  have c: "post = [] \<or> joins (a, s, True) (hd post)" "pre = [] \<or> joins (last pre) (a, s, True)"
    using assms(1) by (auto simp: coalesced_append coalesced_Cons)
  have m: "merge_next (a, t, True) ys = (a, s, True) # post"
  proof (cases "unat s < unat rs + 40")
    case True
    with assms(2) merge_next_stays [OF c(1)] show ?thesis by (simp add: claim_block_def)
  next
    case False
    with assms(2) show ?thesis by (auto simp: claim_block_def merge_next_def)
  qed
  show ?thesis
  proof (cases "pre = []")
    case False
    then obtain p q g where l: "last pre = (p, q, g)" by (cases "last pre")
    then have "joins (p, q, g) (hd ((a, s, True) # post))" using c(2) False by simp
    then have "merge_next (p, q, g) ((a, s, True) # post) = (p, q, g) # (a, s, True) # post"
      by (intro merge_next_stays disjI2)
    moreover have "pre = butlast pre @ [(p, q, g)]" using False l by (metis append_butlast_last_id)
    then have "butlast pre @ (p, q, g) # (a, s, True) # post = pre @ (a, s, True) # post"
      by (metis append.assoc append_Cons append_Nil)
    ultimately show ?thesis by (simp add: release_def m False l)
  qed (simp add: release_def m)
qed

text \<open>
  C21: A block that \<open>mymalloc\<close> takes from the free blocks and \<open>myfree\<close> gives back at once leaves
  the heap with exactly the blocks, sizes and free flags it had before: splitting is undone by
  coalescing.
\<close>
theorem malloc_free_roundtrip:
  assumes "heap_rep h xs" "heap_lock h = 0" "coalesced xs"
    and "first_fit (request_size sz) xs = Some (a, s, True)"
  shows "\<exists>h' h''. mymalloc vmalloc h sz = Some (h', a + BLK) \<and>
    myfree h' (a + BLK) = Some h'' \<and> heap_rep h'' xs \<and> heap_lock h'' = 0"
proof -
  from first_fit_Some [OF assms(4)] obtain pre post
    where xs: "xs = pre @ (a, s, True) # post" and "request_size sz \<le> s" by metis
  then obtain h' where h': "mymalloc vmalloc h sz = Some (h', a + BLK)" "heap_lock h' = 0"
    "heap_rep h' (pre @ claim_block (request_size sz) a s post)"
    using mymalloc_reuse [of h pre a s post sz vmalloc] assms request_dvd
    by (auto simp: word_le_nat_alt)
  obtain t ys where c: "claim_block (request_size sz) a s post = (a, t, False) # ys"
    by (cases "unat s < unat (request_size sz) + 40") (auto simp: claim_block_def)
  from h'(3) have "heap_rep h' (pre @ (a, t, False) # ys)" unfolding c .
  from myfree_rep [OF this h'(2)] release_claimed [OF _ c] assms(3) xs h'(1) show ?thesis by auto
qed

theorem malloc_free_roundtrip_witness:
  "\<exists>h' h''. mymalloc (\<lambda>n. 0) (one_block True) 100 = Some (h', 65536 + BLK) \<and>
    myfree h' (65536 + BLK) = Some h'' \<and> heap_rep h'' [(65536, 65504, True)] \<and> heap_lock h'' = 0"
  by (rule malloc_free_roundtrip [where s = 65504])
    (use one_block_ok [of True] in \<open>simp_all add: heap_ok_def fit_100 request_100\<close>)

text \<open>
  C22: If no block fits and \<open>vmalloc\<close> gives a chunk above a block \<open>p\<close> that is in use or does not end
  where the chunk starts, \<open>extend_heap\<close> moves to that predecessor without checking that it merged,
  and \<open>mymalloc\<close> returns the payload of \<open>p\<close>: memory that is already in use, or a block that is too
  small for the request.
\<close>
theorem mymalloc_returns_predecessor:
  assumes "heap_rep h xs" "heap_lock h = 0" "first_fit (request_size sz) xs = None"
    and "unat sz \<le> 2 ^ 63" "vmalloc (extend_bytes (request_size sz)) = r"
    and "good_chunk r (extend_bytes (request_size sz)) xs"
    and "below r xs = pre @ [(p, q, f)]" "\<not> (f \<and> p + BLK + q = r)"
  shows "(\<exists>h'. mymalloc vmalloc h sz = Some (h', p + BLK)) \<and>
    ((p, q) \<in> used xs \<or> unat q < unat (request_size sz))"
  using predecessor_returned [of h xs sz vmalloc, OF assms] by blast

theorem mymalloc_returns_predecessor_witness:
  "(\<exists>h'. mymalloc (\<lambda>n. 262144) (one_block False) 100 = Some (h', 65536 + BLK)) \<and>
    ((65536, 65504) \<in> used [(65536, 65504, False)] \<or> unat (65504 :: u64) < unat (request_size 100))"
  by (rule mymalloc_returns_predecessor [where pre = "[]" and f = False and r = 262144])
    (use one_block_ok [of False] in \<open>simp_all add: heap_ok_def fit_100 request_100 good_chunk_def
      fresh_region_def BLK_def one_block_def\<close>)

end
