(* ===== verification/SpinLock.thy ===== *)
theory SpinLock
  imports Main
begin

text \<open>
  The interface of a spin lock and what follows from it.  A lock is tried by one atomic operation,
  which returns the new lock and whether the caller has it, and is released by another.  Threads
  that lock and unlock interleave; at most one of them is between the two.  The locks of \<open>m5\<close> and
  \<open>m6\<close> are instances.
\<close>

text \<open>Threads outside, in the loop of \<open>spin_lock\<close>, and between lock and unlock.\<close>

datatype lock_pc = Outside | Spinning | Holding

record 'l lock_state =
  lk :: 'l
  at :: "nat \<Rightarrow> lock_pc"

inductive lock_step ::
  "('l \<Rightarrow> 'l \<times> bool) \<Rightarrow> ('l \<Rightarrow> 'l) \<Rightarrow> nat \<Rightarrow> 'l lock_state \<Rightarrow> 'l lock_state \<Rightarrow> bool" for attempt release N where
  call_lock: "i < N \<Longrightarrow> at s i = Outside \<Longrightarrow>
    lock_step attempt release N s (s\<lparr>at := (at s)(i := Spinning)\<rparr>)"
| try_lock: "i < N \<Longrightarrow> at s i = Spinning \<Longrightarrow> attempt (lk s) = (v, got) \<Longrightarrow>
    lock_step attempt release N s (s\<lparr>lk := v, at := (at s)(i := if got then Holding else Spinning)\<rparr>)"
| call_unlock: "i < N \<Longrightarrow> at s i = Holding \<Longrightarrow>
    lock_step attempt release N s (s\<lparr>lk := release (lk s), at := (at s)(i := Outside)\<rparr>)"

definition lock_start :: "'l \<Rightarrow> 'l lock_state" where
  "lock_start l = \<lparr>lk = l, at = \<lambda>_. Outside\<rparr>"

definition holders :: "nat \<Rightarrow> 'l lock_state \<Rightarrow> nat set" where
  "holders N s = {i. i < N \<and> at s i = Holding}"

lemma holders_upd [simp]:
  "i < N \<Longrightarrow> holders N (s\<lparr>at := (at s)(i := q)\<rparr>) =
     (if q = Holding then insert i (holders N s) else holders N s - {i})"
  "holders N (s\<lparr>lk := v\<rparr>) = holders N s"
  "holders N (s\<lparr>lk := v, at := f\<rparr>) = holders N (s\<lparr>at := f\<rparr>)"
  by (auto simp: holders_def split: if_splits)

lemma holders_in: "i < N \<Longrightarrow> i \<in> holders N s \<longleftrightarrow> at s i = Holding"
  by (simp add: holders_def)

locale spin_lock =
  fixes attempt :: "'l \<Rightarrow> 'l \<times> bool"
    and release :: "'l \<Rightarrow> 'l"
    and free :: "'l \<Rightarrow> bool"
  assumes takes_law: "free l \<Longrightarrow> \<exists>l'. attempt l = (l', True) \<and> \<not> free l'"
    and waits_law: "\<not> free l \<Longrightarrow> \<exists>l'. attempt l = (l', False) \<and> \<not> free l'"
    and release_law: "free (release l)"
begin

text \<open>Free with nobody inside, or taken with exactly one thread inside.\<close>

definition lock_inv :: "nat \<Rightarrow> 'l lock_state \<Rightarrow> bool" where
  "lock_inv N s \<longleftrightarrow> (if free (lk s) then holders N s = {} else \<exists>i. holders N s = {i})"

lemma inv_step: "lock_step attempt release N s s' \<Longrightarrow> lock_inv N s \<Longrightarrow> lock_inv N s'"
proof (induction rule: lock_step.induct)
  case (call_lock i s)
  then have "i \<notin> holders N s" by (simp add: holders_in)
  with call_lock show ?case by (simp add: lock_inv_def)
next
  case (try_lock i s v got)
  then have "i \<notin> holders N s" by (simp add: holders_in)
  then show ?case using try_lock takes_law [of "lk s"] waits_law [of "lk s"]
    by (cases "free (lk s)") (auto simp: lock_inv_def)
next
  case (call_unlock i s)
  then have "i \<in> holders N s" by (simp add: holders_in)
  then show ?case using call_unlock release_law by (auto simp: lock_inv_def split: if_splits)
qed

lemma inv_start: "free l \<Longrightarrow> lock_inv N (lock_start l)"
  by (simp add: lock_inv_def lock_start_def holders_def)

lemma reachable_inv:
  "(lock_step attempt release N)\<^sup>*\<^sup>* (lock_start l) s \<Longrightarrow> free l \<Longrightarrow> lock_inv N s"
  by (induction rule: rtranclp_induct) (auto intro: inv_start inv_step)

lemma excludes: "lock_inv N s \<Longrightarrow> i < N \<Longrightarrow> j < N \<Longrightarrow> at s i = Holding \<Longrightarrow> at s j = Holding \<Longrightarrow> i = j"
  using holders_in [of i N s] holders_in [of j N s] by (auto simp: lock_inv_def split: if_splits)

lemma held: "lock_inv N s \<Longrightarrow> free (lk s) \<longleftrightarrow> (\<forall>i < N. at s i \<noteq> Holding)"
  by (auto simp: lock_inv_def holders_def split: if_splits)

text \<open>A waiting thread gets the lock with its next try once the holder has released it.\<close>

lemma hands_over:
  assumes "i < N" "j < N" "at s i = Holding" "at s j = Spinning"
  shows "\<exists>s' s''. lock_step attempt release N s s' \<and> lock_step attempt release N s' s'' \<and>
    at s'' j = Holding \<and> at s'' i = Outside"
proof -
  let ?s = "s\<lparr>lk := release (lk s), at := (at s)(i := Outside)\<rparr>"
  have "lock_step attempt release N s ?s" using assms call_unlock by blast
  moreover obtain l where "attempt (lk ?s) = (l, True)" using takes_law [OF release_law, of "lk s"] by auto
  then have "lock_step attempt release N ?s (?s\<lparr>lk := l, at := (at ?s)(j := if True then Holding else Spinning)\<rparr>)"
    using assms by (intro try_lock) auto
  ultimately show ?thesis using assms
    by (intro exI [of _ ?s] exI [of _ "?s\<lparr>lk := l, at := (at ?s)(j := if True then Holding else Spinning)\<rparr>"] conjI) auto
qed

end

end
