(* ===== verification/MallocThreads.thy ===== *)
theory MallocThreads
  imports MallocSafe SpinLock "HOL-Library.Multiset"
begin

text \<open>
  \<open>m5/mymalloc.c\<close> with several threads: every thread takes the spin lock by an atomic exchange, works
  on the heap and releases the lock, and the steps of all threads interleave.  At most one thread
  is between lock and unlock, and the heap is always that of a sequential client.
\<close>

subsection \<open>What the calls do while they hold the lock\<close>

definition malloc_body :: "(u64 \<Rightarrow> u64) \<Rightarrow> heap \<Rightarrow> u64 \<Rightarrow> (heap \<times> u64) option" where
  "malloc_body vmalloc h sz =
     (let sz = request_size sz; h = h\<lparr>malloc_count := malloc_count h + 1\<rparr> in do {
        block \<leftarrow> find_free_block h sz;
        (h, block) \<leftarrow> (if block = 0 then extend_heap vmalloc h sz else Some (h, block));
        if block = 0 then Some (h, 0)
        else do {
          h \<leftarrow> split_block h block sz;
          h \<leftarrow> upd h block (\<lambda>b. b\<lparr>bfree := False\<rparr>);
          Some (h, block + BLK) } })"

definition free_body :: "heap \<Rightarrow> u64 \<Rightarrow> heap option" where
  "free_body h ptr =
     (let block = ptr - BLK in do {
        h \<leftarrow> upd h block (\<lambda>b. b\<lparr>bfree := True\<rparr>);
        h \<leftarrow> coalesce_with_next h block;
        b \<leftarrow> mem h block;
        if bprev b \<noteq> 0 then coalesce_with_next h (bprev b) else Some h })"

lemma mymalloc_body:
  "mymalloc vmalloc h sz =
     (if heap_lock h = 0
      then map_option (\<lambda>(h', p). (unlock_heap h', p)) (malloc_body vmalloc (h\<lparr>heap_lock := 1\<rparr>) sz)
      else None)"
  unfolding mymalloc_def malloc_body_def lock_heap_def Let_def
  by (auto simp: map_option_case split: Option.bind_split option.split)

lemma myfree_body:
  "myfree h ptr =
     (if ptr = 0 then Some h
      else if heap_lock h = 0 then map_option unlock_heap (free_body (h\<lparr>heap_lock := 1\<rparr>) ptr)
      else None)"
  unfolding myfree_def free_body_def lock_heap_def Let_def
  by (auto simp: map_option_case split: Option.bind_split option.split)

text \<open>None of the routines touches the lock.\<close>

named_theorems keeps_lock

lemma upd_lock [keeps_lock]: "upd h a g = Some h' \<Longrightarrow> heap_lock h' = heap_lock h"
  by (auto simp: upd_def bind_eq_Some_conv)

lemma coalesce_lock [keeps_lock]: "coalesce_with_next h a = Some h' \<Longrightarrow> heap_lock h' = heap_lock h"
  by (auto simp: coalesce_with_next_def bind_eq_Some_conv split: if_splits dest!: keeps_lock)

lemma insert_lock [keeps_lock]: "insert_block h a = Some h' \<Longrightarrow> heap_lock h' = heap_lock h"
  by (auto simp: insert_block_def bind_eq_Some_conv split: if_splits dest!: keeps_lock)

lemma split_lock [keeps_lock]: "split_block h a sz = Some h' \<Longrightarrow> heap_lock h' = heap_lock h"
  by (auto simp: split_block_def bind_eq_Some_conv Let_def split: if_splits dest!: keeps_lock)

lemma extend_lock [keeps_lock]: "extend_heap v h sz = Some (h', p) \<Longrightarrow> heap_lock h' = heap_lock h"
  by (auto simp: extend_heap_def bind_eq_Some_conv Let_def split: if_splits dest!: keeps_lock)

lemma malloc_body_lock:
  assumes "malloc_body v h sz = Some (h', p)"
  shows "heap_lock h' = heap_lock h"
proof -
  obtain b h1 c where 1: "(if b = 0 then extend_heap v (h\<lparr>malloc_count := malloc_count h + 1\<rparr>) (request_size sz)
        else Some (h\<lparr>malloc_count := malloc_count h + 1\<rparr>, b)) = Some (h1, c)"
    and 2: "(if c = 0 then Some (h1, 0) else do {
          h \<leftarrow> split_block h1 c (request_size sz);
          h \<leftarrow> upd h c (\<lambda>b. b\<lparr>bfree := False\<rparr>);
          Some (h, c + BLK) }) = Some (h', p)"
    using assms unfolding malloc_body_def Let_def by (auto simp: bind_eq_Some_conv)
  have "heap_lock h1 = heap_lock h" using 1 extend_lock by (fastforce split: if_splits)
  moreover have "heap_lock h' = heap_lock h1"
    using 2 split_lock upd_lock by (fastforce simp: bind_eq_Some_conv split: if_splits)
  ultimately show ?thesis by simp
qed

lemma free_body_lock: "free_body h p = Some h' \<Longrightarrow> heap_lock h' = heap_lock h"
  by (auto simp: free_body_def bind_eq_Some_conv Let_def split: if_splits dest!: keeps_lock)

subsection \<open>Threads\<close>

text \<open>A thread between its calls, spinning on the lock, holding the lock before and after its work on
  the heap.  \<open>Release p n\<close> frees the allocation \<open>p\<close> that was requested with size \<open>n\<close>.\<close>

datatype call = Alloc u64 | Release u64 u64

datatype pc = Idle | At_Lock call | Inside call | Leaving call u64

record mstate =
  mheap :: heap
  pcs :: "nat \<Rightarrow> pc"
  owned :: "(u64 \<times> u64) list"
  any_misplaced :: bool

abbreviation goto :: "mstate \<Rightarrow> nat \<Rightarrow> pc \<Rightarrow> mstate" where
  "goto s i q \<equiv> s\<lparr>pcs := (pcs s)(i := q)\<rparr>"

definition mstart :: mstate where
  "mstart = \<lparr>mheap = no_heap, pcs = \<lambda>_. Idle, owned = [], any_misplaced = False\<rparr>"

text \<open>What a return of the call adds to the allocations the threads own.\<close>

fun given :: "call \<Rightarrow> u64 \<Rightarrow> (u64 \<times> u64) list" where
  "given (Alloc sz) p = (if p = 0 then [] else [(p, sz)])"
| "given (Release q n) p = []"

text \<open>The steps of \<open>N\<close> threads.  The compare-and-exchange of \<open>spin_lock\<close> and the store of
  \<open>spin_unlock\<close> are single steps; a failed exchange is a step that changes nothing.  The work on the
  heap is one step: every access to it lies between lock and unlock, which exclude each other.  A
  pointer is given up when \<open>myfree\<close> is called with it, and may be freed by any thread.  \<open>vmalloc\<close> fails or
  gives a fresh region anywhere; \<open>any_misplaced\<close> records for the specification whether a chunk was misplaced.\<close>

inductive mstep :: "nat \<Rightarrow> mstate \<Rightarrow> mstate \<Rightarrow> bool" for N where
  call_malloc: "i < N \<Longrightarrow> pcs s i = Idle \<Longrightarrow> mstep N s (goto s i (At_Lock (Alloc sz)))"
| call_free: "i < N \<Longrightarrow> pcs s i = Idle \<Longrightarrow> (p, n) \<in> set (owned s) \<Longrightarrow>
    mstep N s (goto s i (At_Lock (Release p n))\<lparr>owned := remove1 (p, n) (owned s)\<rparr>)"
| spin: "i < N \<Longrightarrow> pcs s i = At_Lock c \<Longrightarrow> lock_heap (mheap s) = None \<Longrightarrow> mstep N s s"
| acquire: "i < N \<Longrightarrow> pcs s i = At_Lock c \<Longrightarrow> lock_heap (mheap s) = Some h \<Longrightarrow>
    mstep N s (goto s i (Inside c)\<lparr>mheap := h\<rparr>)"
| do_malloc: "i < N \<Longrightarrow> pcs s i = Inside (Alloc sz) \<Longrightarrow> heap_rep (mheap s) xs \<Longrightarrow>
    fresh_answer vmalloc xs sz \<Longrightarrow> malloc_body vmalloc (mheap s) sz = Some (h, p) \<Longrightarrow>
    mstep N s (goto s i (Leaving (Alloc sz) p)\<lparr>mheap := h,
      any_misplaced := any_misplaced s \<or> misplaced vmalloc xs sz\<rparr>)"
| do_free: "i < N \<Longrightarrow> pcs s i = Inside (Release p n) \<Longrightarrow> free_body (mheap s) p = Some h \<Longrightarrow>
    mstep N s (goto s i (Leaving (Release p n) 0)\<lparr>mheap := h\<rparr>)"
| leave: "i < N \<Longrightarrow> pcs s i = Leaving c p \<Longrightarrow>
    mstep N s (goto s i Idle\<lparr>mheap := unlock_heap (mheap s), owned := given c p @ owned s\<rparr>)"

text \<open>Who holds the lock, and the allocations that live between a thread and the heap.\<close>

fun critical :: "pc \<Rightarrow> bool" where
  "critical (Inside c) = True"
| "critical (Leaving c p) = True"
| "critical _ = False"

fun pending :: "pc \<Rightarrow> (u64 \<times> u64) multiset" where
  "pending (At_Lock (Release p n)) = {#(p, n)#}"
| "pending (Inside (Release p n)) = {#(p, n)#}"
| "pending (Leaving c p) = mset (given c p)"
| "pending _ = {#}"

definition in_transit :: "nat \<Rightarrow> (nat \<Rightarrow> pc) \<Rightarrow> (u64 \<times> u64) multiset" where
  "in_transit N ps = (\<Sum>i<N. pending (ps i))"

lemma in_transit_upd:
  assumes "i < N"
  shows "in_transit N (ps(i := q)) + pending (ps i) = in_transit N ps + pending q"
proof -
  have "in_transit N (ps(i := q)) = pending q + (\<Sum>j \<in> {..<N} - {i}. pending (ps j))"
    using assms by (simp add: in_transit_def sum.remove [of _ i])
  moreover have "in_transit N ps = pending (ps i) + (\<Sum>j \<in> {..<N} - {i}. pending (ps j))"
    using assms by (simp add: in_transit_def sum.remove [of _ i])
  ultimately show ?thesis by simp
qed

text \<open>The lock of the heap is a spin lock in the sense of \<open>SpinLock\<close>, taken by a compare-and-exchange; the
  other steps of a thread do not show there.  With the lock put aside the heap is that of a sequential client, whose live allocations are those the threads own and those
  in transit.\<close>

definition spin_cas :: "int \<Rightarrow> int \<times> bool" where
  "spin_cas l = (if l = 0 then (1, True) else (l, False))"

interpretation cas: spin_lock spin_cas "\<lambda>l. 0" "\<lambda>l. l = 0"
  by unfold_locales (auto simp: spin_cas_def)

fun lock_view :: "pc \<Rightarrow> lock_pc" where
  "lock_view Idle = Outside"
| "lock_view (At_Lock c) = Spinning"
| "lock_view (Inside c) = Holding"
| "lock_view (Leaving c p) = Holding"

definition lock_of :: "mstate \<Rightarrow> int lock_state" where
  "lock_of s = \<lparr>lk = heap_lock (mheap s), at = \<lambda>i. lock_view (pcs s i)\<rparr>"

definition mutex_ok :: "nat \<Rightarrow> mstate \<Rightarrow> bool" where
  "mutex_ok N s \<longleftrightarrow> cas.lock_inv N (lock_of s) \<and> (heap_lock (mheap s) = 0 \<or> heap_lock (mheap s) = 1)"

definition heap_shared :: "nat \<Rightarrow> mstate \<Rightarrow> bool" where
  "heap_shared N s \<longleftrightarrow>
     (\<exists>live. client malloc_call myfree no_heap (unlock_heap (mheap s)) live \<and>
        mset live = mset (owned s) + in_transit N (pcs s))"

lemma unlock_simps [simp]:
  "heap_lock (unlock_heap h) = 0"
  "unlock_heap (unlock_heap h) = unlock_heap h"
  "heap_rep (unlock_heap h) xs = heap_rep h xs"
  "heap_lock h = 0 \<Longrightarrow> unlock_heap h = h"
  "unlock_heap (h\<lparr>heap_lock := k\<rparr>) = unlock_heap h"
  by (simp_all add: unlock_heap_def)

lemma relock: "heap_lock h = 1 \<Longrightarrow> (unlock_heap h)\<lparr>heap_lock := 1\<rparr> = h"
  by (simp add: unlock_heap_def)

lemma lock_heap_cas:
  "lock_heap h = (case spin_cas (heap_lock h) of (l, got) \<Rightarrow> if got then Some (h\<lparr>heap_lock := l\<rparr>) else None)"
  by (simp add: lock_heap_def spin_cas_def)

lemma lock_of_goto: "lock_of (goto s i q) = lock_of s\<lparr>at := (at (lock_of s))(i := lock_view q)\<rparr>"
  by (auto simp: lock_of_def fun_eq_iff)

lemma lock_of_heap: "lock_of (s\<lparr>mheap := h\<rparr>) = lock_of s\<lparr>lk := heap_lock h\<rparr>"
  "lock_of (s\<lparr>owned := l\<rparr>) = lock_of s" "at (lock_of s) i = lock_view (pcs s i)" "lk (lock_of s) = heap_lock (mheap s)"
  "lock_of (s\<lparr>any_misplaced := b\<rparr>) = lock_of s"
  by (simp_all add: lock_of_def)

lemma lock_of_both:
  "lock_of (goto s i q\<lparr>mheap := h\<rparr>) =
     lock_of s\<lparr>lk := heap_lock h, at := (at (lock_of s))(i := lock_view q)\<rparr>"
  "lock_of (goto s i q\<lparr>mheap := h, owned := l\<rparr>) =
     lock_of s\<lparr>lk := heap_lock h, at := (at (lock_of s))(i := lock_view q)\<rparr>"
  by (auto simp: lock_of_def fun_eq_iff)

text \<open>A step is one of the lock, or leaves the lock and who has it as they are.\<close>

lemma lock_sim:
  "mstep N s s' \<Longrightarrow> lock_of s' = lock_of s \<or> lock_step spin_cas (\<lambda>l. 0) N (lock_of s) (lock_of s')"
proof (induction rule: mstep.induct)
  case (call_malloc i s sz)
  then show ?case using call_lock [of i N "lock_of s"] by (simp add: lock_of_goto lock_of_heap)
next
  case (call_free i s p n)
  then show ?case using call_lock [of i N "lock_of s"] by (simp add: lock_of_goto lock_of_heap)
next
  case (acquire i s c h)
  obtain l got where c: "spin_cas (heap_lock (mheap s)) = (l, got)" by (metis surj_pair)
  with acquire(3) have "got" "h = (mheap s)\<lparr>heap_lock := l\<rparr>" by (auto simp: lock_heap_cas split: if_splits)
  then show ?case using try_lock [of i N "lock_of s" spin_cas l got] acquire c
    by (simp add: lock_of_both lock_of_heap(3,4))
next
  case (do_malloc i s sz xs vmalloc h p)
  then have "lock_of (goto s i (Leaving (Alloc sz) p)\<lparr>mheap := h,
      any_misplaced := any_misplaced s \<or> misplaced vmalloc xs sz\<rparr>) = lock_of s"
    using malloc_body_lock [OF do_malloc(5)] by (auto simp: lock_of_def fun_eq_iff)
  then show ?case by simp
next
  case (do_free i s p n h)
  then have "lock_of (goto s i (Leaving (Release p n) 0)\<lparr>mheap := h\<rparr>) = lock_of s"
    using free_body_lock [OF do_free(3)] by (auto simp: lock_of_def fun_eq_iff)
  then show ?case by simp
next
  case (leave i s c p)
  then show ?case using call_unlock [of i N "lock_of s" spin_cas "\<lambda>l. 0"] by (simp add: lock_of_both lock_of_heap(3,4))
qed simp

lemma lock_bit: "mstep N s s' \<Longrightarrow> heap_lock (mheap s) \<in> {0, 1} \<Longrightarrow> heap_lock (mheap s') \<in> {0, 1}"
proof (induction rule: mstep.induct)
  case (do_malloc i s sz xs vmalloc h p)
  then show ?case using malloc_body_lock [OF do_malloc(5)] by simp
next
  case (do_free i s p n h)
  then show ?case using free_body_lock [OF do_free(3)] by simp
qed (auto simp: lock_heap_def split: if_splits)

lemma mutex_step: "mstep N s s' \<Longrightarrow> mutex_ok N s \<Longrightarrow> mutex_ok N s'"
  using lock_sim cas.inv_step lock_bit unfolding mutex_ok_def by (metis insert_iff singletonD)

lemma client_nonzero: "client malloc_call myfree no_heap h live \<Longrightarrow> (p, n) \<in> set live \<Longrightarrow> p \<noteq> 0"
proof (induction arbitrary: p n rule: client.induct)
  case (client_free h live q m h')
  then show ?case using set_remove1_subset by fast
qed (auto split: if_splits)

lemma holder_locked: "mutex_ok N s \<Longrightarrow> i < N \<Longrightarrow> critical (pcs s i) \<Longrightarrow> heap_lock (mheap s) = 1"
proof -
  assume *: "mutex_ok N s" "i < N" "critical (pcs s i)"
  then have "at (lock_of s) i = Holding" by (cases "pcs s i") (simp_all add: lock_of_heap)
  with * cas.held [of N "lock_of s"] show ?thesis by (auto simp: mutex_ok_def lock_of_heap)
qed

lemma only_holder: "mutex_ok N s \<Longrightarrow> i < N \<Longrightarrow> j < N \<Longrightarrow> critical (pcs s i) \<Longrightarrow> critical (pcs s j) \<Longrightarrow> i = j"
proof -
  have "critical q \<Longrightarrow> lock_view q = Holding" for q by (cases q) simp_all
  then show "mutex_ok N s \<Longrightarrow> i < N \<Longrightarrow> j < N \<Longrightarrow> critical (pcs s i) \<Longrightarrow> critical (pcs s j) \<Longrightarrow> i = j"
    using cas.excludes [of N "lock_of s" i j] by (simp add: mutex_ok_def lock_of_heap)
qed

lemma misplaced_kept: "mstep N s s' \<Longrightarrow> any_misplaced s \<Longrightarrow> any_misplaced s'"
  by (induction rule: mstep.induct) simp_all

lemma heap_step:
  "mstep N s s' \<Longrightarrow> mutex_ok N s \<Longrightarrow> \<not> any_misplaced s' \<Longrightarrow> heap_shared N s \<Longrightarrow> heap_shared N s'"
proof (induction rule: mstep.induct)
  case (call_malloc i s sz)
  then show ?case using in_transit_upd [of i N "pcs s" "At_Lock (Alloc sz)"]
    by (simp add: heap_shared_def)
next
  case (call_free i s p n)
  then have "{#(p, n)#} + mset (remove1 (p, n) (owned s)) = mset (owned s)" by simp
  then show ?case using call_free in_transit_upd [of i N "pcs s" "At_Lock (Release p n)"]
    by (auto simp: heap_shared_def)
next
  case (acquire i s c h)
  have "pending (Inside c) = pending (At_Lock c)" by (cases c) simp_all
  moreover have "unlock_heap h = unlock_heap (mheap s)"
    using acquire(3) by (auto simp: lock_heap_def split: if_splits)
  ultimately show ?case using acquire in_transit_upd [of i N "pcs s" "Inside c"]
    by (simp add: heap_shared_def)
next
  case (do_malloc i s sz xs vmalloc h p)
  then obtain live where live: "client malloc_call myfree no_heap (unlock_heap (mheap s)) live"
    "mset live = mset (owned s) + in_transit N (pcs s)" by (auto simp: heap_shared_def)
  have "heap_lock (mheap s) = 1" using do_malloc holder_locked by simp
  then have "mymalloc vmalloc (unlock_heap (mheap s)) sz = Some (unlock_heap h, p)"
    using do_malloc(5) by (simp add: mymalloc_body relock)
  then have "malloc_call (unlock_heap (mheap s)) sz (unlock_heap h, p)"
    using do_malloc(3,4,7) unfolding malloc_call_def by auto
  from client_alloc [OF live(1) this] live(2) show ?case
    using do_malloc in_transit_upd [of i N "pcs s" "Leaving (Alloc sz) p"]
    by (fastforce simp: heap_shared_def split: if_splits)
next
  case (do_free i s p n h)
  then obtain live where live: "client malloc_call myfree no_heap (unlock_heap (mheap s)) live"
    "mset live = mset (owned s) + in_transit N (pcs s)" by (auto simp: heap_shared_def)
  have t: "in_transit N (pcs s) = in_transit N ((pcs s)(i := Leaving (Release p n) 0)) + {#(p, n)#}"
    using do_free in_transit_upd [of i N "pcs s" "Leaving (Release p n) 0"] by simp
  then have "(p, n) \<in># mset live" using live(2) by simp
  then have m: "(p, n) \<in> set live" by simp
  have "heap_lock (mheap s) = 1" using do_free holder_locked by simp
  then have "myfree (unlock_heap (mheap s)) p = Some (unlock_heap h)"
    using do_free(3) client_nonzero [OF live(1) m] by (simp add: myfree_body relock)
  from client_free [OF live(1) m this] live(2) t show ?case by (auto simp: heap_shared_def)
next
  case (leave i s c p)
  then show ?case using in_transit_upd [of i N "pcs s" Idle]
    by (auto simp: heap_shared_def ac_simps)
qed simp

lemma reachable_ok: "(mstep N)\<^sup>*\<^sup>* mstart s \<Longrightarrow> mutex_ok N s \<and> (any_misplaced s \<or> heap_shared N s)"
proof (induction rule: rtranclp_induct)
  case base
  have "unlock_heap no_heap = no_heap" "in_transit N (\<lambda>_. Idle) = {#}"
    by (simp_all add: no_heap_def in_transit_def)
  moreover have "lock_of mstart = lock_start 0"
    by (simp add: lock_of_def mstart_def lock_start_def no_heap_def)
  ultimately show ?case using cas.inv_start [of 0 N] client_start [of malloc_call myfree no_heap]
    by (simp add: mutex_ok_def heap_shared_def mstart_def no_heap_def)
qed (use mutex_step heap_step misplaced_kept in blast)

subsection \<open>The lock holder always finishes\<close>

lemma body_of_call:
  assumes "mymalloc vmalloc h sz = Some (h', p)"
  shows "malloc_body vmalloc (h\<lparr>heap_lock := 1\<rparr>) sz = Some (h'\<lparr>heap_lock := 1\<rparr>, p)"
proof -
  obtain g where g: "malloc_body vmalloc (h\<lparr>heap_lock := 1\<rparr>) sz = Some (g, p)" "h' = unlock_heap g"
    using assms by (auto simp: mymalloc_body split: if_splits)
  with malloc_body_lock [OF g(1)] show ?thesis by (simp add: relock)
qed

lemma holder_mallocs:
  assumes "mutex_ok N s" "heap_shared N s" "i < N" "pcs s i = Inside (Alloc sz)"
    and "heap_rep (mheap s) xs" "fresh_answer vmalloc xs sz"
  shows "malloc_body vmalloc (mheap s) sz \<noteq> None"
proof -
  have l: "heap_lock (mheap s) = 1" using holder_locked assms by simp
  obtain live where "client malloc_call myfree no_heap (unlock_heap (mheap s)) live"
    using assms(2) by (auto simp: heap_shared_def)
  then obtain ys where "heap_ok (unlock_heap (mheap s)) ys" using mm.client_accounts by blast
  then have "coalesced xs" using heap_rep_unique assms(5) by (auto simp: heap_ok_def)
  with mymalloc_granted [of "unlock_heap (mheap s)" xs vmalloc sz]
    mymalloc_misplaced [of "unlock_heap (mheap s)" xs vmalloc sz] assms(5,6)
  obtain h' p where "mymalloc vmalloc (unlock_heap (mheap s)) sz = Some (h', p)" by auto
  from body_of_call [OF this] show ?thesis by (simp add: relock l)
qed

lemma holder_frees:
  assumes "mutex_ok N s" "heap_shared N s" "i < N" "pcs s i = Inside (Release p n)"
  shows "free_body (mheap s) p \<noteq> None"
proof -
  have l: "heap_lock (mheap s) = 1" using holder_locked assms by simp
  obtain live where live: "client malloc_call myfree no_heap (unlock_heap (mheap s)) live"
    "mset live = mset (owned s) + in_transit N (pcs s)" using assms(2) by (auto simp: heap_shared_def)
  have "in_transit N (pcs s) = in_transit N ((pcs s)(i := Idle)) + {#(p, n)#}"
    using assms(3,4) in_transit_upd [of i N "pcs s" Idle] by simp
  then have "(p, n) \<in># mset live" using live(2) by simp
  then have m: "(p, n) \<in> set live" by simp
  from mm.client_free_progress [OF live(1) this] client_nonzero [OF live(1) m] show ?thesis
    by (auto simp: myfree_body relock l)
qed

subsection \<open>Thread safety\<close>

text \<open>
  C14: However \<open>N\<close> threads interleave their calls of \<open>mymalloc\<close> and \<open>myfree\<close>, with \<open>vmalloc\<close> failing or giving
  fresh regions anywhere, at most one is between lock
  and unlock, and the lock is free when nobody is inside a call.  As long as no chunk was misplaced, the
  allocations that all threads own have distinct pointers and do not overlap; the
  thread that holds the lock never faults, wherever the next chunk lies; and when
  nobody is inside a call, the heap is one that the calls, run one after the
  other, would have left.
\<close>
theorem mymalloc_thread_safe:
  assumes "(mstep N)\<^sup>*\<^sup>* mstart s"
  shows "(\<forall>i<N. \<forall>j<N. critical (pcs s i) \<longrightarrow> critical (pcs s j) \<longrightarrow> i = j) \<and>
    ((\<forall>i<N. pcs s i = Idle) \<longrightarrow> heap_lock (mheap s) = 0) \<and>
    (any_misplaced s \<or>
     distinct (map fst (owned s)) \<and> pairwise apart (set (owned s)) \<and>
    (\<forall>i<N. \<forall>p n. pcs s i = Inside (Release p n) \<longrightarrow> free_body (mheap s) p \<noteq> None) \<and>
    (\<forall>i<N. \<forall>sz xs vmalloc. pcs s i = Inside (Alloc sz) \<longrightarrow> heap_rep (mheap s) xs \<longrightarrow>
       fresh_answer vmalloc xs sz \<longrightarrow> malloc_body vmalloc (mheap s) sz \<noteq> None) \<and>
    ((\<forall>i<N. pcs s i = Idle) \<longrightarrow>
       (\<exists>live. client malloc_call myfree no_heap (mheap s) live \<and> mset live = mset (owned s))))"
proof -
  have ok: "mutex_ok N s" "any_misplaced s \<or> heap_shared N s" using reachable_ok [OF assms] by simp_all
  have mutex: "\<forall>i<N. \<forall>j<N. critical (pcs s i) \<longrightarrow> critical (pcs s j) \<longrightarrow> i = j"
    using only_holder [OF ok(1)] by blast
  have idle: "(\<forall>i<N. pcs s i = Idle) \<longrightarrow> heap_lock (mheap s) = 0"
    using ok(1) cas.held [of N "lock_of s"] by (auto simp: mutex_ok_def lock_of_heap)
  show ?thesis
  proof (cases "any_misplaced s")
    case False
    with ok(2) have sh: "heap_shared N s" by simp
    obtain live where live: "client malloc_call myfree no_heap (unlock_heap (mheap s)) live"
      "mset live = mset (owned s) + in_transit N (pcs s)" using sh by (auto simp: heap_shared_def)
    obtain ts where "mset ts = in_transit N (pcs s)" using ex_mset by blast
    then have m: "mset live = mset (owned s @ ts)" using live(2) by simp
    have "mset (map fst live) = mset (map fst (owned s @ ts))" unfolding mset_map m ..
    from mset_eq_imp_distinct_iff [OF this] have "distinct (map fst (owned s))"
      using mm.client_accounts [OF live(1)] by (auto simp: accounts_def)
    moreover have "pairwise apart (set (owned s))"
      using mm.client_apart [OF live(1)] mset_eq_setD [OF m] by (simp add: pairwise_def)
    moreover have "\<exists>live. client malloc_call myfree no_heap (mheap s) live \<and> mset live = mset (owned s)"
      if "\<forall>i<N. pcs s i = Idle"
    proof -
      have "in_transit N (pcs s) = {#}" using that by (simp add: in_transit_def)
      with live idle that show ?thesis by auto
    qed
    ultimately show ?thesis using mutex idle holder_frees [OF ok(1) sh] holder_mallocs [OF ok(1) sh] by blast
  qed (use mutex idle in blast)
qed

text \<open>Two threads that want a block at the same time; the second one spins once.\<close>

definition both_done :: mstate where
  "both_done = \<lparr>mheap = heap_2, pcs = \<lambda>_. Idle, owned = [(65704, 100), (65568, 100)], any_misplaced = False\<rparr>"

definition two :: "pc \<Rightarrow> pc \<Rightarrow> nat \<Rightarrow> pc" where
  "two p q i = (if i = 0 then p else if i = 1 then q else Idle)"

lemma two_simps [simp]:
  "two p q 0 = p" "two p q (Suc 0) = q"
  "(two p q)(0 := r) = two r q" "(two p q)(Suc 0 := r) = two p r"
  by (auto simp: two_def fun_eq_iff)

lemma two_Idle: "(\<lambda>_. Idle) = two Idle Idle"
  by (simp add: two_def fun_eq_iff)

lemma both_done_reachable: "(mstep 2)\<^sup>*\<^sup>* mstart both_done"
proof -
  let ?a = "Alloc 100" and ?s = "\<lambda>h p q l. \<lparr>mheap = h, pcs = two p q, owned = l, any_misplaced = False\<rparr>"
  let ?w = "At_Lock ?a" and ?k = "\<lambda>h :: heap. h\<lparr>heap_lock := 1\<rparr>" and ?l = "[(65568, 100)]"
  have l: "heap_lock no_heap = 0" "heap_lock heap_1 = 0" "heap_lock heap_2 = 0"
    by (simp_all add: no_heap_def heap_1_def heap_2_def)
  have "mstep 2 mstart (?s no_heap ?w Idle [])"
    using call_malloc [of 0 2 "?s no_heap Idle Idle []" 100] by (simp add: mstart_def two_Idle)
  moreover have "mstep 2 (?s no_heap ?w Idle []) (?s no_heap ?w ?w [])"
    using call_malloc [of 1 2 "?s no_heap ?w Idle []" 100] by simp
  moreover have "mstep 2 (?s no_heap ?w ?w []) (?s (?k no_heap) (Inside ?a) ?w [])"
    using acquire [of 0 2 "?s no_heap ?w ?w []" ?a] l by (simp add: lock_heap_def)
  moreover have "mstep 2 (?s (?k no_heap) (Inside ?a) ?w []) (?s (?k no_heap) (Inside ?a) ?w [])"
    using spin [of 1 2 "?s (?k no_heap) (Inside ?a) ?w []" ?a] by (simp add: lock_heap_def)
  moreover have "mstep 2 (?s (?k no_heap) (Inside ?a) ?w [])
      (?s (?k heap_1) (Leaving ?a 65568) ?w [])"
    using do_malloc [of 0 2 "?s (?k no_heap) (Inside ?a) ?w []", OF _ _ _ conjunct1 [OF first_served]]
      body_of_call [OF first_call] first_served by (simp add: heap_rep_def no_heap_def)
  moreover have "mstep 2 (?s (?k heap_1) (Leaving ?a 65568) ?w []) (?s heap_1 Idle ?w ?l)"
    using leave [of 0 2 "?s (?k heap_1) (Leaving ?a 65568) ?w []"] l by simp
  moreover have "mstep 2 (?s heap_1 Idle ?w ?l) (?s (?k heap_1) Idle (Inside ?a) ?l)"
    using acquire [of 1 2 "?s heap_1 Idle ?w ?l" ?a] l by (simp add: lock_heap_def)
  moreover have "mstep 2 (?s (?k heap_1) Idle (Inside ?a) ?l) (?s (?k heap_2) Idle (Leaving ?a 65704) ?l)"
    using do_malloc [of 1 2 "?s (?k heap_1) Idle (Inside ?a) ?l", OF _ _ _ conjunct1 [OF second_served]]
      body_of_call [OF second_call] second_served by (simp add: heap_1_rep)
  moreover have "mstep 2 (?s (?k heap_2) Idle (Leaving ?a 65704) ?l) both_done"
    using leave [of 1 2 "?s (?k heap_2) Idle (Leaving ?a 65704) ?l"] l by (simp add: both_done_def two_Idle)
  ultimately show ?thesis
    by (meson rtranclp.rtrancl_refl converse_rtranclp_into_rtranclp)
qed

theorem mymalloc_thread_safe_witness:
  "distinct [65704 :: u64, 65568] \<and> apart (65704, 100) (65568, 100) \<and> heap_lock heap_2 = 0 \<and>
    (\<exists>live. client malloc_call myfree no_heap heap_2 live \<and> mset live = {#(65704, 100), (65568, 100)#})"
  using mymalloc_thread_safe [OF both_done_reachable]
  by (simp add: both_done_def pairwise_insert)

end
