(* ===== verification/Stdio.thy ===== *)
theory Stdio
  imports Main
begin

text \<open>
  The parts of the C library's text input that the labs use: a stream of characters read by
  \<open>fgets\<close>, and \<open>strcspn\<close> on the line it returns.  A stream ends in end of file or in a read error.
\<close>

record stream =
  rest :: string
  read_fails :: bool

abbreviation NL :: char where "NL \<equiv> CHR 0x0A"
abbreviation NUL :: char where "NUL \<equiv> CHR 0x00"

text \<open>Up to \<open>n\<close> characters, ending after the first newline; the flag says that the end of the
  stream was hit.\<close>

fun take_line :: "nat \<Rightarrow> string \<Rightarrow> string \<times> string \<times> bool" where
  "take_line 0 cs = ([], cs, False)"
| "take_line (Suc n) [] = ([], [], True)"
| "take_line (Suc n) (c # cs) =
     (if c = NL then ([c], cs, False)
      else (case take_line n cs of (l, r, e) \<Rightarrow> (c # l, r, e)))"

text \<open>\<open>fgets\<close> with a buffer of \<open>cap\<close> bytes: the line, the stream after it, and \<open>feof\<close>; \<open>None\<close> is the
  null pointer, at the end of the stream or on a read error.\<close>

definition fgets :: "nat \<Rightarrow> stream \<Rightarrow> (string \<times> stream \<times> bool) option" where
  "fgets cap s =
     (case take_line (cap - 1) (rest s) of (l, r, e) \<Rightarrow>
        if l = [] \<or> e \<and> read_fails s then None else Some (l, s\<lparr>rest := r\<rparr>, e))"

definition is_break :: "char \<Rightarrow> bool" where
  "is_break c \<longleftrightarrow> c = NL \<or> c = NUL"

text \<open>\<open>strcspn(line, "\n")\<close>, and the byte of the buffer at an index up to the terminator.\<close>

definition line_len :: "string \<Rightarrow> nat" where
  "line_len l = length (takeWhile (\<lambda>c. \<not> is_break c) l)"

definition byte_at :: "string \<Rightarrow> nat \<Rightarrow> char" where
  "byte_at l i = (if i < length l then l ! i else NUL)"

lemma take_line_append: "take_line n cs = (l, r, e) \<Longrightarrow> cs = l @ r"
proof (induction n cs arbitrary: l r e rule: take_line.induct)
  case (3 n c cs)
  then show ?case by (cases "take_line n cs") (auto split: if_splits)
qed auto

lemma take_line_line:
  "NL \<notin> set l \<Longrightarrow> length l < n \<Longrightarrow> take_line n (l @ NL # cs) = (l @ [NL], cs, False)"
proof (induction l arbitrary: n)
  case Nil
  then show ?case by (cases n) auto
next
  case (Cons c l)
  then show ?case by (cases n) auto
qed

lemma take_line_end: "0 < n \<Longrightarrow> take_line n [] = ([], [], True)"
  by (cases n) auto

lemma take_line_nonempty: "0 < n \<Longrightarrow> cs \<noteq> [] \<Longrightarrow> take_line n cs \<noteq> ([], r, e)"
  by (cases n; cases cs) (auto split: prod.splits)

lemma fgets_None:
  "1 < cap \<Longrightarrow> \<not> read_fails s \<Longrightarrow> fgets cap s = None \<Longrightarrow> rest s = []"
  using take_line_nonempty [of "cap - 1" "rest s"]
  by (cases "take_line (cap - 1) (rest s)") (auto simp: fgets_def split: if_splits)

lemma take_line_length: "take_line n cs = (l, r, e) \<Longrightarrow> length l \<le> n"
proof (induction n cs arbitrary: l r e rule: take_line.induct)
  case (3 n c cs)
  then show ?case by (cases "take_line n cs") (auto split: if_splits)
qed auto

lemma fgets_shorter: "fgets cap s = Some (l, s', e) \<Longrightarrow> length (rest s') < length (rest s)"
  using take_line_append [of "cap - 1" "rest s"]
  by (cases "take_line (cap - 1) (rest s)") (auto simp: fgets_def split: if_splits)

lemma fgets_line:
  "NL \<notin> set l \<Longrightarrow> Suc (length l) < cap \<Longrightarrow>
    fgets cap \<lparr>rest = l @ NL # cs, read_fails = f\<rparr> = Some (l @ [NL], \<lparr>rest = cs, read_fails = f\<rparr>, False)"
  by (simp add: fgets_def take_line_line)

lemma fgets_eof: "1 < cap \<Longrightarrow> fgets cap \<lparr>rest = [], read_fails = f\<rparr> = None"
  by (simp add: fgets_def take_line_end)

lemma line_len_line: "NL \<notin> set l \<Longrightarrow> NUL \<notin> set l \<Longrightarrow> line_len (l @ [NL]) = length l"
  by (induction l) (auto simp: line_len_def is_break_def)

lemma line_len_le: "line_len l \<le> length l"
  by (simp add: line_len_def length_takeWhile_le)

end
