(* ===== verification/Labyrinth.thy ===== *)
theory Labyrinth
  imports Stdio "HOL-Library.Monad_Syntax"
begin

text \<open>
  \<open>m1/labyrinth.c\<close>.  A row of the map array is the string before its terminator.  Error messages
  are values of \<open>lab_error\<close>, one for each message the code prints; files, option parsing and the
  outcomes of writing are arguments.
\<close>

definition MAX_ROWS :: int where "MAX_ROWS = 100"
definition MAX_COLS :: nat where "MAX_COLS = 100"

record labyrinth =
  cells :: "string list"
  rows :: int
  cols :: int

type_synonym position = "int \<times> int"

datatype lab_error =
    Open_Failed | Too_Many_Rows | Row_Too_Long | Bad_Length nat | Inconsistent_Rows | Bad_Char char
  | Read_Failed | Empty_Map | Not_Connected
  | Bad_Direction string | No_Space | Blocked
  | Write_Failed | Close_Failed

definition isValidPlayer :: "char \<Rightarrow> bool" where
  "isValidPlayer c \<longleftrightarrow> of_char CHR ''0'' \<le> (of_char c :: nat) \<and> (of_char c :: nat) \<le> of_char CHR ''9''"

definition is_floor :: "char \<Rightarrow> bool" where
  "is_floor c \<longleftrightarrow> c = CHR ''.'' \<or> isValidPlayer c"

definition map_char :: "char \<Rightarrow> bool" where
  "map_char c \<longleftrightarrow> \<not> (c \<noteq> CHR ''#'' \<and> c \<noteq> CHR ''.'' \<and> \<not> isValidPlayer c)"

definition cell :: "labyrinth \<Rightarrow> int \<Rightarrow> int \<Rightarrow> char" where
  "cell lab r c = cells lab ! nat r ! nat c"

definition set_cell :: "labyrinth \<Rightarrow> int \<Rightarrow> int \<Rightarrow> char \<Rightarrow> labyrinth" where
  "set_cell lab r c ch = lab\<lparr>cells := (cells lab)[nat r := (cells lab ! nat r)[nat c := ch]]\<rparr>"

text \<open>The cells in the order of the nested loops over rows and columns.\<close>

definition positions :: "labyrinth \<Rightarrow> position list" where
  "positions lab = List.product (map int [0..<nat (rows lab)]) (map int [0..<nat (cols lab)])"

definition find_cell :: "labyrinth \<Rightarrow> (char \<Rightarrow> bool) \<Rightarrow> position" where
  "find_cell lab P =
     (case find (\<lambda>(r, c). P (cell lab r c)) (positions lab) of None \<Rightarrow> (-1, -1) | Some p \<Rightarrow> p)"

definition findPlayer :: "labyrinth \<Rightarrow> char \<Rightarrow> position" where
  "findPlayer lab player_id = find_cell lab (\<lambda>ch. ch = player_id)"

definition findFirstEmptySpace :: "labyrinth \<Rightarrow> position" where
  "findFirstEmptySpace lab = find_cell lab (\<lambda>ch. ch = CHR ''.'')"

definition outside :: "labyrinth \<Rightarrow> int \<Rightarrow> int \<Rightarrow> bool" where
  "outside lab r c \<longleftrightarrow> r < 0 \<or> r \<ge> rows lab \<or> c < 0 \<or> c \<ge> cols lab"

definition isEmptySpace :: "labyrinth \<Rightarrow> int \<Rightarrow> int \<Rightarrow> bool" where
  "isEmptySpace lab r c \<longleftrightarrow> (if outside lab r c then False else cell lab r c = CHR ''.'')"

text \<open>\<open>dfs\<close> returns the visited cells; \<open>None\<close> would be a recursion that never ends.\<close>

partial_function (option) dfs ::
  "labyrinth \<Rightarrow> int \<Rightarrow> int \<Rightarrow> position set \<Rightarrow> position set option" where
  "dfs lab r c visited =
     (if outside lab r c then Some visited
      else if (r, c) \<in> visited \<or> \<not> is_floor (cell lab r c) then Some visited
      else do {
        let visited = insert (r, c) visited;
        visited \<leftarrow> dfs lab (r - 1) c visited;
        visited \<leftarrow> dfs lab (r + 1) c visited;
        visited \<leftarrow> dfs lab r (c - 1) visited;
        dfs lab r (c + 1) visited })"

declare dfs.simps [code]

definition isConnected :: "labyrinth \<Rightarrow> bool option" where
  "isConnected lab =
     (let floor_cells = filter (\<lambda>(r, c). is_floor (cell lab r c)) (positions lab);
          total_floor = length floor_cells in
        if total_floor = 0 then Some True
        else do {
          let start = hd floor_cells;
          visited \<leftarrow> dfs lab (fst start) (snd start) {};
          let visited_floor = length (filter (\<lambda>p. p \<in> visited) floor_cells);
          Some (visited_floor = total_floor) })"

function load_rows :: "stream \<Rightarrow> labyrinth \<Rightarrow> lab_error + (stream \<times> labyrinth)" where
  "load_rows s lab =
     (case fgets (MAX_COLS + 3) s of
        None \<Rightarrow> Inr (s, lab)
      | Some (line, s', eof) \<Rightarrow>
          if rows lab \<ge> MAX_ROWS then Inl Too_Many_Rows
          else
            let len = line_len line; has_newline = byte_at line len = NL in
              if \<not> has_newline \<and> \<not> eof then Inl Row_Too_Long
              else if len = 0 \<or> len > MAX_COLS then Inl (Bad_Length len)
              else if cols lab \<noteq> -1 \<and> cols lab \<noteq> int len then Inl Inconsistent_Rows
              else
                (case find (\<lambda>ch. \<not> map_char ch) (take len line) of
                   Some ch \<Rightarrow> Inl (Bad_Char ch)
                 | None \<Rightarrow>
                     load_rows s'
                       (lab\<lparr>cells := cells lab @ [take len line], rows := rows lab + 1,
                            cols := int len\<rparr>)))"
  by pat_completeness auto
termination by (relation "measure (\<lambda>(s, _). length (rest s))") (auto dest: fgets_shorter)

declare load_rows.simps [simp del]

text \<open>\<open>file\<close> is what \<open>fopen\<close> finds.  After the loop \<open>ferror\<close> holds exactly if the stream ends in a
  read error.\<close>

definition loadMap :: "stream option \<Rightarrow> (lab_error + labyrinth) option" where
  "loadMap infile =
     (case infile of
        None \<Rightarrow> Some (Inl Open_Failed)
      | Some s \<Rightarrow>
          (case load_rows s \<lparr>cells = [], rows = 0, cols = -1\<rparr> of
             Inl e \<Rightarrow> Some (Inl e)
           | Inr (s', lab) \<Rightarrow>
               if read_fails s' then Some (Inl Read_Failed)
               else if rows lab = 0 \<or> cols lab \<le> 0 then Some (Inl Empty_Map)
               else do {
                 connected \<leftarrow> isConnected lab;
                 Some (if connected then Inr lab else Inl Not_Connected) }))"

definition direction :: "string \<Rightarrow> (int \<times> int) option" where
  "direction d =
     (if d = ''up'' then Some (-1, 0) else if d = ''down'' then Some (1, 0)
      else if d = ''left'' then Some (0, -1) else if d = ''right'' then Some (0, 1) else None)"

definition movePlayer :: "labyrinth \<Rightarrow> char \<Rightarrow> string \<Rightarrow> lab_error + labyrinth" where
  "movePlayer lab player_id d =
     (case direction d of
        None \<Rightarrow> Inl (Bad_Direction d)
      | Some (dr, dc) \<Rightarrow>
          let found = findPlayer lab player_id;
              spawned = fst found = -1;
              from_pos = (if spawned then findFirstEmptySpace lab else found) in
            if spawned \<and> fst from_pos = -1 then Inl No_Space
            else
              let to_row = fst from_pos + dr; to_col = snd from_pos + dc in
                if \<not> isEmptySpace lab to_row to_col then Inl Blocked
                else
                  let lab = (if spawned then lab
                             else set_cell lab (fst from_pos) (snd from_pos) CHR ''.'') in
                    Inr (set_cell lab to_row to_col player_id))"

text \<open>How writing the file goes: whether it can be opened, which row write fails first, and
  whether closing it succeeds.\<close>

record write_env =
  can_open :: bool
  row_fails :: "nat option"
  can_close :: bool

definition print_rows :: "string list \<Rightarrow> string" where
  "print_rows ls = concat (map (\<lambda>l. l @ [NL]) ls)"

text \<open>The outcome and the new contents of the file, if it was opened.\<close>

definition saveMap :: "write_env \<Rightarrow> labyrinth \<Rightarrow> (lab_error + unit) \<times> string option" where
  "saveMap w lab =
     (if \<not> can_open w then (Inl Open_Failed, None)
      else
        let out = take (nat (rows lab)) (cells lab);
            written = (case row_fails w of None \<Rightarrow> length out | Some k \<Rightarrow> k) in
          if written < length out then (Inl Write_Failed, Some (print_rows (take written out)))
          else if can_close w then (Inr (), Some (print_rows out))
          else (Inl Close_Failed, Some (print_rows out)))"

text \<open>\<open>print_map\<close> writes the rows to the standard output; \<open>row_fails\<close> is the first \<open>printf\<close> that fails.\<close>

definition print_map :: "nat option \<Rightarrow> labyrinth \<Rightarrow> bool \<times> string" where
  "print_map fails lab =
     (let out = take (nat (rows lab)) (cells lab);
          written = (case fails of None \<Rightarrow> length out | Some k \<Rightarrow> k) in
        if written < length out then (False, print_rows (take written out))
        else (True, print_rows out))"

subsection \<open>main\<close>

text \<open>The options \<open>getopt_long\<close> delivers, in order; \<open>Opt_Bad\<close> is any value the switch does not name.\<close>

datatype opt = Opt_Map string | Opt_Player string | Opt_Move string | Opt_Version | Opt_Bad

datatype main_error = Usage | Invalid_Player string | Version_Combined | Lab_Error lab_error

record options =
  map_file :: "string option"
  move_direction :: "string option"
  player_id :: char
  has_player :: bool
  show_version :: bool

definition no_options :: options where
  "no_options = \<lparr>map_file = None, move_direction = None, player_id = NUL, has_player = False,
     show_version = False\<rparr>"

fun parse_options :: "opt list \<Rightarrow> options \<Rightarrow> main_error + options" where
  "parse_options [] opts = Inr opts"
| "parse_options (Opt_Map f # os) opts = parse_options os (opts\<lparr>map_file := Some f\<rparr>)"
| "parse_options (Opt_Player p # os) opts =
     (if length p \<noteq> 1 \<or> \<not> isValidPlayer (hd p) then Inl (Invalid_Player p)
      else parse_options os (opts\<lparr>player_id := hd p, has_player := True\<rparr>))"
| "parse_options (Opt_Move d # os) opts = parse_options os (opts\<lparr>move_direction := Some d\<rparr>)"
| "parse_options (Opt_Version # os) opts = parse_options os (opts\<lparr>show_version := True\<rparr>)"
| "parse_options (Opt_Bad # os) opts = Inl Usage"

text \<open>The files by name, how writing goes, and the standard output.\<close>

record world =
  files :: "string \<Rightarrow> stream option"
  writes :: write_env
  out_fails :: "nat option"
  stdout_text :: string

definition save_to :: "world \<Rightarrow> string \<Rightarrow> labyrinth \<Rightarrow> (lab_error + unit) \<times> world" where
  "save_to w f lab =
     (case saveMap (writes w) lab of
        (r, None) \<Rightarrow> (r, w)
      | (r, Some text) \<Rightarrow> (r, w\<lparr>files := (files w)(f \<mapsto> \<lparr>rest = text, read_fails = False\<rparr>)\<rparr>))"

text \<open>\<open>Inl\<close> is an exit with \<open>EXIT_FAILURE\<close> and its message (\<open>None\<close> for a failed \<open>printf\<close>).\<close>

definition lab_main :: "int \<Rightarrow> opt list \<Rightarrow> bool \<Rightarrow> world \<Rightarrow> ((main_error option + unit) \<times> world) option" where
  "lab_main argc os operands w =
     (case parse_options os no_options of
        Inl e \<Rightarrow> Some (Inl (Some e), w)
      | Inr opts \<Rightarrow>
          if operands then Some (Inl (Some Usage), w)
          else if show_version opts then
            (if argc = 2 then Some (Inr (), w\<lparr>stdout_text := stdout_text w @ ''Labyrinth Game'' @ [NL]\<rparr>)
             else Some (Inl (Some Version_Combined), w))
          else
            (case (map_file opts, has_player opts) of
               (Some f, True) \<Rightarrow> do {
                 loaded \<leftarrow> loadMap (files w f);
                 (case loaded of
                    Inl e \<Rightarrow> Some (Inl (Some (Lab_Error e)), w)
                  | Inr lab \<Rightarrow>
                      (case move_direction opts of
                         Some d \<Rightarrow>
                           (case movePlayer lab (player_id opts) d of
                              Inl e \<Rightarrow> Some (Inl (Some (Lab_Error e)), w)
                            | Inr lab' \<Rightarrow>
                                (case save_to w f lab' of
                                   (Inl e, w') \<Rightarrow> Some (Inl (Some (Lab_Error e)), w')
                                 | (Inr _, w') \<Rightarrow> Some (Inr (), w')))
                       | None \<Rightarrow>
                           (case print_map (out_fails w) lab of
                              (ok, text) \<Rightarrow>
                                Some (if ok then Inr () else Inl None,
                                      w\<lparr>stdout_text := stdout_text w @ text\<rparr>)))) }
             | _ \<Rightarrow> Some (Inl (Some Usage), w)))"

end
