(* ===== verification/LabyrinthConn.thy ===== *)
theory LabyrinthConn
  imports Labyrinth
begin

text \<open>
  \<open>dfs\<close> and \<open>isConnected\<close> of \<open>m1/labyrinth.c\<close>: the recursion ends on every map and visits exactly
  the floor cells that can be reached, so the counts agree exactly if the floor is connected.
\<close>

definition floor_at :: "labyrinth \<Rightarrow> position \<Rightarrow> bool" where
  "floor_at lab p \<longleftrightarrow> \<not> outside lab (fst p) (snd p) \<and> is_floor (cell lab (fst p) (snd p))"

definition nbrs :: "position \<Rightarrow> position set" where
  "nbrs p = {(fst p - 1, snd p), (fst p + 1, snd p), (fst p, snd p - 1), (fst p, snd p + 1)}"

definition corridor :: "labyrinth \<Rightarrow> (position \<times> position) set" where
  "corridor lab = {(p, q). floor_at lab p \<and> floor_at lab q \<and> q \<in> nbrs p}"

text \<open>Every two floor cells are joined by a path over floor cells.\<close>

definition connected :: "labyrinth \<Rightarrow> bool" where
  "connected lab \<longleftrightarrow> (\<forall>p q. floor_at lab p \<longrightarrow> floor_at lab q \<longrightarrow> (p, q) \<in> (corridor lab)\<^sup>*)"

definition board :: "labyrinth \<Rightarrow> position set" where
  "board lab = {p. \<not> outside lab (fst p) (snd p)}"

lemma set_positions: "set (positions lab) = board lab"
proof -
  have eq: "(\<exists>n \<in> {0..<nat k}. i = int n) \<longleftrightarrow> 0 \<le> i \<and> i < k" for i k
    by (auto intro!: bexI [of _ "nat i"])
  show ?thesis
    by (auto simp: positions_def board_def outside_def image_iff eq [unfolded Bex_def atLeastLessThan_iff])
      (auto simp: eq [simplified])
qed

lemma finite_board: "finite (board lab)"
  by (simp flip: set_positions)

lemma corridor_sym: "(p, q) \<in> corridor lab \<Longrightarrow> (q, p) \<in> corridor lab"
  by (cases p; cases q) (auto simp: corridor_def nbrs_def)

lemma path_sym: "(p, q) \<in> (corridor lab)\<^sup>* \<Longrightarrow> (q, p) \<in> (corridor lab)\<^sup>*"
  by (induction rule: rtrancl_induct) (auto intro: converse_rtrancl_into_rtrancl corridor_sym)

lemma path_floor: "(p, q) \<in> (corridor lab)\<^sup>* \<Longrightarrow> floor_at lab q \<Longrightarrow> floor_at lab p"
  by (induction rule: converse_rtrancl_induct) (auto simp: corridor_def)

text \<open>The outcome of a search from \<open>p\<close> with the cells \<open>v\<close> visited before.\<close>

definition searched :: "labyrinth \<Rightarrow> position \<Rightarrow> position set \<Rightarrow> position set \<Rightarrow> bool" where
  "searched lab p v v' \<longleftrightarrow> v \<subseteq> v' \<and> (floor_at lab p \<longrightarrow> p \<in> v') \<and>
     (\<forall>x \<in> v' - v. floor_at lab x \<and> (p, x) \<in> (corridor lab)\<^sup>* \<and>
        (\<forall>y \<in> nbrs x. floor_at lab y \<longrightarrow> y \<in> v'))"

lemma searched_refl: "\<not> floor_at lab p \<or> p \<in> v \<Longrightarrow> searched lab p v v"
  by (auto simp: searched_def)

lemma searched_sub: "searched lab p v v' \<Longrightarrow> v \<subseteq> v'"
  unfolding searched_def by (rule conjunct1)

lemma searched_start: "searched lab p v v' \<Longrightarrow> floor_at lab p \<Longrightarrow> p \<in> v'"
  unfolding searched_def by blast

lemma searched_new:
  "searched lab p v v' \<Longrightarrow> x \<in> v' - v \<Longrightarrow>
    floor_at lab x \<and> (p, x) \<in> (corridor lab)\<^sup>* \<and> (\<forall>y \<in> nbrs x. floor_at lab y \<longrightarrow> y \<in> v')"
  unfolding searched_def by blast

lemma searched_step:
  assumes "searched lab q v v'" "floor_at lab p" "q \<in> nbrs p" "x \<in> v' - v"
  shows "floor_at lab x" "(p, x) \<in> (corridor lab)\<^sup>*" "\<forall>y \<in> nbrs x. floor_at lab y \<longrightarrow> y \<in> v'"
proof -
  have x: "floor_at lab x" "(q, x) \<in> (corridor lab)\<^sup>*" "\<forall>y \<in> nbrs x. floor_at lab y \<longrightarrow> y \<in> v'"
    using searched_new [OF assms(1,4)] by (rule conjunct1 conjunct2 [THEN conjunct1] conjunct2 [THEN conjunct2])+
  then have "floor_at lab q" using path_floor by blast
  with assms(2,3) have "(p, q) \<in> corridor lab" by (simp add: corridor_def)
  from converse_rtrancl_into_rtrancl [OF this x(2)] show "(p, x) \<in> (corridor lab)\<^sup>*" .
  from x(1,3) show "floor_at lab x" "\<forall>y \<in> nbrs x. floor_at lab y \<longrightarrow> y \<in> v'" .
qed

lemma searched_nbrs:
  assumes "floor_at lab (r, c)"
    and "searched lab (r - 1, c) (insert (r, c) v) v1" "searched lab (r + 1, c) v1 v2"
    and "searched lab (r, c - 1) v2 v3" "searched lab (r, c + 1) v3 v4"
  shows "searched lab (r, c) v v4"
proof -
  have n: "(r - 1, c) \<in> nbrs (r, c)" "(r + 1, c) \<in> nbrs (r, c)"
    "(r, c - 1) \<in> nbrs (r, c)" "(r, c + 1) \<in> nbrs (r, c)" by (simp_all add: nbrs_def)
  have sub: "insert (r, c) v \<subseteq> v1" "v1 \<subseteq> v2" "v2 \<subseteq> v3" "v3 \<subseteq> v4"
    by (rule assms(2-5) [THEN searched_sub])+
  have "floor_at lab x \<and> ((r, c), x) \<in> (corridor lab)\<^sup>* \<and> (\<forall>y \<in> nbrs x. floor_at lab y \<longrightarrow> y \<in> v4)"
    if x: "x \<in> v4 - v" for x
  proof -
    consider "x = (r, c)" | "x \<in> v1 - insert (r, c) v" | "x \<in> v2 - v1" | "x \<in> v3 - v2" | "x \<in> v4 - v3"
      using x sub by blast
    then show ?thesis
    proof cases
      case 1
      have "y \<in> v4" if "y \<in> nbrs (r, c)" "floor_at lab y" for y
        using that assms(2-5) [THEN searched_start] sub unfolding nbrs_def by auto
      with 1 assms(1) show ?thesis by simp
    next
      case 2
      from searched_step [OF assms(2,1) n(1) 2] sub show ?thesis by blast
    next
      case 3
      from searched_step [OF assms(3,1) n(2) 3] sub show ?thesis by blast
    next
      case 4
      from searched_step [OF assms(4,1) n(3) 4] sub show ?thesis by blast
    next
      case 5
      from searched_step [OF assms(5,1) n(4) 5] show ?thesis by blast
    qed
  qed
  moreover have "v \<subseteq> v4" "(r, c) \<in> v4" using sub by blast+
  ultimately show ?thesis unfolding searched_def by blast
qed

lemma dfs_searches: "\<exists>v'. dfs lab r c v = Some v' \<and> searched lab (r, c) v v'"
proof (induction "card (board lab - v)" arbitrary: r c v rule: less_induct)
  case less
  show ?case
  proof (cases "floor_at lab (r, c) \<and> (r, c) \<notin> v")
    case False
    then have "dfs lab r c v = Some v"
      by (auto simp: dfs.simps [of lab r c] floor_at_def)
    with False searched_refl show ?thesis by auto
  next
    case True
    have smaller: "card (board lab - u) < card (board lab - v)" if "insert (r, c) v \<subseteq> u" for u
    proof (rule psubset_card_mono)
      show "finite (board lab - v)" using finite_board by blast
      have "(r, c) \<in> board lab - v" using True by (auto simp: board_def floor_at_def)
      with that show "board lab - u \<subset> board lab - v" by blast
    qed
    note IH = less [OF smaller]
    obtain v1 where 1: "dfs lab (r - 1) c (insert (r, c) v) = Some v1"
      "searched lab (r - 1, c) (insert (r, c) v) v1" using IH by blast
    then have "insert (r, c) v \<subseteq> v1" by (simp add: searched_def)
    with IH obtain v2 where 2: "dfs lab (r + 1) c v1 = Some v2" "searched lab (r + 1, c) v1 v2" by blast
    then have "insert (r, c) v \<subseteq> v2" using \<open>insert (r, c) v \<subseteq> v1\<close> by (auto simp: searched_def)
    with IH obtain v3 where 3: "dfs lab r (c - 1) v2 = Some v3" "searched lab (r, c - 1) v2 v3" by blast
    then have "insert (r, c) v \<subseteq> v3" using \<open>insert (r, c) v \<subseteq> v2\<close> by (auto simp: searched_def)
    with IH obtain v4 where 4: "dfs lab r (c + 1) v3 = Some v4" "searched lab (r, c + 1) v3 v4" by blast
    have "dfs lab r c v = Some v4"
      using True 1(1) 2(1) 3(1) 4(1) by (simp add: dfs.simps [of lab r c] floor_at_def)
    with searched_nbrs [OF _ 1(2) 2(2) 3(2) 4(2)] True show ?thesis by blast
  qed
qed

lemma closed_path:
  assumes "\<forall>x \<in> v. \<forall>y \<in> nbrs x. floor_at lab y \<longrightarrow> y \<in> v" "(p, q) \<in> (corridor lab)\<^sup>*" "p \<in> v"
  shows "q \<in> v"
  using assms(2,3) by (induction rule: rtrancl_induct) (use assms(1) in \<open>auto simp: corridor_def\<close>)

text \<open>A search from a floor cell with nothing visited finds exactly the cells it can reach.\<close>

lemma dfs_reaches:
  assumes "floor_at lab (r, c)"
  shows "dfs lab r c {} = Some {q. ((r, c), q) \<in> (corridor lab)\<^sup>*}"
proof -
  obtain v where v: "dfs lab r c {} = Some v" "searched lab (r, c) {} v"
    using dfs_searches by blast
  have start: "(r, c) \<in> v" using searched_start [OF v(2) assms] .
  have sub: "v \<subseteq> {q. ((r, c), q) \<in> (corridor lab)\<^sup>*}"
    and closed: "\<forall>x \<in> v. \<forall>y \<in> nbrs x. floor_at lab y \<longrightarrow> y \<in> v"
    using v(2) unfolding searched_def by blast+
  have "{q. ((r, c), q) \<in> (corridor lab)\<^sup>*} \<subseteq> v" using closed_path [OF closed _ start] by blast
  with sub have "v = {q. ((r, c), q) \<in> (corridor lab)\<^sup>*}" by (rule equalityI)
  with v(1) show ?thesis by simp
qed

lemma isConnected_connected: "isConnected lab = Some (connected lab)"
proof -
  let ?fs = "filter (\<lambda>(r, c). is_floor (cell lab r c)) (positions lab)"
  have fs: "p \<in> set ?fs \<longleftrightarrow> floor_at lab p" for p
    by (cases p) (auto simp: set_positions board_def floor_at_def)
  show ?thesis
  proof (cases ?fs)
    case Nil
    with fs have "\<not> floor_at lab p" for p by (metis empty_iff list.set(1))
    then show ?thesis by (simp add: isConnected_def Let_def Nil connected_def)
  next
    case (Cons p ps)
    obtain r c where p: "p = (r, c)" by (cases p)
    have "floor_at lab (r, c)" using fs [of p] Cons p by simp
    note d = dfs_reaches [OF this]
    let ?v = "{q. ((r, c), q) \<in> (corridor lab)\<^sup>*}"
    have "isConnected lab = Some (length (filter (\<lambda>q. q \<in> ?v) ?fs) = length ?fs)"
      using d Cons p by (simp add: isConnected_def Let_def)
    moreover have "length (filter (\<lambda>q. q \<in> ?v) ?fs) = length ?fs \<longleftrightarrow> (\<forall>q \<in> set ?fs. q \<in> ?v)"
      by (metis (no_types, lifting) filter_True length_filter_less order_less_irrefl)
    moreover have "(\<forall>q \<in> set ?fs. q \<in> ?v) \<longleftrightarrow> connected lab"
      using \<open>floor_at lab (r, c)\<close> unfolding fs connected_def
      by (metis (no_types, lifting) fs mem_Collect_eq path_sym rtrancl_trans)
    ultimately show ?thesis by simp
  qed
qed

text \<open>
  C15: For every map, \<open>isConnected\<close> returns (the recursive \<open>dfs\<close> ends), and returns true exactly if
  every two floor cells (empty spaces and players) are joined by a path of up, down, left and
  right steps over floor cells; a map without floor is connected.
\<close>
theorem isConnected_correct:
  "isConnected lab = Some (connected lab)"
  by (rule isConnected_connected)

end
