(* ===== verification/LabyrinthMap.thy ===== *)
theory LabyrinthMap
  imports LabyrinthConn
begin

text \<open>
  Maps of \<open>m1/labyrinth.c\<close> as files and as data: what \<open>loadMap\<close> accepts, that \<open>saveMap\<close> writes
  what \<open>loadMap\<close> reads back, what a move changes, and what \<open>main\<close> leaves in the map file.
\<close>

definition row_ok :: "int \<Rightarrow> string \<Rightarrow> bool" where
  "row_ok n l \<longleftrightarrow> int (length l) = n \<and> list_all map_char l"

definition wf_map :: "labyrinth \<Rightarrow> bool" where
  "wf_map lab \<longleftrightarrow> 1 \<le> rows lab \<and> rows lab \<le> MAX_ROWS \<and> 1 \<le> cols lab \<and> cols lab \<le> int MAX_COLS \<and>
     int (length (cells lab)) = rows lab \<and> list_all (row_ok (cols lab)) (cells lab)"

subsection \<open>Reading rows\<close>

text \<open>The map while its rows are read.\<close>

definition loading :: "labyrinth \<Rightarrow> bool" where
  "loading lab \<longleftrightarrow> int (length (cells lab)) = rows lab \<and> rows lab \<le> MAX_ROWS \<and>
     list_all (row_ok (cols lab)) (cells lab) \<and>
     (if cells lab = [] then cols lab = -1 else 1 \<le> cols lab \<and> cols lab \<le> int MAX_COLS)"

lemma load_rows_cases:
  assumes "load_rows s lab = Inr (s', lab')"
  obtains (stop) "fgets (MAX_COLS + 3) s = None" "s' = s" "lab' = lab"
  | (row) line s1 eof where "fgets (MAX_COLS + 3) s = Some (line, s1, eof)" "rows lab < MAX_ROWS"
      "byte_at line (line_len line) = NL \<or> eof" "line_len line \<noteq> 0" "line_len line \<le> MAX_COLS"
      "cols lab = -1 \<or> cols lab = int (line_len line)" "list_all map_char (take (line_len line) line)"
      "load_rows s1 (lab\<lparr>cells := cells lab @ [take (line_len line) line], rows := rows lab + 1,
        cols := int (line_len line)\<rparr>) = Inr (s', lab')"
  using assms
  by (subst (asm) load_rows.simps)
    (auto simp: Let_def find_None_iff list_all_iff split: option.splits if_splits prod.splits)

lemma loading_row:
  assumes "loading lab" "rows lab < MAX_ROWS" "line_len line \<noteq> 0" "line_len line \<le> MAX_COLS"
    "cols lab = -1 \<or> cols lab = int (line_len line)" "list_all map_char (take (line_len line) line)"
  shows "loading (lab\<lparr>cells := cells lab @ [take (line_len line) line], rows := rows lab + 1,
    cols := int (line_len line)\<rparr>)"
  using assms line_len_le [of line] by (auto simp: loading_def row_ok_def split: if_splits)

lemma load_rows_loading:
  "load_rows s lab = Inr (s', lab') \<Longrightarrow> loading lab \<Longrightarrow> loading lab' \<and> read_fails s' = read_fails s"
proof (induction "length (rest s)" arbitrary: s lab rule: less_induct)
  case less
  from less.prems(1) show ?case
  proof (cases rule: load_rows_cases)
    case stop
    with less.prems(2) show ?thesis by simp
  next
    case (row line s1 eof)
    have "read_fails s1 = read_fails s"
      using row(1) by (auto simp: fgets_def split: prod.splits if_splits)
    with less.hyps [OF fgets_shorter [OF row(1)] row(8)] loading_row [OF less.prems(2) row(2,4-7)]
    show ?thesis by simp
  qed
qed

lemma loading_start: "loading \<lparr>cells = [], rows = 0, cols = -1\<rparr>"
  by (simp add: loading_def MAX_ROWS_def)

lemma loadMap_wf:
  assumes "loadMap (Some s) = Some (Inr lab)"
  shows "wf_map lab" "connected lab" "\<not> read_fails s"
    "\<exists>s'. load_rows s \<lparr>cells = [], rows = 0, cols = -1\<rparr> = Inr (s', lab)"
proof -
  obtain s' where l: "load_rows s \<lparr>cells = [], rows = 0, cols = -1\<rparr> = Inr (s', lab)"
    "\<not> read_fails s'" "\<not> (rows lab = 0 \<or> cols lab \<le> 0)" "connected lab"
    using assms by (auto simp: loadMap_def isConnected_connected split: sum.splits if_splits)
  from load_rows_loading [OF l(1) loading_start] l
  show "wf_map lab" "connected lab" "\<not> read_fails s"
    "\<exists>s'. load_rows s \<lparr>cells = [], rows = 0, cols = -1\<rparr> = Inr (s', lab)"
    by (auto simp: wf_map_def loading_def split: if_splits)
qed

subsection \<open>The rows are the lines of the file\<close>

lemma take_line_shape:
  "take_line n cs = (l, r, e) \<Longrightarrow> \<exists>k. NL \<notin> set k \<and> (l = k @ [NL] \<or> l = k) \<and> (e \<longrightarrow> l = k \<and> r = [])"
proof (induction n cs arbitrary: l r e rule: take_line.induct)
  case (3 n c cs)
  show ?case
  proof (cases "c = NL")
    case True
    with "3.prems" show ?thesis by (intro exI [of _ "[]"]) auto
  next
    case False
    obtain l' r' e' where t: "take_line n cs = (l', r', e')" by (cases "take_line n cs")
    with "3.IH" [OF False t] obtain k where "NL \<notin> set k" "l' = k @ [NL] \<or> l' = k"
      "e' \<longrightarrow> l' = k \<and> r' = []" by blast
    with False t "3.prems" show ?thesis by (intro exI [of _ "c # k"]) auto
  qed
qed auto

lemma line_len_no_break: "NL \<notin> set k \<Longrightarrow> NUL \<notin> set k \<Longrightarrow> line_len k = length k"
  by (induction k) (auto simp: line_len_def is_break_def)

text \<open>A line accepted from a file without null bytes ends in a newline or is the last.\<close>

lemma accepted_line:
  assumes "fgets cap s = Some (line, s1, eof)" "NUL \<notin> set (rest s)"
    and "byte_at line (line_len line) = NL \<or> eof"
  shows "rest s = take (line_len line) line @ [NL] @ rest s1 \<or>
    rest s = take (line_len line) line \<and> rest s1 = []"
proof -
  have t: "take_line (cap - 1) (rest s) = (line, rest s1, eof)"
    using assms(1) by (auto simp: fgets_def split: prod.splits if_splits)
  note app = take_line_append [OF t]
  from take_line_shape [OF t] obtain k where k: "NL \<notin> set k" "line = k @ [NL] \<or> line = k"
    "eof \<longrightarrow> line = k \<and> rest s1 = []" by blast
  have nul: "NUL \<notin> set k" using assms(2) k(2) unfolding app by auto
  show ?thesis
  proof (cases "line = k")
    case True
    then have "line_len line = length line" using line_len_no_break k(1) nul by blast
    then have "byte_at line (line_len line) = NUL" by (simp add: byte_at_def)
    then have "eof" using assms(3) by auto
    then show ?thesis using k(3) app \<open>line_len line = length line\<close> by simp
  next
    case False
    then have "line = k @ [NL]" using k(2) by blast
    then show ?thesis using app line_len_line [OF k(1) nul] by simp
  qed
qed

definition lines_of :: "string \<Rightarrow> string list \<Rightarrow> bool" where
  "lines_of text ls \<longleftrightarrow> text = print_rows ls \<or> text @ [NL] = print_rows ls"

lemma load_rows_lines:
  "load_rows s lab = Inr (s', lab') \<Longrightarrow> NUL \<notin> set (rest s) \<Longrightarrow> \<not> read_fails s \<Longrightarrow>
    \<exists>ls. cells lab' = cells lab @ ls \<and> lines_of (rest s) ls"
proof (induction "length (rest s)" arbitrary: s lab rule: less_induct)
  case less
  from less.prems(1) show ?case
  proof (cases rule: load_rows_cases)
    case stop
    then have "rest s = []" using less.prems(3) fgets_None [of "MAX_COLS + 3" s] by (simp add: MAX_COLS_def)
    with stop show ?thesis by (auto simp: lines_of_def print_rows_def)
  next
    case (row line s1 eof)
    have f: "\<not> read_fails s1"
      using row(1) less.prems(3) by (auto simp: fgets_def split: prod.splits if_splits)
    from accepted_line [OF row(1) less.prems(2) row(3)]
    consider (mid) "rest s = take (line_len line) line @ [NL] @ rest s1"
      | (last) "rest s = take (line_len line) line" "rest s1 = []" by blast
    then show ?thesis
    proof cases
      case mid
      then have "NUL \<notin> set (rest s1)" using less.prems(2) by simp
      from less.hyps [OF fgets_shorter [OF row(1)] row(8) this f] mid show ?thesis
        by (auto simp: lines_of_def print_rows_def)
    next
      case last
      then have "load_rows s1 lb = Inr (s1, lb)" for lb
        by (subst load_rows.simps) (simp add: fgets_def take_line_end MAX_COLS_def)
      with row(8) last show ?thesis by (auto simp: lines_of_def print_rows_def)
    qed
  qed
qed

text \<open>
  C25: A map that \<open>loadMap\<close> accepts has between 1 and 100 rows, all of one length between 1 and
  100, consisting of walls, empty spaces and digits, its floor is connected, and (in a file
  without null bytes) its rows are exactly the lines of the file.
\<close>
theorem loadMap_sound:
  assumes "loadMap (Some s) = Some (Inr lab)" "NUL \<notin> set (rest s)"
  shows "wf_map lab \<and> connected lab \<and> lines_of (rest s) (cells lab)"
  using loadMap_wf [OF assms(1)] load_rows_lines [OF _ assms(2)] by fastforce

definition small_map :: labyrinth where
  "small_map = \<lparr>cells = [''1.'', ''#.''], rows = 2, cols = 2\<rparr>"

definition small_file :: stream where
  "small_file = \<lparr>rest = ''1.'' @ [NL] @ ''#.'', read_fails = False\<rparr>"

lemma load_small: "loadMap (Some small_file) = Some (Inr small_map)"
  by code_simp

theorem loadMap_sound_witness:
  "wf_map small_map \<and> connected small_map \<and> lines_of (rest small_file) (cells small_map)"
  by (rule loadMap_sound [OF load_small]) (simp add: small_file_def)

end
