(* ===== verification/LabyrinthPlay.thy ===== *)
theory LabyrinthPlay
  imports LabyrinthMap
begin

text \<open>
  \<open>saveMap\<close>, \<open>movePlayer\<close> and \<open>main\<close> of \<open>m1/labyrinth.c\<close>: the file written is read back as the same
  map, a move changes exactly two cells and keeps the map valid, and \<open>main\<close> leaves a file that
  loads as the moved map or does not touch it.
\<close>

subsection \<open>Writing and reading back\<close>

lemma map_char_plain: "map_char c \<Longrightarrow> c \<noteq> NL \<and> c \<noteq> NUL"
  by (auto simp: map_char_def isValidPlayer_def)

lemma row_plain: "row_ok n l \<Longrightarrow> NL \<notin> set l \<and> NUL \<notin> set l"
  using map_char_plain by (auto simp: row_ok_def list_all_iff)

lemma load_rows_end:
  "load_rows \<lparr>rest = [], read_fails = f\<rparr> lab = Inr (\<lparr>rest = [], read_fails = f\<rparr>, lab)"
  by (subst load_rows.simps) (simp add: fgets_eof MAX_COLS_def)

lemma load_rows_row:
  assumes "row_ok n l" "1 \<le> n" "n \<le> int MAX_COLS" "rows lab < MAX_ROWS" "cols lab = -1 \<or> cols lab = n"
  shows "load_rows \<lparr>rest = l @ NL # cs, read_fails = f\<rparr> lab =
    load_rows \<lparr>rest = cs, read_fails = f\<rparr>
      (lab\<lparr>cells := cells lab @ [l], rows := rows lab + 1, cols := n\<rparr>)"
proof -
  have l: "int (length l) = n" "\<forall>c \<in> set l. map_char c"
    using assms(1) by (auto simp: row_ok_def list_all_iff)
  have "fgets (MAX_COLS + 3) \<lparr>rest = l @ NL # cs, read_fails = f\<rparr> =
      Some (l @ [NL], \<lparr>rest = cs, read_fails = f\<rparr>, False)"
    using row_plain [OF assms(1)] l(1) assms(3) by (intro fgets_line) auto
  moreover have "line_len (l @ [NL]) = length l" using row_plain [OF assms(1)] line_len_line by blast
  moreover have "find (\<lambda>ch. \<not> map_char ch) l = None" using l(2) by (simp add: find_None_iff)
  ultimately show ?thesis
    using assms(2-5) l(1)
    by (subst load_rows.simps) (auto simp: Let_def byte_at_def)
qed

lemma load_rows_print:
  assumes "list_all (row_ok n) ls" "1 \<le> n" "n \<le> int MAX_COLS"
    and "rows lab + int (length ls) \<le> MAX_ROWS" "cols lab = -1 \<or> cols lab = n"
  shows "load_rows \<lparr>rest = print_rows ls, read_fails = f\<rparr> lab =
    Inr (\<lparr>rest = [], read_fails = f\<rparr>,
      lab\<lparr>cells := cells lab @ ls, rows := rows lab + int (length ls),
        cols := (if ls = [] then cols lab else n)\<rparr>)"
  using assms
proof (induction ls arbitrary: lab)
  case Nil
  then show ?case by (simp add: print_rows_def load_rows_end)
next
  case (Cons l ls)
  have "print_rows (l # ls) = l @ NL # print_rows ls" by (simp add: print_rows_def)
  with Cons load_rows_row [of n l lab "print_rows ls" f] show ?case by simp
qed

text \<open>How the file is left by a \<open>saveMap\<close> in which nothing fails.\<close>

definition no_faults :: write_env where
  "no_faults = \<lparr>can_open = True, row_fails = None, can_close = True\<rparr>"

lemma loadMap_print:
  assumes "wf_map lab" "connected lab"
  shows "loadMap (Some \<lparr>rest = print_rows (cells lab), read_fails = False\<rparr>) = Some (Inr lab)"
proof -
  have ne: "cells lab \<noteq> []" using assms(1) by (auto simp: wf_map_def)
  have "load_rows \<lparr>rest = print_rows (cells lab), read_fails = False\<rparr>
      \<lparr>cells = [], rows = 0, cols = -1\<rparr> = Inr (\<lparr>rest = [], read_fails = False\<rparr>, lab)"
    using assms(1) ne by (subst load_rows_print [of "cols lab"]) (auto simp: wf_map_def)
  then show ?thesis
    using assms by (auto simp: loadMap_def isConnected_connected wf_map_def)
qed

lemma saveMap_success:
  assumes "saveMap w lab = (Inr (), out)" "wf_map lab"
  shows "out = Some (print_rows (cells lab))"
proof -
  have "take (nat (rows lab)) (cells lab) = cells lab" using assms(2) by (auto simp: wf_map_def)
  with assms(1) show ?thesis by (auto simp: saveMap_def Let_def split: if_splits)
qed

text \<open>
  C26: If \<open>saveMap\<close> reports success on a valid, connected map, \<open>loadMap\<close> of the file it wrote
  succeeds and returns the same map.
\<close>
theorem save_then_load:
  assumes "wf_map lab" "connected lab" "saveMap w lab = (Inr (), out)"
  shows "\<exists>text. out = Some text \<and>
    loadMap (Some \<lparr>rest = text, read_fails = False\<rparr>) = Some (Inr lab)"
  using saveMap_success [OF assms(3,1)] loadMap_print [OF assms(1,2)] by simp

lemma small_map_ok: "wf_map small_map" "connected small_map"
  using loadMap_wf [OF load_small] by simp_all

theorem save_then_load_witness:
  "\<exists>text. Some (print_rows [''1.'', ''#.'']) = Some text \<and>
    loadMap (Some \<lparr>rest = text, read_fails = False\<rparr>) = Some (Inr small_map)"
  by (rule save_then_load [OF small_map_ok, of no_faults])
    (simp add: saveMap_def no_faults_def small_map_def)

subsection \<open>Moves\<close>

lemma find_cell_cases:
  obtains (missing) "find_cell lab P = (-1, -1)" "\<forall>q \<in> board lab. \<not> P (cell lab (fst q) (snd q))"
  | (found) r c where "find_cell lab P = (r, c)" "(r, c) \<in> board lab" "P (cell lab r c)"
proof (cases "find (\<lambda>(r, c). P (cell lab r c)) (positions lab)")
  case None
  then have "\<forall>q \<in> board lab. \<not> P (cell lab (fst q) (snd q))"
    by (auto simp: find_None_iff set_positions)
  with missing None show thesis by (simp add: find_cell_def)
next
  case (Some p)
  obtain r c where "p = (r, c)" by (cases p)
  with Some have "P (cell lab r c)" "(r, c) \<in> set (positions lab)"
    by (auto simp: find_Some_iff in_set_conv_nth)
  moreover have "find_cell lab P = (r, c)" using Some \<open>p = (r, c)\<close> by (simp add: find_cell_def)
  ultimately show thesis by (intro found [of r c]) (simp_all add: set_positions)
qed

lemma board_index:
  assumes "wf_map lab" "(r, c) \<in> board lab"
  shows "nat r < length (cells lab)" "nat c < length (cells lab ! nat r)" "0 \<le> r" "0 \<le> c"
proof -
  show r: "nat r < length (cells lab)" "0 \<le> r" "0 \<le> c"
    using assms by (auto simp: wf_map_def board_def outside_def)
  have "row_ok (cols lab) (cells lab ! nat r)"
    using assms(1) r(1) by (simp add: wf_map_def list_all_length)
  then show "nat c < length (cells lab ! nat r)"
    using assms(2) r by (auto simp: row_ok_def board_def outside_def)
qed

lemma set_cell_dims [simp]:
  "rows (set_cell lab r c ch) = rows lab" "cols (set_cell lab r c ch) = cols lab"
  "outside (set_cell lab r c ch) = outside lab" "board (set_cell lab r c ch) = board lab"
  by (auto simp: set_cell_def outside_def board_def fun_eq_iff)

lemma cell_set_cell:
  assumes "wf_map lab" "(r, c) \<in> board lab" "(r', c') \<in> board lab"
  shows "cell (set_cell lab r c ch) r' c' = (if (r', c') = (r, c) then ch else cell lab r' c')"
proof -
  note i = board_index [OF assms(1,2)] and j = board_index [OF assms(1,3)]
  have "nat r = nat r' \<longleftrightarrow> r = r'" "nat c = nat c' \<longleftrightarrow> c = c'" using i j by auto
  with i j show ?thesis by (auto simp: cell_def set_cell_def nth_list_update)
qed

lemma wf_set_cell:
  assumes "wf_map lab" "(r, c) \<in> board lab" "map_char ch"
  shows "wf_map (set_cell lab r c ch)"
proof -
  note i = board_index [OF assms(1,2)]
  have "row_ok (cols lab) ((cells lab ! nat r)[nat c := ch])"
  proof -
    have "row_ok (cols lab) (cells lab ! nat r)"
      using assms(1) i(1) by (simp add: wf_map_def list_all_length)
    then show ?thesis
      using assms(3) set_update_subset_insert [of "cells lab ! nat r" "nat c" ch]
      by (auto simp: row_ok_def list_all_iff)
  qed
  then have "list_all (row_ok (cols lab)) ((cells lab)[nat r := (cells lab ! nat r)[nat c := ch]])"
    using assms(1) set_update_subset_insert [of "cells lab" "nat r"] by (fastforce simp: wf_map_def list_all_iff)
  then show ?thesis using assms(1) by (simp add: wf_map_def set_cell_def)
qed

text \<open>The cells that carry a character.\<close>

definition cells_with :: "labyrinth \<Rightarrow> char \<Rightarrow> position set" where
  "cells_with lab ch = {q \<in> board lab. cell lab (fst q) (snd q) = ch}"

text \<open>\<open>moved lab p from dest lab'\<close>: \<open>lab'\<close> is \<open>lab\<close> with player \<open>p\<close> taken from \<open>src\<close> (if it was there)
  to the empty cell \<open>dest\<close>.\<close>

definition moved :: "labyrinth \<Rightarrow> char \<Rightarrow> position \<Rightarrow> position \<Rightarrow> labyrinth \<Rightarrow> bool" where
  "moved lab p src dest lab' \<longleftrightarrow>
     src \<in> board lab \<and> dest \<in> board lab \<and> cell lab (fst dest) (snd dest) = CHR ''.'' \<and>
     rows lab' = rows lab \<and> cols lab' = cols lab \<and>
     (\<forall>q \<in> board lab. cell lab' (fst q) (snd q) =
        (if q = dest then p
         else if q = src then CHR ''.'' else cell lab (fst q) (snd q)))"

lemma player_char: "isValidPlayer p \<Longrightarrow> map_char p \<and> is_floor p \<and> p \<noteq> CHR ''.''"
  by (auto simp: map_char_def is_floor_def isValidPlayer_def)

lemma moved_same_floor:
  assumes "moved lab p src dest lab'" "isValidPlayer p" "is_floor (cell lab (fst src) (snd src))"
  shows "floor_at lab' = floor_at lab"
proof
  fix q
  have "outside lab' = outside lab"
    using assms(1) by (auto simp: moved_def outside_def fun_eq_iff)
  moreover have "q \<in> board lab \<Longrightarrow>
      is_floor (cell lab' (fst q) (snd q)) = is_floor (cell lab (fst q) (snd q))"
    using assms player_char by (auto simp: moved_def is_floor_def)
  ultimately show "floor_at lab' q = floor_at lab q" by (auto simp: floor_at_def board_def)
qed

lemma same_floor_connected: "floor_at lab' = floor_at lab \<Longrightarrow> connected lab' = connected lab"
  by (simp add: connected_def corridor_def)

lemma direction_nonzero: "direction d = Some (dr, dc) \<Longrightarrow> (r + dr, c + dc) \<noteq> (r, c)"
  by (auto simp: direction_def split: if_splits)

lemma empty_inside: "isEmptySpace lab r c \<Longrightarrow> (r, c) \<in> board lab \<and> cell lab r c = CHR ''.''"
  by (auto simp: isEmptySpace_def board_def split: if_splits)

text \<open>Where a move starts: at the player, or at the first empty space if the player is not there.\<close>

definition starts_at :: "labyrinth \<Rightarrow> char \<Rightarrow> position \<Rightarrow> bool" where
  "starts_at lab p src \<longleftrightarrow>
     (if cells_with lab p = {} then src = findFirstEmptySpace lab \<and> src \<in> cells_with lab CHR ''.''
      else src = findPlayer lab p \<and> src \<in> cells_with lab p)"

lemma movePlayer_start:
  assumes "movePlayer lab p d = Inr lab'"
  obtains dr dc r c where "direction d = Some (dr, dc)" "starts_at lab p (r, c)"
    "isEmptySpace lab (r + dr) (c + dc)"
    "lab' = set_cell (if cells_with lab p = {} then lab else set_cell lab r c CHR ''.'')
       (r + dr) (c + dc) p"
proof -
  obtain dr dc where d: "direction d = Some (dr, dc)"
    using assms by (auto simp: movePlayer_def split: option.splits)
  consider (missing) "findPlayer lab p = (-1, -1)" "cells_with lab p = {}"
    | (found) r c where "findPlayer lab p = (r, c)" "(r, c) \<in> cells_with lab p"
    by (cases rule: find_cell_cases [of lab "\<lambda>ch. ch = p"])
      (auto simp: findPlayer_def cells_with_def)
  then show thesis
  proof cases
    case missing
    with assms d have f: "fst (findFirstEmptySpace lab) \<noteq> -1"
      by (auto simp: movePlayer_def split: if_splits)
    then obtain r c where rc: "findFirstEmptySpace lab = (r, c)" "(r, c) \<in> cells_with lab CHR ''.''"
      by (cases rule: find_cell_cases [of lab "\<lambda>ch. ch = CHR ''.''"])
        (auto simp: findFirstEmptySpace_def cells_with_def)
    with missing assms d f show thesis
      by (intro that [of dr dc r c])
        (auto simp: movePlayer_def Let_def starts_at_def split: if_splits)
  next
    case (found r c)
    then have "0 \<le> r" by (auto simp: cells_with_def board_def outside_def)
    with found assms d show thesis
      by (intro that [of dr dc r c])
        (auto simp: movePlayer_def Let_def starts_at_def split: if_splits)
  qed
qed

lemma movePlayer_moves:
  assumes "wf_map lab" "isValidPlayer p" "movePlayer lab p d = Inr lab'"
  obtains dr dc src where "direction d = Some (dr, dc)" "starts_at lab p src"
    "moved lab p src (fst src + dr, snd src + dc) lab'" "wf_map lab'"
proof -
  obtain dr dc r c where m: "direction d = Some (dr, dc)" "starts_at lab p (r, c)"
    "isEmptySpace lab (r + dr) (c + dc)"
    "lab' = set_cell (if cells_with lab p = {} then lab else set_cell lab r c CHR ''.'')
       (r + dr) (c + dc) p"
    using movePlayer_start [OF assms(3)] .
  note e = empty_inside [OF m(3)]
  have src: "(r, c) \<in> board lab" "cells_with lab p = {} \<longrightarrow> cell lab r c = CHR ''.''"
    using m(2) by (auto simp: starts_at_def cells_with_def split: if_splits)
  let ?lab = "if cells_with lab p = {} then lab else set_cell lab r c CHR ''.''"
  have dot: "map_char CHR ''.''" by (simp add: map_char_def)
  have wf: "wf_map ?lab" using assms(1) wf_set_cell [OF _ src(1) dot] by simp
  have wf': "wf_map lab'"
    unfolding m(4) using e player_char [OF assms(2)] by (intro wf_set_cell wf) auto
  have b: "board ?lab = board lab" by simp
  have step: "cell lab' r' c' = (if (r', c') = (r + dr, c + dc) then p else cell ?lab r' c')"
    if "(r', c') \<in> board lab" for r' c'
    unfolding m(4) using e that b by (intro cell_set_cell wf) auto
  have at_src: "cell ?lab r' c' = (if (r', c') = (r, c) then CHR ''.'' else cell lab r' c')"
    if "(r', c') \<in> board lab" for r' c'
    using cell_set_cell [OF assms(1) src(1) that] src(2) by (cases "(r', c') = (r, c)") auto
  have all: "cell lab' (fst q) (snd q) = (if q = (r + dr, c + dc) then p
      else if q = (r, c) then CHR ''.'' else cell lab (fst q) (snd q))" if "q \<in> board lab" for q
    using step [of "fst q" "snd q"] at_src [of "fst q" "snd q"] that unfolding prod.collapse by metis
  have "rows lab' = rows lab" "cols lab' = cols lab" by (simp_all add: m(4))
  then have "moved lab p (r, c) (r + dr, c + dc) lab'"
    unfolding moved_def using all src(1) e by (simp only: fst_conv snd_conv) blast
  with that m(1,2) wf' show thesis by (metis fst_conv snd_conv)
qed

text \<open>
  C24: When \<open>movePlayer\<close> succeeds on a valid map, the player has moved one step in the named
  direction, onto a cell inside the map that was empty, from the cell where it stood (which is
  empty afterwards) or, if it was not on the map, from the first empty space; every other cell is
  unchanged, the map is still valid, and its floor is connected if it was before.
\<close>
theorem movePlayer_correct:
  assumes "wf_map lab" "isValidPlayer p" "movePlayer lab p d = Inr lab'"
  shows "\<exists>dr dc src. direction d = Some (dr, dc) \<and> starts_at lab p src \<and>
    moved lab p src (fst src + dr, snd src + dc) lab' \<and> wf_map lab' \<and> connected lab' = connected lab"
proof -
  obtain dr dc src where m: "direction d = Some (dr, dc)" "starts_at lab p src"
    "moved lab p src (fst src + dr, snd src + dc) lab'" "wf_map lab'"
    using movePlayer_moves [OF assms] .
  have "is_floor (cell lab (fst src) (snd src))"
    using m(2) player_char [OF assms(2)]
    by (auto simp: starts_at_def cells_with_def is_floor_def split: if_splits)
  from same_floor_connected [OF moved_same_floor [OF m(3) assms(2) this]] m show ?thesis by blast
qed

lemma move_small: "movePlayer small_map CHR ''1'' ''right'' =
    Inr \<lparr>cells = [''.1'', ''#.''], rows = 2, cols = 2\<rparr>"
  by code_simp

theorem movePlayer_correct_witness:
  "\<exists>dr dc src. direction ''right'' = Some (dr, dc) \<and> starts_at small_map CHR ''1'' src \<and>
    moved small_map CHR ''1'' src (fst src + dr, snd src + dc)
      \<lparr>cells = [''.1'', ''#.''], rows = 2, cols = 2\<rparr> \<and>
    wf_map \<lparr>cells = [''.1'', ''#.''], rows = 2, cols = 2\<rparr> \<and>
    connected \<lparr>cells = [''.1'', ''#.''], rows = 2, cols = 2\<rparr> = connected small_map"
  by (rule movePlayer_correct [OF small_map_ok(1) _ move_small]) code_simp

text \<open>After a move a player who was on the map at most once is on it exactly once.\<close>

lemma moved_cells_with:
  assumes "moved lab p src dest lab'" "p \<noteq> CHR ''.''"
  shows "cells_with lab' p = insert dest (cells_with lab p - {src})"
proof -
  have "board lab' = board lab" using assms(1) by (auto simp: moved_def board_def outside_def)
  with assms show ?thesis by (auto simp: moved_def cells_with_def split: if_splits)
qed

text \<open>
  If a player stands on at most one cell of a valid map, a successful \<open>movePlayer\<close> leaves the
  player on exactly one cell.
\<close>
theorem movePlayer_keeps_one_player:
  assumes "wf_map lab" "isValidPlayer p" "movePlayer lab p d = Inr lab'"
    and "card (cells_with lab p) \<le> 1"
  shows "card (cells_with lab' p) = 1"
proof -
  obtain dr dc src where m: "starts_at lab p src" "moved lab p src (fst src + dr, snd src + dc) lab'"
    using movePlayer_moves [OF assms(1-3)] .
  have "finite (cells_with lab p)"
    using finite_board by (auto simp: cells_with_def)
  then have "cells_with lab p \<subseteq> {src}"
    using assms(4) m(1) by (auto simp: starts_at_def card_le_Suc0_iff_eq split: if_splits)
  then have "cells_with lab' p = {(fst src + dr, snd src + dc)}"
    using moved_cells_with [OF m(2)] player_char [OF assms(2)] by auto
  then show ?thesis by simp
qed

theorem movePlayer_keeps_one_player_witness:
  "card (cells_with \<lparr>cells = [''.1'', ''#.''], rows = 2, cols = 2\<rparr> CHR ''1'') = 1"
proof (rule movePlayer_keeps_one_player [OF small_map_ok(1) _ move_small])
  show "isValidPlayer CHR ''1''" by code_simp
  have "cells_with small_map CHR ''1'' \<subseteq> {(0, 0)}"
  proof -
    have "filter (\<lambda>q. cell small_map (fst q) (snd q) = CHR ''1'') (positions small_map) = [(0, 0)]"
      by code_simp
    then have "set (filter (\<lambda>q. cell small_map (fst q) (snd q) = CHR ''1'') (positions small_map)) =
        set [(0, 0)]" by (rule arg_cong)
    then show ?thesis by (auto simp: cells_with_def set_positions)
  qed
  from card_mono [OF _ this] show "card (cells_with small_map CHR ''1'') \<le> 1" by simp
qed

subsection \<open>main\<close>

text \<open>The last option of a kind is the one that counts.\<close>

definition last_of :: "('a \<Rightarrow> 'b option) \<Rightarrow> 'a list \<Rightarrow> 'b option" where
  "last_of f xs = (case List.map_filter f xs of [] \<Rightarrow> None | ys \<Rightarrow> Some (last ys))"

lemma last_of_simps [simp]:
  "last_of f [] = None"
  "last_of f (x # xs) = (case last_of f xs of None \<Rightarrow> f x | Some y \<Rightarrow> Some y)"
  by (auto simp: last_of_def map_filter_def split: option.split list.split)

fun opt_map :: "opt \<Rightarrow> string option" where
  "opt_map (Opt_Map f) = Some f"
| "opt_map _ = None"

fun opt_player :: "opt \<Rightarrow> string option" where
  "opt_player (Opt_Player p) = Some p"
| "opt_player _ = None"

fun opt_move :: "opt \<Rightarrow> string option" where
  "opt_move (Opt_Move d) = Some d"
| "opt_move _ = None"

text \<open>Every option is known and every player is one digit.\<close>

definition all_valid :: "opt list \<Rightarrow> bool" where
  "all_valid os \<longleftrightarrow> Opt_Bad \<notin> set os \<and> (\<forall>p. Opt_Player p \<in> set os \<longrightarrow> length p = 1 \<and> isValidPlayer (hd p))"

text \<open>The options ask for the map \<open>f\<close>, the player \<open>p\<close> and, with \<open>m = Some d\<close>, for the move \<open>d\<close>.\<close>

definition asks :: "opt list \<Rightarrow> string \<Rightarrow> char \<Rightarrow> string option \<Rightarrow> bool" where
  "asks os f p m \<longleftrightarrow> all_valid os \<and> Opt_Version \<notin> set os \<and>
     last_of opt_map os = Some f \<and> last_of opt_player os = Some [p] \<and> last_of opt_move os = m"

definition given :: "'a option \<Rightarrow> 'a option \<Rightarrow> 'a option" where
  "given x old = (case x of None \<Rightarrow> old | Some y \<Rightarrow> Some y)"

lemma parse_options_invalid: "\<not> all_valid os \<Longrightarrow> \<exists>e. parse_options os o1 = Inl e"
proof (induction os o1 rule: parse_options.induct)
  case (3 p os opts)
  then show ?case by (cases "length p \<noteq> 1 \<or> \<not> isValidPlayer (hd p)") (auto simp: all_valid_def)
qed (auto simp: all_valid_def)

lemma parse_options_valid:
  "all_valid os \<Longrightarrow> \<exists>o2. parse_options os o1 = Inr o2 \<and>
     map_file o2 = given (last_of opt_map os) (map_file o1) \<and>
     move_direction o2 = given (last_of opt_move os) (move_direction o1) \<and>
     (has_player o2 \<longleftrightarrow> has_player o1 \<or> last_of opt_player os \<noteq> None) \<and>
     player_id o2 = (case last_of opt_player os of None \<Rightarrow> player_id o1 | Some p \<Rightarrow> hd p) \<and>
     (show_version o2 \<longleftrightarrow> show_version o1 \<or> Opt_Version \<in> set os)"
proof (induction os o1 rule: parse_options.induct)
  case (1 opts)
  show ?case by (simp add: given_def)
next
  case (2 f os opts)
  then have "all_valid os" by (simp add: all_valid_def)
  from "2.IH" [OF this] show ?case by (fastforce simp: given_def split: option.split)
next
  case (3 p os opts)
  then have v: "all_valid os" "\<not> (length p \<noteq> 1 \<or> \<not> isValidPlayer (hd p))" by (auto simp: all_valid_def)
  from "3.IH" [OF v(2,1)] v(2) show ?case by (fastforce simp: given_def split: option.split)
next
  case (4 d os opts)
  then have "all_valid os" by (simp add: all_valid_def)
  from "4.IH" [OF this] show ?case by (fastforce simp: given_def split: option.split)
next
  case (5 os opts)
  then have "all_valid os" by (simp add: all_valid_def)
  from "5.IH" [OF this] show ?case by (fastforce simp: given_def split: option.split)
qed (simp add: all_valid_def)

lemma last_of_player: "all_valid os \<Longrightarrow> last_of opt_player os = Some p \<Longrightarrow> p = [hd p] \<and> isValidPlayer (hd p)"
proof (induction os)
  case (Cons o' os)
  then have v: "all_valid os" by (simp add: all_valid_def)
  show ?case
  proof (cases "last_of opt_player os")
    case (Some q)
    with Cons v show ?thesis by simp
  next
    case None
    with Cons.prems have "o' = Opt_Player p" by (cases o') auto
    with Cons.prems(1) have "length p = 1" "isValidPlayer (hd p)" by (auto simp: all_valid_def)
    then show ?thesis by (cases p) auto
  qed
qed simp

lemma loadMap_total: "\<exists>r. loadMap f = Some r"
  by (auto simp: loadMap_def isConnected_connected split: option.splits sum.splits)

text \<open>What a run of \<open>main\<close> does that is asked for the map \<open>f\<close>, the player \<open>p\<close> and perhaps a move.\<close>

definition run_of :: "world \<Rightarrow> string \<Rightarrow> char \<Rightarrow> string option \<Rightarrow> (main_error option + unit) \<Rightarrow> world \<Rightarrow> bool" where
  "run_of w f p m r w' \<longleftrightarrow>
     (case the (loadMap (files w f)) of
        Inl e \<Rightarrow> r = Inl (Some (Lab_Error e)) \<and> w' = w
      | Inr lab \<Rightarrow>
          (case m of
             None \<Rightarrow> files w' = files w \<and> (if fst (print_map (out_fails w) lab)
               then r = Inr () \<and> stdout_text w' = stdout_text w @ print_rows (cells lab) else r = Inl None)
           | Some d \<Rightarrow>
               (case movePlayer lab p d of
                  Inl e \<Rightarrow> r = Inl (Some (Lab_Error e)) \<and> w' = w
                | Inr lab' \<Rightarrow> (\<forall>g. g = f \<or> files w' g = files w g) \<and>
                    (case fst (saveMap (writes w) lab') of
                       Inl e \<Rightarrow> r = Inl (Some (Lab_Error e))
                     | Inr _ \<Rightarrow> r = Inr () \<and> loadMap (files w' f) = Some (Inr lab')))))"

lemma save_to_loads:
  assumes "loadMap (files w f) = Some (Inr lab)" "isValidPlayer p" "movePlayer lab p d = Inr lab'"
    and "save_to w f lab' = (r, w')"
  shows "r = fst (saveMap (writes w) lab')" "\<forall>g. g = f \<or> files w' g = files w g"
    "r = Inr () \<Longrightarrow> loadMap (files w' f) = Some (Inr lab')"
proof -
  have lab: "wf_map lab" "connected lab"
    using assms(1) loadMap_wf by (auto simp: loadMap_def split: option.splits)
  obtain dr dc src where m: "starts_at lab p src" "moved lab p src (fst src + dr, snd src + dc) lab'"
    "wf_map lab'" using movePlayer_moves [OF lab(1) assms(2,3)] .
  have "is_floor (cell lab (fst src) (snd src))"
    using m(1) player_char [OF assms(2)]
    by (auto simp: starts_at_def cells_with_def is_floor_def split: if_splits)
  with same_floor_connected [OF moved_same_floor [OF m(2) assms(2)]] lab have c: "connected lab'" by simp
  obtain out where out: "saveMap (writes w) lab' = (r, out)"
    using assms(4) by (auto simp: save_to_def split: prod.splits option.splits)
  then show "r = fst (saveMap (writes w) lab')" by simp
  show "\<forall>g. g = f \<or> files w' g = files w g"
    using assms(4) out by (auto simp: save_to_def split: option.splits if_splits)
  show "loadMap (files w' f) = Some (Inr lab')" if "r = Inr ()"
    using saveMap_success [of "writes w" lab' out] out that m(3) loadMap_print [OF m(3) c] assms(4)
    by (auto simp: save_to_def)
qed

lemma print_map_text: "wf_map lab \<Longrightarrow> print_map fails lab = (True, text) \<Longrightarrow> text = print_rows (cells lab)"
proof -
  assume "wf_map lab" "print_map fails lab = (True, text)"
  moreover from this have "take (nat (rows lab)) (cells lab) = cells lab" by (auto simp: wf_map_def)
  ultimately show ?thesis by (auto simp: print_map_def Let_def split: if_splits)
qed

lemma lab_main_play:
  assumes "isValidPlayer p" "parse_options os no_options = Inr opts" "\<not> show_version opts" "map_file opts = Some f"
    and "has_player opts" "player_id opts = p" "move_direction opts = m"
  shows "\<exists>r w'. lab_main argc os False w = Some (r, w') \<and> run_of w f p m r w'"
proof -
  obtain loaded where l: "loadMap (files w f) = Some loaded" using loadMap_total by blast
  show ?thesis
  proof (cases loaded)
    case (Inl e)
    with l assms show ?thesis by (simp add: lab_main_def run_of_def)
  next
    case lab: (Inr lab)
    have wf: "wf_map lab" using l lab loadMap_wf by (auto simp: loadMap_def split: option.splits)
    show ?thesis
    proof (cases m)
      case None
      with l lab assms print_map_text [OF wf] show ?thesis
        by (cases "print_map (out_fails w) lab") (auto simp: lab_main_def run_of_def)
    next
      case (Some d)
      show ?thesis
      proof (cases "movePlayer lab p d")
        case (Inl e)
        with l lab Some assms show ?thesis by (simp add: lab_main_def run_of_def)
      next
        case (Inr lab')
        obtain r w' where s: "save_to w f lab' = (r, w')" by (cases "save_to w f lab'")
        note sv = save_to_loads [OF _ assms(1) Inr s]
        from l lab have "loadMap (files w f) = Some (Inr lab)" by simp
        note sv = sv [OF this]
        have "lab_main argc os False w =
            Some (case r of Inl e \<Rightarrow> Inl (Some (Lab_Error e)) | Inr _ \<Rightarrow> Inr (), w')"
          using l lab Some Inr s assms(2-7) by (cases r) (simp_all add: lab_main_def)
        moreover have "run_of w f p m (case r of Inl e \<Rightarrow> Inl (Some (Lab_Error e)) | Inr _ \<Rightarrow> Inr ()) w'"
          using l lab Some Inr sv(2,3) unfolding run_of_def by (cases r) (simp_all add: sv(1) [symmetric])
        ultimately show ?thesis by blast
      qed
    qed
  qed
qed

text \<open>
  C27: For every option list \<open>main\<close> returns an exit status.  When the options are valid and ask for a map
  file and a player (the last \<open>--map\<close>, \<open>--player\<close> and \<open>--move\<close> count), it loads that file; without a move it
  writes no file and prints the rows of the map; with a move it moves that player in that direction, and
  if the move succeeds writes that file and no other: it exits with success exactly when the map could be
  saved, and then the file loads as the moved map.  Otherwise no file changes and it only succeeds for
  \<open>--version\<close>.
\<close>
theorem lab_main_files:
  "\<exists>r w'. lab_main argc os operands w = Some (r, w') \<and>
     (\<forall>f p m. asks os f p m \<and> \<not> operands \<longrightarrow> run_of w f p m r w') \<and>
     ((\<exists>f p m. asks os f p m) \<and> \<not> operands \<or>
      files w' = files w \<and> (r = Inr () \<longrightarrow> all_valid os \<and> \<not> operands \<and> Opt_Version \<in> set os))"
proof (cases "all_valid os \<and> \<not> operands")
  case False
  with parse_options_invalid [of os no_options] show ?thesis
    by (cases "parse_options os no_options") (auto simp: lab_main_def asks_def)
next
  case True
  with parse_options_valid [of os no_options] obtain o2 where o2: "parse_options os no_options = Inr o2"
    "map_file o2 = last_of opt_map os" "move_direction o2 = last_of opt_move os"
    "has_player o2 = (last_of opt_player os \<noteq> None)"
    "player_id o2 = (case last_of opt_player os of None \<Rightarrow> NUL | Some p \<Rightarrow> hd p)"
    "show_version o2 = (Opt_Version \<in> set os)"
    by (auto simp: no_options_def given_def split: option.splits)
  show ?thesis
  proof (cases "show_version o2 \<or> map_file o2 = None \<or> \<not> has_player o2")
    case no: True
    with o2 have "\<not> asks os f p m" for f p m by (auto simp: asks_def)
    with no True o2 show ?thesis
      by (auto simp: lab_main_def split: option.splits)
  next
    case False
    then obtain f q where fq: "last_of opt_map os = Some f" "last_of opt_player os = Some q"
      "Opt_Version \<notin> set os" using o2 by auto
    note q = last_of_player [OF conjunct1 [OF True] fq(2)]
    from lab_main_play [of "hd q" os o2 f "last_of opt_move os" argc w] o2 fq q obtain r w' where
      r: "lab_main argc os False w = Some (r, w')" "run_of w f (hd q) (last_of opt_move os) r w'" by auto
    have "asks os f' p m \<longleftrightarrow> f' = f \<and> [p] = q \<and> m = last_of opt_move os" for f' p m
      using True fq by (auto simp: asks_def)
    with r True q show ?thesis by (metis list.sel(1))
  qed
qed

definition one_file :: world where
  "one_file = \<lparr>files = [''map.txt'' \<mapsto> \<lparr>rest = print_rows [''1.'', ''#.''], read_fails = False\<rparr>],
     writes = no_faults, out_fails = None, stdout_text = []\<rparr>"

lemma lab_main_files_witness:
  "\<exists>w'. lab_main 7 [Opt_Map ''map.txt'', Opt_Player ''1'', Opt_Move ''right''] False one_file = Some (Inr (), w') \<and>
     loadMap (files w' ''map.txt'') = Some (Inr \<lparr>cells = [''.1'', ''#.''], rows = 2, cols = 2\<rparr>)"
proof -
  let ?os = "[Opt_Map ''map.txt'', Opt_Player ''1'', Opt_Move ''right'']"
  have a: "asks ?os ''map.txt'' CHR ''1'' (Some ''right'')"
    by (auto simp: asks_def all_valid_def isValidPlayer_def)
  obtain r w' where m: "lab_main 7 ?os False one_file = Some (r, w')"
    "run_of one_file ''map.txt'' CHR ''1'' (Some ''right'') r w'"
    using lab_main_files [of 7 ?os False one_file] a by blast
  have l: "loadMap (files one_file ''map.txt'') = Some (Inr small_map)"
    using loadMap_print [OF small_map_ok] by (simp add: one_file_def small_map_def)
  have s: "fst (saveMap (writes one_file) \<lparr>cells = [''.1'', ''#.''], rows = 2, cols = 2\<rparr>) = Inr ()"
    by (simp add: saveMap_def one_file_def no_faults_def)
  from m l s show ?thesis by (simp add: run_of_def move_small)
qed

end
