(* ===== verification/Fat.thy ===== *)
theory Fat
  imports Prelude "HOL-Library.Monad_Syntax"
begin

text \<open>
  The recovery tool \<open>m8/fsrecov.c\<close> with the on-disk structures of \<open>m8/fat32.h\<close>.  The mapped
  image is a list of bytes; a read past its end is \<open>None\<close>, as is a scan that does not end.
  Sizes and offsets are 64-bit words, as \<open>size_t\<close> is.  Characters are bytes.
\<close>

definition ENTRY_SIZE :: u64 where "ENTRY_SIZE = 32"
definition MAX_NAME :: nat where "MAX_NAME = 256"
definition MAX_FOUND :: nat where "MAX_FOUND = 4096"
definition MAX_LFN_PARTS :: nat where "MAX_LFN_PARTS = 20"
definition ATTR_DIRECTORY :: u8 where "ATTR_DIRECTORY = 0x10"
definition ATTR_ARCHIVE :: u8 where "ATTR_ARCHIVE = 0x20"
definition ATTR_LFN :: u8 where "ATTR_LFN = 0x0f"

subsection \<open>On-disk structures\<close>

record fat32hdr =
  BS_jmpBoot :: bytes
  BS_OEMName :: bytes
  BPB_BytsPerSec :: u16
  BPB_SecPerClus :: u8
  BPB_RsvdSecCnt :: u16
  BPB_NumFATs :: u8
  BPB_RootEntCnt :: u16
  BPB_TotSec16 :: u16
  BPB_Media :: u8
  BPB_FATSz16 :: u16
  BPB_SecPerTrk :: u16
  BPB_NumHeads :: u16
  BPB_HiddSec :: u32
  BPB_TotSec32 :: u32
  BPB_FATSz32 :: u32
  BPB_ExtFlags :: u16
  BPB_FSVer :: u16
  BPB_RootClus :: u32
  BPB_FSInfo :: u16
  BPB_BkBootSec :: u16
  BPB_Reserved :: bytes
  BS_DrvNum :: u8
  BS_Reserved1 :: u8
  BS_BootSig :: u8
  BS_VolID :: u32
  BS_VolLab :: bytes
  BS_FilSysType :: bytes
  padding_1 :: bytes
  Signature_word :: u16

abbreviation part :: "bytes \<Rightarrow> nat \<Rightarrow> nat \<Rightarrow> bytes" where
  "part bs i n \<equiv> take n (drop i bs)"

text \<open>The packed header over the first 512 bytes of the image.\<close>

definition hdr_of :: "bytes \<Rightarrow> fat32hdr" where
  "hdr_of b = \<lparr>BS_jmpBoot = part b 0 3, BS_OEMName = part b 3 8, BPB_BytsPerSec = get16 b 11,
     BPB_SecPerClus = b ! 13, BPB_RsvdSecCnt = get16 b 14, BPB_NumFATs = b ! 16,
     BPB_RootEntCnt = get16 b 17, BPB_TotSec16 = get16 b 19, BPB_Media = b ! 21,
     BPB_FATSz16 = get16 b 22, BPB_SecPerTrk = get16 b 24, BPB_NumHeads = get16 b 26,
     BPB_HiddSec = get32 b 28, BPB_TotSec32 = get32 b 32, BPB_FATSz32 = get32 b 36,
     BPB_ExtFlags = get16 b 40, BPB_FSVer = get16 b 42, BPB_RootClus = get32 b 44,
     BPB_FSInfo = get16 b 48, BPB_BkBootSec = get16 b 50, BPB_Reserved = part b 52 12,
     BS_DrvNum = b ! 64, BS_Reserved1 = b ! 65, BS_BootSig = b ! 66, BS_VolID = get32 b 67,
     BS_VolLab = part b 71 11, BS_FilSysType = part b 82 8, padding_1 = part b 90 420,
     Signature_word = get16 b 510\<rparr>"

record fat32dent =
  DIR_Name :: bytes
  DIR_Attr :: u8
  DIR_NTRes :: u8
  DIR_CrtTimeTenth :: u8
  DIR_CrtTime :: u16
  DIR_CrtDate :: u16
  DIR_LastAccDate :: u16
  DIR_FstClusHI :: u16
  DIR_WrtTime :: u16
  DIR_WrtDate :: u16
  DIR_FstClusLO :: u16
  DIR_FileSize :: u32

definition dent_of :: "bytes \<Rightarrow> fat32dent" where
  "dent_of b = \<lparr>DIR_Name = part b 0 11, DIR_Attr = b ! 11, DIR_NTRes = b ! 12,
     DIR_CrtTimeTenth = b ! 13, DIR_CrtTime = get16 b 14, DIR_CrtDate = get16 b 16,
     DIR_LastAccDate = get16 b 18, DIR_FstClusHI = get16 b 20, DIR_WrtTime = get16 b 22,
     DIR_WrtDate = get16 b 24, DIR_FstClusLO = get16 b 26, DIR_FileSize = get32 b 28\<rparr>"

text \<open>\<open>n\<close> bytes of the image at an address.\<close>

definition bytes_at :: "bytes \<Rightarrow> nat \<Rightarrow> nat \<Rightarrow> bytes option" where
  "bytes_at img i n = (if i + n \<le> length img then Some (part img i n) else None)"

definition read_u16 :: "bytes \<Rightarrow> nat \<Rightarrow> u16 option" where
  "read_u16 img i = do { b \<leftarrow> bytes_at img i 2; Some (get16 b 0) }"

definition read_u32 :: "bytes \<Rightarrow> nat \<Rightarrow> u32 option" where
  "read_u32 img i = do { b \<leftarrow> bytes_at img i 4; Some (get32 b 0) }"

subsection \<open>The view of the file system\<close>

record fat_view_t =
  image_size :: u64
  cluster_size :: u64
  data_offset :: u64

definition fat_image_bytes :: "fat32hdr \<Rightarrow> u64" where
  "fat_image_bytes hdr =
     (let sectors = BPB_TotSec32 hdr;
          sectors = (if sectors = 0 then ucast (BPB_TotSec16 hdr) else sectors)
      in ucast sectors * ucast (BPB_BytsPerSec hdr))"

text \<open>\<open>Some None\<close> is the result false.\<close>

definition init_fat_view :: "bytes \<Rightarrow> u64 \<Rightarrow> fat_view_t option option" where
  "init_fat_view img size_arg =
     (if size_arg < 512 then Some None
      else do {
        b \<leftarrow> bytes_at img 0 512;
        let hdr = hdr_of b in
        Some
          (if Signature_word hdr \<noteq> 0xaa55 \<or> BPB_BytsPerSec hdr = 0 \<or> BPB_SecPerClus hdr = 0 \<or>
              BPB_NumFATs hdr = 0 \<or> BPB_FATSz32 hdr = 0 then None
           else
             let declared_size = fat_image_bytes hdr in
               if declared_size = 0 \<or> declared_size > size_arg then None
               else
                 let fat = \<lparr>image_size = declared_size,
                       cluster_size = ucast (BPB_BytsPerSec hdr) * ucast (BPB_SecPerClus hdr),
                       data_offset = (ucast (BPB_RsvdSecCnt hdr) +
                           ucast (BPB_NumFATs hdr) * ucast (BPB_FATSz32 hdr)) *
                         ucast (BPB_BytsPerSec hdr)\<rparr>
                 in if cluster_size fat > 0 \<and> data_offset fat < image_size fat then Some fat
                    else None) })"

definition cluster_offset :: "fat_view_t \<Rightarrow> u32 \<Rightarrow> u64" where
  "cluster_offset fat cluster =
     (if cluster < 2 then image_size fat
      else data_offset fat + ucast (cluster - 2) * cluster_size fat)"

subsection \<open>Names\<close>

definition isalnum :: "u8 \<Rightarrow> bool" where
  "isalnum c \<longleftrightarrow> 48 \<le> c \<and> c \<le> 57 \<or> 65 \<le> c \<and> c \<le> 90 \<or> 97 \<le> c \<and> c \<le> 122"

definition isprint :: "u8 \<Rightarrow> bool" where
  "isprint c \<longleftrightarrow> 32 \<le> c \<and> c \<le> 126"

definition isxdigit :: "u8 \<Rightarrow> bool" where
  "isxdigit c \<longleftrightarrow> 48 \<le> c \<and> c \<le> 57 \<or> 65 \<le> c \<and> c \<le> 70 \<or> 97 \<le> c \<and> c \<le> 102"

definition tolower :: "u8 \<Rightarrow> u8" where
  "tolower c = (if 65 \<le> c \<and> c \<le> 90 then c + 32 else c)"

definition safe_name_char :: "u8 \<Rightarrow> bool" where
  "safe_name_char c \<longleftrightarrow> isalnum c \<or> c = 45 \<or> c = 95 \<or> c = 46"

text \<open>\<open>strrchr\<close>: the string from the last occurrence of a character on.\<close>

fun strrchr :: "bytes \<Rightarrow> u8 \<Rightarrow> bytes option" where
  "strrchr [] c = None"
| "strrchr (x # xs) c =
     (case strrchr xs c of Some s \<Rightarrow> Some s | None \<Rightarrow> if x = c then Some (x # xs) else None)"

text \<open>Names are C strings in buffers of \<open>MAX_NAME\<close> bytes; here the string before the terminator.\<close>

definition valid_filename :: "bytes \<Rightarrow> bool" where
  "valid_filename name \<longleftrightarrow>
     (let len = length name in
        if len = 0 \<or> len \<ge> MAX_NAME then False
        else if \<not> list_all safe_name_char name then False
        else
          (case strrchr name 46 of
             None \<Rightarrow> False
           | Some dot \<Rightarrow> dot = [46, 98, 109, 112] \<or> dot = [46, 66, 77, 80]))"

definition lfn_pos :: "nat list" where
  "lfn_pos = [1, 3, 5, 7, 9, 14, 16, 18, 20, 22, 24, 28, 30]"

text \<open>The loop over the positions; \<open>out\<close> holds the \<open>n\<close> characters stored so far.\<close>

fun append_lfn_loop :: "bytes \<Rightarrow> nat \<Rightarrow> nat list \<Rightarrow> bytes \<Rightarrow> bytes" where
  "append_lfn_loop entry cap [] out = out"
| "append_lfn_loop entry cap (p # ps) out =
     (if \<not> length out + 1 < cap then out
      else
        let ch = get16 entry p in
          if ch = 0 \<or> ch = 0xffff then out
          else if ch < 128 \<and> isprint (ucast ch) then append_lfn_loop entry cap ps (out @ [ucast ch])
          else append_lfn_loop entry cap ps out)"

definition append_lfn_part :: "bytes \<Rightarrow> nat \<Rightarrow> bytes" where
  "append_lfn_part entry cap = append_lfn_loop entry cap lfn_pos []"

text \<open>Characters of an 8.3 name up to the first blank.\<close>

definition up_to_blank :: "bytes \<Rightarrow> bytes" where
  "up_to_blank = takeWhile (\<lambda>c. c \<noteq> 32)"

definition short_name :: "fat32dent \<Rightarrow> nat \<Rightarrow> bytes" where
  "short_name dent cap =
     (let n = DIR_Name dent;
          out = take (cap - 1) (map (\<lambda>c. tolower (if c = 0xe5 then 63 else c)) (up_to_blank (part n 0 8)));
          out = (if n ! 8 \<noteq> 32 \<and> length out + 1 < cap then out @ [46] else out)
      in out @ take (cap - 1 - length out) (map tolower (up_to_blank (part n 8 3))))"

text \<open>\<open>strncat\<close> of the long-name parts, last part first, into the buffer of \<open>MAX_NAME\<close> bytes.\<close>

definition join_lfn :: "bytes list \<Rightarrow> bytes" where
  "join_lfn parts = foldr (\<lambda>part name. name @ take (MAX_NAME - length name - 1) part) parts []"

subsection \<open>Candidates\<close>

record candidate_t =
  cand_name :: bytes
  cand_cluster :: u32
  cand_size :: u32

definition bmp_header_ok :: "bytes \<Rightarrow> nat \<Rightarrow> u64 \<Rightarrow> u32 \<Rightarrow> bool option" where
  "bmp_header_ok img p available sz =
     (if available < 54 \<or> sz < 54 \<or> available < ucast sz then Some False
      else do {
        magic \<leftarrow> bytes_at img p 2;
        if magic \<noteq> [66, 77] then Some False
        else do {
          file_size \<leftarrow> read_u32 img (p + 2);
          bmp_offset \<leftarrow> read_u32 img (p + 10);
          dib_size \<leftarrow> read_u32 img (p + 14);
          planes \<leftarrow> read_u16 img (p + 26);
          bpp \<leftarrow> read_u16 img (p + 28);
          Some (file_size = sz \<and> bmp_offset \<ge> 54 \<and> bmp_offset < sz \<and> dib_size \<ge> 40 \<and>
            planes = 1 \<and> bpp = 24) } })"

definition seen_candidate :: "candidate_t list \<Rightarrow> u32 \<Rightarrow> bytes \<Rightarrow> bool" where
  "seen_candidate items cluster name \<longleftrightarrow>
     list_ex (\<lambda>c. cand_cluster c = cluster \<or> cand_name c = name) items"

text \<open>One turn of the loop of \<open>collect_candidates\<close> on a 32-byte entry: the long-name parts and the
  candidates collected so far, and the same afterwards.\<close>

definition collect_entry ::
  "bytes \<Rightarrow> fat_view_t \<Rightarrow> bytes \<Rightarrow> bytes list \<Rightarrow> candidate_t list \<Rightarrow>
    (bytes list \<times> candidate_t list) option" where
  "collect_entry img fat entry lfn_parts items =
     (let dent = dent_of entry in
        if entry ! 0 = 0 then Some ([], items)
        else if DIR_Attr dent = ATTR_LFN then
          Some (if length lfn_parts < MAX_LFN_PARTS
                then (lfn_parts @ [append_lfn_part entry 14], items) else (lfn_parts, items))
        else if DIR_Attr dent AND ATTR_DIRECTORY \<noteq> 0 \<or> DIR_Attr dent AND ATTR_ARCHIVE = 0 then
          Some ([], items)
        else
          let name = cstr (if lfn_parts \<noteq> [] then join_lfn lfn_parts else short_name dent MAX_NAME);
              cluster = push_bit 16 (ucast (DIR_FstClusHI dent)) OR ucast (DIR_FstClusLO dent);
              sz = DIR_FileSize dent;
              data = cluster_offset fat cluster in
            if length items < MAX_FOUND \<and> valid_filename name \<and> sz > 0 \<and>
               data < image_size fat \<and> ucast sz \<le> image_size fat - data
            then do {
              ok \<leftarrow> bmp_header_ok img (unat data) (image_size fat - data) sz;
              Some ([], if ok \<and> \<not> seen_candidate items cluster name
                        then items @ [\<lparr>cand_name = name, cand_cluster = cluster, cand_size = sz\<rparr>]
                        else items) }
            else Some ([], items))"

partial_function (option) collect_from ::
  "bytes \<Rightarrow> fat_view_t \<Rightarrow> u64 \<Rightarrow> bytes list \<Rightarrow> candidate_t list \<Rightarrow> candidate_t list option" where
  "collect_from img fat off lfn_parts items =
     (if \<not> off + ENTRY_SIZE \<le> image_size fat then Some items
      else do {
        entry \<leftarrow> bytes_at img (unat off) 32;
        (lfn_parts, items) \<leftarrow> collect_entry img fat entry lfn_parts items;
        collect_from img fat (off + ENTRY_SIZE) lfn_parts items })"

declare collect_from.simps [code]

definition collect_candidates :: "bytes \<Rightarrow> fat_view_t \<Rightarrow> candidate_t list option" where
  "collect_candidates img fat = collect_from img fat (data_offset fat) [] []"

end
