(* ===== verification/FatTools.thy ===== *)
theory FatTools
  imports Fat KvFile
begin

text \<open>
  The second half of \<open>m8/fsrecov.c\<close>: the checksum of a recovered file, computed by an external
  program on a temporary file, and \<open>main\<close>.  What the system calls and the programs answer is an
  argument; \<open>write_all\<close> is the same loop as in the key-value store and is modelled by its
  \<open>write_loop\<close>.
\<close>

text \<open>One run of a program: whether the pipe and the process could be created, what \<open>read\<close> returns
  (\<open>None\<close>: an error), and how \<open>waitpid\<close> ends.\<close>

record tool_run =
  pipe_ok :: bool
  fork_ok :: bool
  tool_output :: "bytes option"
  wait_ok :: bool
  exited :: bool
  exit_status :: int

record check_env =
  mkstemp_ok :: bool
  tmp_writes :: "io_event list"
  close_ok :: bool
  tool :: "string list \<Rightarrow> bytes \<Rightarrow> tool_run"

definition read_digest :: "bytes option \<Rightarrow> bytes option" where
  "read_digest got =
     (case got of
        None \<Rightarrow> None
      | Some out \<Rightarrow>
          if out = [] then None
          else
            let buf = take 127 out @ [0] in
              if list_all isxdigit (take 40 buf) then Some (take 40 buf) else None)"

definition tool_argv :: "string \<Rightarrow> string option \<Rightarrow> string option \<Rightarrow> string \<Rightarrow> string list" where
  "tool_argv name arg1 arg2 path =
     (case arg1 of
        None \<Rightarrow> [name, path]
      | Some a \<Rightarrow> (case arg2 of None \<Rightarrow> [name, a, path] | Some b \<Rightarrow> [name, a, b, path]))"

definition run_checksum_tool :: "tool_run \<Rightarrow> bytes option" where
  "run_checksum_tool t =
     (if \<not> pipe_ok t \<or> \<not> fork_ok t then None
      else
        let digest = read_digest (tool_output t) in
          if \<not> wait_ok t then None
          else if exited t \<and> exit_status t = 0 then digest else None)"

text \<open>\<open>bool_write_all\<close>: the result of \<open>write_all\<close> and the contents of the temporary file after it.\<close>

definition bool_write_all :: "io_event list \<Rightarrow> bytes \<Rightarrow> (bool \<times> bytes) option" where
  "bool_write_all evs data = do {
     (r, f) \<leftarrow> write_loop evs \<lparr>contents = [], pos = 0, bad = (\<lambda>_. False)\<rparr> data;
     Some (r = 0, contents f) }"

definition tmpl :: string where "tmpl = ''/tmp/fsrecov-XXXXXX''"

text \<open>The digest, if one was obtained, and the programs run, each with the file it was run on.\<close>

definition sha1sum_file ::
  "check_env \<Rightarrow> bytes \<Rightarrow> (bytes option \<times> (string list \<times> bytes) list) option" where
  "sha1sum_file e data =
     (if \<not> mkstemp_ok e then Some (None, [])
      else do {
        (ok, tmp) \<leftarrow> bool_write_all (tmp_writes e) data;
        let ok = ok \<and> close_ok e;
            argv1 = tool_argv ''sha1sum'' None None tmpl;
            argv2 = tool_argv ''shasum'' (Some ''-a'') (Some ''1'') tmpl;
            digest = (if ok then run_checksum_tool (tool e argv1 tmp) else None);
            runs = (if ok then [(argv1, tmp)] else []) in
          Some
            (if digest = None then (run_checksum_tool (tool e argv2 tmp), runs @ [(argv2, tmp)])
             else (digest, runs)) })"

definition candidate_line :: "bytes \<Rightarrow> candidate_t \<Rightarrow> bytes" where
  "candidate_line digest c = digest @ [32, 32] @ cand_name c @ [10]"

text \<open>The loop of \<open>main\<close> over the candidates; \<open>env\<close> gives the environment of each checksum.\<close>

fun report :: "(nat \<Rightarrow> check_env) \<Rightarrow> bytes \<Rightarrow> fat_view_t \<Rightarrow> nat \<Rightarrow> candidate_t list \<Rightarrow> bytes option" where
  "report env img fat i [] = Some []"
| "report env img fat i (c # cs) = do {
     data \<leftarrow> bytes_at img (unat (cluster_offset fat (cand_cluster c))) (unat (cand_size c));
     (digest, runs) \<leftarrow> sha1sum_file (env i) data;
     out \<leftarrow> report env img fat (Suc i) cs;
     Some ((case digest of None \<Rightarrow> [] | Some d \<Rightarrow> candidate_line d c) @ out) }"

text \<open>\<open>map_disk\<close>: the bytes that are mapped (\<open>None\<close>: the process exits with status 1), and whether the
  descriptor is closed again.  \<open>disk_bytes\<close> is the file; \<open>mmap\<close> fails for instance on an empty one.\<close>

record disk_env =
  disk_open_ok :: bool
  seek_ok :: bool
  mmap_ok :: bool
  disk_bytes :: bytes

definition map_disk :: "disk_env \<Rightarrow> bytes option \<times> bool" where
  "map_disk d =
     (if \<not> disk_open_ok d then (None, False)
      else if \<not> seek_ok d then (None, True)
      else if \<not> mmap_ok d then (None, True)
      else (Some (disk_bytes d), True))"

lemma map_disk_closes: "snd (map_disk d) = disk_open_ok d"
  by (simp add: map_disk_def)

text \<open>Exit status and standard output; \<open>mapped\<close> is what \<open>map_disk\<close> maps.\<close>

definition fsrecov_main ::
  "int \<Rightarrow> bytes option \<Rightarrow> (nat \<Rightarrow> check_env) \<Rightarrow> (int \<times> bytes) option" where
  "fsrecov_main argc mapped env =
     (if argc \<noteq> 2 then Some (1, [])
      else
        (case mapped of
           None \<Rightarrow> Some (1, [])
         | Some img \<Rightarrow> do {
             view \<leftarrow> init_fat_view img (of_nat (length img));
             (case view of
                None \<Rightarrow> Some (1, [])
              | Some fat \<Rightarrow> do {
                  items \<leftarrow> collect_candidates img fat;
                  out \<leftarrow> report env img fat 0 items;
                  Some (0, out) }) }))"

end
