(* ===== verification/FatBounds.thy ===== *)
theory FatBounds
  imports FatTools
begin

text \<open>
  \<open>m8/fsrecov.c\<close> stays inside the image: no sum or product of sizes wraps, the scan ends, and
  every read is within the mapped bytes, whatever the image holds.
\<close>

subsection \<open>Sizes do not wrap\<close>

lemma unat_ucast64:
  assumes "LENGTH('a) \<le> 64"
  shows "unat (ucast (x :: 'a::len word) :: u64) = unat x"
proof -
  have "unat x < 2 ^ LENGTH('a)" by (rule unsigned_less)
  also have "(2 :: nat) ^ LENGTH('a) \<le> 2 ^ 64" using assms by (rule power_increasing) simp
  finally show ?thesis by (simp add: unsigned_ucast_eq take_bit_nat_eq_self_iff)
qed

lemma unat_times_le:
  fixes a b :: u64
  assumes "unat a * unat b < 2 ^ 64"
  shows "unat (a * b) = unat a * unat b"
  using assms unat_mult_lem [of a b] by simp

lemma unat_plus_lt:
  fixes a b :: u64
  assumes "unat a + unat b < 2 ^ 64"
  shows "unat (a + b) = unat a + unat b"
  using assms unat_plus_simple [of a b] no_olen_add_nat [of a b] by simp

lemma unat_less_width:
  "unat (a :: u8) < 2 ^ 8" "unat (b :: u16) < 2 ^ 16" "unat (c :: u32) < 2 ^ 32"
  by (rule order_less_le_trans [OF unsigned_less], simp)+

lemma product_less:
  fixes a b :: nat
  assumes "a < 2 ^ m" "b < 2 ^ n"
  shows "a * b < 2 ^ (m + n)"
  using mult_strict_mono [OF assms] by (simp add: power_add)

lemma fat_image_bytes_small: "unat (fat_image_bytes hdr) < 2 ^ 48"
proof -
  let ?s = "if BPB_TotSec32 hdr = 0 then ucast (BPB_TotSec16 hdr) else BPB_TotSec32 hdr"
  have p: "unat ?s * unat (BPB_BytsPerSec hdr) < 2 ^ (32 + 16)"
    by (rule product_less unat_less_width)+
  have "unat (ucast ?s * ucast (BPB_BytsPerSec hdr) :: u64) =
      unat (ucast ?s :: u64) * unat (ucast (BPB_BytsPerSec hdr) :: u64)"
    using p by (intro unat_times_le) (simp add: unat_ucast64)
  with p show ?thesis by (simp add: fat_image_bytes_def Let_def unat_ucast64)
qed

text \<open>The sizes of an accepted view of an image.\<close>

definition fat_ok :: "fat_view_t \<Rightarrow> bytes \<Rightarrow> bool" where
  "fat_ok fat img \<longleftrightarrow> unat (image_size fat) \<le> length img \<and> unat (image_size fat) < 2 ^ 48 \<and>
     unat (cluster_size fat) < 2 ^ 24 \<and> unat (data_offset fat) < unat (image_size fat)"

lemma init_fat_view_ok:
  assumes "init_fat_view img (of_nat (length img)) = Some (Some fat)" "length img < 2 ^ 64"
  shows "fat_ok fat img"
proof -
  have len: "unat (of_nat (length img) :: u64) = length img"
    using assms(2) by (simp add: unsigned_of_nat take_bit_nat_eq_self)
  obtain hdr where hdr: "image_size fat = fat_image_bytes hdr"
    "\<not> fat_image_bytes hdr > of_nat (length img)" "data_offset fat < image_size fat"
    "cluster_size fat = ucast (BPB_BytsPerSec hdr) * ucast (BPB_SecPerClus hdr)"
    using assms(1)
    by (auto simp: init_fat_view_def Let_def bind_eq_Some_conv split: if_splits)
  have "unat (image_size fat) \<le> length img"
    using hdr(1,2) len by (simp add: not_less word_le_nat_alt)
  moreover have "unat (cluster_size fat) < 2 ^ 24"
  proof -
    have p: "unat (BPB_BytsPerSec hdr) * unat (BPB_SecPerClus hdr) < 2 ^ (16 + 8)"
      by (rule product_less unat_less_width)+
    then have "unat (cluster_size fat) =
        unat (ucast (BPB_BytsPerSec hdr) :: u64) * unat (ucast (BPB_SecPerClus hdr) :: u64)"
      unfolding hdr(4) by (intro unat_times_le) (simp add: unat_ucast64)
    with p show ?thesis by (simp add: unat_ucast64)
  qed
  ultimately show ?thesis
    using hdr(1,3) fat_image_bytes_small [of hdr] by (simp add: fat_ok_def word_less_nat_alt)
qed

lemma cluster_offset_value:
  assumes "fat_ok fat img" "2 \<le> unat cluster"
  shows "unat (cluster_offset fat cluster) =
    unat (data_offset fat) + (unat cluster - 2) * unat (cluster_size fat)"
proof -
  have two: "unat (2 :: u32) = 2" by simp
  then have c: "unat (cluster - 2) = unat cluster - 2" using assms(2) by (simp add: unat_sub_if')
  have p: "(unat cluster - 2) * unat (cluster_size fat) < 2 ^ (32 + 24)"
    using unat_less_width(3) [of "cluster - 2"] assms(1)
    unfolding c fat_ok_def by (intro product_less) auto
  have m: "unat (ucast (cluster - 2) * cluster_size fat) = (unat cluster - 2) * unat (cluster_size fat)"
    using p c by (subst unat_times_le) (simp_all add: unat_ucast64)
  have "\<not> cluster < 2" using assms(2) by (simp add: word_less_nat_alt)
  moreover have "unat (data_offset fat) + (unat cluster - 2) * unat (cluster_size fat) < 2 ^ 64"
    using p assms(1) by (simp add: fat_ok_def)
  ultimately show ?thesis
    using m by (simp add: cluster_offset_def unat_plus_lt)
qed

text \<open>In terms of the header.\<close>

lemma init_fat_view_header:
  assumes "init_fat_view img n = Some (Some fat)"
  defines "hdr \<equiv> hdr_of (take 512 img)"
  shows "unat (cluster_size fat) = unat (BPB_BytsPerSec hdr) * unat (BPB_SecPerClus hdr)"
    and "unat (data_offset fat) = (unat (BPB_RsvdSecCnt hdr) +
      unat (BPB_NumFATs hdr) * unat (BPB_FATSz32 hdr)) * unat (BPB_BytsPerSec hdr)"
proof -
  have fat: "cluster_size fat = ucast (BPB_BytsPerSec hdr) * ucast (BPB_SecPerClus hdr)"
    "data_offset fat = (ucast (BPB_RsvdSecCnt hdr) +
      ucast (BPB_NumFATs hdr) * ucast (BPB_FATSz32 hdr)) * ucast (BPB_BytsPerSec hdr)"
    using assms(1) unfolding hdr_def
    by (auto simp: init_fat_view_def bytes_at_def Let_def bind_eq_Some_conv split: if_splits)
  have cs: "unat (BPB_BytsPerSec hdr) * unat (BPB_SecPerClus hdr) < 2 ^ (16 + 8)"
    and nf: "unat (BPB_NumFATs hdr) * unat (BPB_FATSz32 hdr) < 2 ^ (8 + 32)"
    by (rule product_less unat_less_width)+
  show "unat (cluster_size fat) = unat (BPB_BytsPerSec hdr) * unat (BPB_SecPerClus hdr)"
    unfolding fat(1) using cs by (subst unat_times_le) (simp_all add: unat_ucast64)
  have m: "unat (ucast (BPB_NumFATs hdr) * ucast (BPB_FATSz32 hdr) :: u64) =
      unat (BPB_NumFATs hdr) * unat (BPB_FATSz32 hdr)"
    using nf by (subst unat_times_le) (simp_all add: unat_ucast64)
  have rs: "unat (BPB_RsvdSecCnt hdr) < 2 ^ 16" by (rule unat_less_width)
  have a: "unat (ucast (BPB_RsvdSecCnt hdr) + ucast (BPB_NumFATs hdr) * ucast (BPB_FATSz32 hdr) :: u64) =
      unat (BPB_RsvdSecCnt hdr) + unat (BPB_NumFATs hdr) * unat (BPB_FATSz32 hdr)"
    using nf rs by (subst unat_plus_lt) (simp_all add: m unat_ucast64)
  have "unat (BPB_RsvdSecCnt hdr) + unat (BPB_NumFATs hdr) * unat (BPB_FATSz32 hdr) < 2 ^ 41"
    using nf rs by simp
  from product_less [OF this unat_less_width(2) [of "BPB_BytsPerSec hdr"]]
  show "unat (data_offset fat) = (unat (BPB_RsvdSecCnt hdr) +
      unat (BPB_NumFATs hdr) * unat (BPB_FATSz32 hdr)) * unat (BPB_BytsPerSec hdr)"
    unfolding fat(2) by (subst unat_times_le) (simp_all add: a unat_ucast64)
qed

text \<open>A cluster below 2 has no place in the data area.\<close>

lemma cluster_in_image:
  assumes "cluster_offset fat cluster < image_size fat"
  shows "2 \<le> unat cluster"
  using assms by (auto simp: cluster_offset_def word_less_nat_alt split: if_splits)

subsection \<open>Reads stay inside\<close>

lemma bytes_at_Some: "i + n \<le> length img \<Longrightarrow> bytes_at img i n = Some (part img i n)"
  by (simp add: bytes_at_def)

lemma read_Some:
  "i + 2 \<le> length img \<Longrightarrow> \<exists>w. read_u16 img i = Some w"
  "i + 4 \<le> length img \<Longrightarrow> \<exists>v. read_u32 img i = Some v"
  by (simp_all add: read_u16_def read_u32_def bytes_at_Some)

lemma bmp_header_reads:
  assumes "p + unat available \<le> length img"
  shows "\<exists>ok. bmp_header_ok img p available sz = Some ok"
proof (cases "available < 54 \<or> sz < 54 \<or> available < ucast sz")
  case True
  then show ?thesis by (intro exI [of _ False]) (simp add: bmp_header_ok_def)
next
  case False
  then have "54 \<le> unat available" by (simp add: word_less_nat_alt)
  then have le: "p + 54 \<le> length img" using assms by simp
  obtain a b c d e where r: "read_u32 img (p + 2) = Some a" "read_u32 img (p + 10) = Some b"
    "read_u32 img (p + 14) = Some c" "read_u16 img (p + 26) = Some d" "read_u16 img (p + 28) = Some e"
    using read_Some(2) [of "p + 2" img] read_Some(2) [of "p + 10" img] read_Some(2) [of "p + 14" img]
      read_Some(1) [of "p + 26" img] read_Some(1) [of "p + 28" img] le by auto
  have "bytes_at img p 2 = Some (part img p 2)" using le by (intro bytes_at_Some) simp
  then have "bmp_header_ok img p available sz =
      Some (part img p 2 = [66, 77] \<and> a = sz \<and> b \<ge> 54 \<and> b < sz \<and> c \<ge> 40 \<and> d = 1 \<and> e = 24)"
    using False by (simp only: bmp_header_ok_def r Option.bind_lunit if_False) simp
  then show ?thesis by blast
qed

lemma unat_minus_le:
  fixes a b :: u64
  assumes "a < b"
  shows "unat (b - a) = unat b - unat a"
  using assms by (simp add: unat_sub_if' word_less_nat_alt)

lemma collect_entry_reads:
  assumes "fat_ok fat img"
  shows "\<exists>r. collect_entry img fat entry lfn items = Some r"
proof -
  let ?d = "cluster_offset fat (push_bit 16 (ucast (DIR_FstClusHI (dent_of entry))) OR
    ucast (DIR_FstClusLO (dent_of entry)))"
  have "\<exists>ok. bmp_header_ok img (unat ?d) (image_size fat - ?d) (DIR_FileSize (dent_of entry)) = Some ok"
    if "?d < image_size fat"
    using assms that by (intro bmp_header_reads) (simp add: unat_minus_le fat_ok_def word_less_nat_alt)
  then obtain ok where ok: "?d < image_size fat \<Longrightarrow>
      bmp_header_ok img (unat ?d) (image_size fat - ?d) (DIR_FileSize (dent_of entry)) = Some ok"
    by blast
  show ?thesis by (simp add: collect_entry_def Let_def ok)
qed

lemma next_entry:
  assumes "fat_ok fat img" "off \<le> image_size fat"
  shows "unat (off + ENTRY_SIZE) = unat off + 32"
    "off + ENTRY_SIZE \<le> image_size fat \<longleftrightarrow> unat off + 32 \<le> unat (image_size fat)"
proof -
  show u: "unat (off + ENTRY_SIZE) = unat off + 32"
    using assms by (simp add: unat_plus_lt ENTRY_SIZE_def fat_ok_def word_le_nat_alt)
  show "off + ENTRY_SIZE \<le> image_size fat \<longleftrightarrow> unat off + 32 \<le> unat (image_size fat)"
    by (simp add: word_le_nat_alt u)
qed

lemma collect_from_reads:
  assumes "fat_ok fat img"
  shows "off \<le> image_size fat \<Longrightarrow> \<exists>r. collect_from img fat off lfn items = Some r"
proof (induction "unat (image_size fat) - unat off" arbitrary: off lfn items rule: less_induct)
  case less
  note nx = next_entry [OF assms less.prems]
  show ?case
  proof (cases "off + ENTRY_SIZE \<le> image_size fat")
    case False
    then show ?thesis by (simp add: collect_from.simps [of img fat off])
  next
    case True
    then have le: "unat off + 32 \<le> unat (image_size fat)" using nx by simp
    then have "bytes_at img (unat off) 32 = Some (part img (unat off) 32)"
      using assms by (intro bytes_at_Some) (simp add: fat_ok_def)
    moreover obtain lfn' items' where
      "collect_entry img fat (part img (unat off) 32) lfn items = Some (lfn', items')"
      using collect_entry_reads [OF assms] by fastforce
    moreover have "\<exists>r. collect_from img fat (off + ENTRY_SIZE) lfn' items' = Some r"
      using True le nx(1) by (intro less.hyps) auto
    ultimately show ?thesis using True by (simp add: collect_from.simps [of img fat off])
  qed
qed

lemma collect_reads:
  assumes "fat_ok fat img"
  shows "\<exists>items. collect_candidates img fat = Some items"
  unfolding collect_candidates_def
  by (rule collect_from_reads [OF assms]) (use assms in \<open>simp add: fat_ok_def word_le_nat_alt\<close>)

end
