(* ===== verification/FatRecover.thy ===== *)
theory FatRecover
  imports FatBounds
begin

text \<open>
  What \<open>m8/fsrecov.c\<close> reports: every candidate is a bitmap that lies inside the image, under a
  name and a cluster of its own; long names are put together in order; and how the digest of a
  candidate is obtained.
\<close>

subsection \<open>Candidates\<close>

text \<open>A bitmap file of \<open>sz\<close> bytes at \<open>off\<close>.\<close>

definition bmp_at :: "bytes \<Rightarrow> nat \<Rightarrow> u32 \<Rightarrow> bool" where
  "bmp_at img off sz \<longleftrightarrow> off + unat sz \<le> length img \<and> 54 \<le> unat sz \<and>
     bytes_at img off 2 = Some [66, 77] \<and> read_u32 img (off + 2) = Some sz \<and>
     read_u16 img (off + 28) = Some 24"

definition cand_ok :: "bytes \<Rightarrow> fat_view_t \<Rightarrow> candidate_t \<Rightarrow> bool" where
  "cand_ok img fat c \<longleftrightarrow> valid_filename (cand_name c) \<and> 2 \<le> unat (cand_cluster c) \<and>
     unat (cluster_offset fat (cand_cluster c)) + unat (cand_size c) \<le> unat (image_size fat) \<and>
     bmp_at img (unat (cluster_offset fat (cand_cluster c))) (cand_size c)"

definition cands_ok :: "bytes \<Rightarrow> fat_view_t \<Rightarrow> candidate_t list \<Rightarrow> bool" where
  "cands_ok img fat items \<longleftrightarrow> length items \<le> MAX_FOUND \<and> list_all (cand_ok img fat) items \<and>
     distinct (map cand_name items) \<and> distinct (map cand_cluster items)"

lemma bmp_header_ok_true:
  assumes "bmp_header_ok img p available sz = Some True"
  shows "54 \<le> unat sz" "unat sz \<le> unat available" "bytes_at img p 2 = Some [66, 77]"
    "read_u32 img (p + 2) = Some sz" "read_u16 img (p + 28) = Some 24"
  using assms
  by (auto simp: bmp_header_ok_def bind_eq_Some_conv not_less word_le_nat_alt unat_ucast64
      split: if_splits)

lemma collect_entry_adds:
  assumes "collect_entry img fat entry lfn items = Some (lfn', items')" "items' \<noteq> items"
  obtains c where "items' = items @ [c]" "length items < MAX_FOUND" "valid_filename (cand_name c)"
    "cluster_offset fat (cand_cluster c) < image_size fat"
    "ucast (cand_size c) \<le> image_size fat - cluster_offset fat (cand_cluster c)"
    "bmp_header_ok img (unat (cluster_offset fat (cand_cluster c)))
       (image_size fat - cluster_offset fat (cand_cluster c)) (cand_size c) = Some True"
    "\<not> seen_candidate items (cand_cluster c) (cand_name c)"
  using assms
  by (auto simp: collect_entry_def Let_def bind_eq_Some_conv split: if_splits)

lemma collect_entry_ok:
  assumes "fat_ok fat img" "cands_ok img fat items"
    and "collect_entry img fat entry lfn items = Some (lfn', items')"
  shows "cands_ok img fat items'"
proof (cases "items' = items")
  case False
  then obtain c where c: "items' = items @ [c]" "length items < MAX_FOUND"
    "valid_filename (cand_name c)" "cluster_offset fat (cand_cluster c) < image_size fat"
    "ucast (cand_size c) \<le> image_size fat - cluster_offset fat (cand_cluster c)"
    "bmp_header_ok img (unat (cluster_offset fat (cand_cluster c)))
       (image_size fat - cluster_offset fat (cand_cluster c)) (cand_size c) = Some True"
    "\<not> seen_candidate items (cand_cluster c) (cand_name c)"
    using collect_entry_adds [OF assms(3)] by metis
  have "unat (cluster_offset fat (cand_cluster c)) + unat (cand_size c) \<le> unat (image_size fat)"
    using c(4,5) by (simp add: word_le_nat_alt word_less_nat_alt unat_minus_le unat_ucast64)
  then have "cand_ok img fat c"
    using c(3) cluster_in_image [OF c(4)] bmp_header_ok_true [OF c(6)] assms(1)
    by (simp add: cand_ok_def bmp_at_def fat_ok_def)
  with assms(2) c(1,2,7) show ?thesis
    by (auto simp: cands_ok_def seen_candidate_def list_ex_iff)
qed (use assms in simp)

lemma collect_from_ok:
  assumes "fat_ok fat img"
  shows "off \<le> image_size fat \<Longrightarrow> cands_ok img fat items \<Longrightarrow>
    collect_from img fat off lfn items = Some r \<Longrightarrow> cands_ok img fat r"
proof (induction "unat (image_size fat) - unat off" arbitrary: off lfn items rule: less_induct)
  case less
  note nx = next_entry [OF assms less.prems(1)]
  show ?case
  proof (cases "off + ENTRY_SIZE \<le> image_size fat")
    case False
    with less.prems show ?thesis by (simp add: collect_from.simps [of img fat off])
  next
    case True
    with less.prems(3) obtain entry lfn' items' where
      e: "collect_entry img fat entry lfn items = Some (lfn', items')"
      and r: "collect_from img fat (off + ENTRY_SIZE) lfn' items' = Some r"
      by (subst (asm) collect_from.simps) (auto simp: bind_eq_Some_conv)
    have "unat (image_size fat) - unat (off + ENTRY_SIZE) < unat (image_size fat) - unat off"
      using True nx by simp
    from less.hyps [OF this True collect_entry_ok [OF assms less.prems(2) e] r] show ?thesis .
  qed
qed

lemma collect_candidates_ok:
  assumes "fat_ok fat img" "collect_candidates img fat = Some items"
  shows "cands_ok img fat items"
proof (rule collect_from_ok [OF assms(1)])
  show "data_offset fat \<le> image_size fat" using assms(1) by (simp add: fat_ok_def word_le_nat_alt)
  show "collect_from img fat (data_offset fat) [] [] = Some items"
    using assms(2) by (simp add: collect_candidates_def)
qed (simp add: cands_ok_def)

subsection \<open>The whole program\<close>

lemma write_loop_total:
  assumes "length data \<le> transfers evs"
  shows "\<exists>r f'. write_loop evs f data = Some (r, f')"
  using assms
proof (induction evs arbitrary: f data)
  case Nil
  then show ?case by simp
next
  case (Cons e evs)
  show ?case
  proof (cases "data = []")
    case False
    then have "0 < length data" by simp
    with Cons.prems False show ?thesis
      by (cases e) (auto intro!: Cons.IH)
  qed simp
qed

text \<open>An environment whose temporary file is written to the end or to an error.\<close>

definition env_ends :: "check_env \<Rightarrow> nat \<Rightarrow> bool" where
  "env_ends e n \<longleftrightarrow> n \<le> transfers (tmp_writes e)"

lemma sha1sum_total:
  assumes "length data \<le> transfers (tmp_writes e)"
  shows "\<exists>r. sha1sum_file e data = Some r"
  using write_loop_total [OF assms, of "\<lparr>contents = [], pos = 0, bad = (\<lambda>_. False)\<rparr>"]
  by (auto simp: sha1sum_file_def bool_write_all_def Let_def)

lemma report_total:
  assumes "fat_ok fat img" "list_all (cand_ok img fat) items"
    and "\<And>i. length img \<le> transfers (tmp_writes (env i))"
  shows "\<exists>out. report env img fat i items = Some out"
  using assms(2)
proof (induction items arbitrary: i)
  case (Cons c cs)
  let ?o = "unat (cluster_offset fat (cand_cluster c))" and ?n = "unat (cand_size c)"
  have "?o + ?n \<le> length img" using Cons.prems by (simp add: cand_ok_def bmp_at_def)
  then have b: "bytes_at img ?o ?n = Some (part img ?o ?n)" by (rule bytes_at_Some)
  have "length (part img ?o ?n) \<le> transfers (tmp_writes (env i))"
    using assms(3) [of i] by (simp add: min_def) linarith
  then obtain d runs where s: "sha1sum_file (env i) (part img ?o ?n) = Some (d, runs)"
    using sha1sum_total by fastforce
  obtain out where "report env img fat (Suc i) cs = Some out" using Cons by auto
  with b s show ?case by simp
qed simp

lemma init_fat_view_total:
  assumes "length img < 2 ^ 64"
  shows "\<exists>v. init_fat_view img (of_nat (length img)) = Some v"
proof (cases "(of_nat (length img) :: u64) < 512")
  case True
  then show ?thesis by (simp add: init_fat_view_def)
next
  case False
  have "unat (of_nat (length img) :: u64) = length img"
    using assms by (simp add: unsigned_of_nat take_bit_nat_eq_self)
  then have "512 \<le> length img" using False by (simp add: word_less_nat_alt)
  then have "bytes_at img 0 512 = Some (part img 0 512)" by (intro bytes_at_Some) simp
  with False show ?thesis by (simp add: init_fat_view_def Let_def)
qed

text \<open>
  C10: On every image shorter than \<open>2 ^ 64\<close> bytes, whatever it contains, \<open>fsrecov\<close> reads only
  inside the mapped image, its scan of the data area ends, and it exits: no header field makes an
  offset wrap or a read leave the file.  (Each temporary file is written until done or failed.)
\<close>
theorem fsrecov_in_bounds:
  assumes "length img < 2 ^ 64" "\<And>i. length img \<le> transfers (tmp_writes (env i))"
  shows "\<exists>status out. fsrecov_main argc (Some img) env = Some (status, out)"
proof -
  obtain v where v: "init_fat_view img (of_nat (length img)) = Some v"
    using init_fat_view_total [OF assms(1)] by blast
  show ?thesis
  proof (cases v)
    case None
    with v show ?thesis by (simp add: fsrecov_main_def)
  next
    case (Some fat)
    then have ok: "fat_ok fat img" using v init_fat_view_ok assms(1) by blast
    obtain items where items: "collect_candidates img fat = Some items"
      using collect_reads [OF ok] by blast
    then have "list_all (cand_ok img fat) items"
      using collect_candidates_ok [OF ok] by (simp add: cands_ok_def)
    then obtain out where "report env img fat 0 items = Some out"
      using report_total [of fat img items env 0] ok assms(2) by blast
    with v Some items show ?thesis by (simp add: fsrecov_main_def)
  qed
qed

definition quick_env :: check_env where
  "quick_env = \<lparr>mkstemp_ok = True, tmp_writes = [Upto 9], close_ok = True,
     tool = (\<lambda>argv f. \<lparr>pipe_ok = True, fork_ok = True, tool_output = Some (replicate 40 97),
       wait_ok = True, exited = True, exit_status = 0\<rparr>)\<rparr>"

theorem fsrecov_in_bounds_witness:
  "\<exists>status out. fsrecov_main 2 (Some [0x55]) (\<lambda>i. quick_env) = Some (status, out)"
  by (rule fsrecov_in_bounds) (simp_all add: quick_env_def)

text \<open>
  C11: Every candidate \<open>collect_candidates\<close> finds lies inside the declared image, starts with a
  bitmap header for exactly its directory size, and has a safe name ending in \<open>.bmp\<close>; there are at
  most 4096, no two with the same name or the same first cluster.
\<close>
theorem candidates_valid:
  assumes "init_fat_view img (of_nat (length img)) = Some (Some fat)" "length img < 2 ^ 64"
    and "collect_candidates img fat = Some items"
  shows "cands_ok img fat items"
  by (rule collect_candidates_ok [OF init_fat_view_ok [OF assms(1,2)] assms(3)])

text \<open>
  The byte offset of a cluster, computed in 64-bit arithmetic from the fields of an accepted
  header, is the exact value of the formula: no intermediate sum or product wraps.
\<close>
theorem cluster_offset_exact:
  assumes "init_fat_view img (of_nat (length img)) = Some (Some fat)" "length img < 2 ^ 64"
    and "2 \<le> unat cluster"
  shows "unat (cluster_offset fat cluster) =
    (unat (BPB_RsvdSecCnt (hdr_of (take 512 img))) +
       unat (BPB_NumFATs (hdr_of (take 512 img))) * unat (BPB_FATSz32 (hdr_of (take 512 img)))) *
      unat (BPB_BytsPerSec (hdr_of (take 512 img))) +
    (unat cluster - 2) *
      (unat (BPB_BytsPerSec (hdr_of (take 512 img))) * unat (BPB_SecPerClus (hdr_of (take 512 img))))"
  unfolding cluster_offset_value [OF init_fat_view_ok [OF assms(1,2)] assms(3)]
    init_fat_view_header [OF assms(1)] ..

subsection \<open>A small image\<close>

text \<open>Sectors and clusters of one byte, the data area from 513 on: a directory entry \<open>A.BMP\<close> with
  first cluster 34, and at that cluster (byte 545) a bitmap of 55 bytes.\<close>

definition tiny_hdr :: bytes where
  "tiny_hdr = replicate 11 0 @ [1, 0, 1, 0, 2, 1] @ replicate 15 0 @ [88, 2, 0, 0, 1, 0, 0, 0] @
     replicate 470 0 @ [0x55, 0xaa]"

definition tiny_dent :: bytes where
  "tiny_dent = [65, 32, 32, 32, 32, 32, 32, 32, 66, 77, 80, 0x20] @ replicate 14 0 @ [34, 0, 55, 0, 0, 0]"

definition tiny_bmp :: bytes where
  "tiny_bmp = [66, 77, 55, 0, 0, 0, 0, 0, 0, 0, 54, 0, 0, 0, 40, 0, 0, 0] @ replicate 8 0 @
     [1, 0, 24, 0] @ replicate 25 0"

definition tiny_img :: bytes where
  "tiny_img = tiny_hdr @ [0] @ tiny_dent @ tiny_bmp"

definition tiny_fat :: fat_view_t where
  "tiny_fat = \<lparr>image_size = 600, cluster_size = 1, data_offset = 513\<rparr>"

lemma tiny_view: "init_fat_view tiny_img (of_nat (length tiny_img)) = Some (Some tiny_fat)"
  by code_simp

lemma tiny_found: "collect_candidates tiny_img tiny_fat =
    Some [\<lparr>cand_name = [97, 46, 98, 109, 112], cand_cluster = 34, cand_size = 55\<rparr>]"
  by code_simp

theorem candidates_valid_witness:
  "cands_ok tiny_img tiny_fat [\<lparr>cand_name = [97, 46, 98, 109, 112], cand_cluster = 34, cand_size = 55\<rparr>]"
  by (rule candidates_valid [OF tiny_view _ tiny_found]) (simp add: tiny_img_def tiny_hdr_def tiny_dent_def tiny_bmp_def)

theorem cluster_offset_exact_witness:
  "unat (cluster_offset tiny_fat 34) =
    (unat (BPB_RsvdSecCnt (hdr_of (take 512 tiny_img))) +
       unat (BPB_NumFATs (hdr_of (take 512 tiny_img))) * unat (BPB_FATSz32 (hdr_of (take 512 tiny_img)))) *
      unat (BPB_BytsPerSec (hdr_of (take 512 tiny_img))) +
    (unat (34 :: u32) - 2) * (unat (BPB_BytsPerSec (hdr_of (take 512 tiny_img))) *
      unat (BPB_SecPerClus (hdr_of (take 512 tiny_img))))"
  by (rule cluster_offset_exact [OF tiny_view])
    (simp_all add: tiny_img_def tiny_hdr_def tiny_dent_def tiny_bmp_def)

subsection \<open>Long names\<close>

text \<open>\<open>join_lfn\<close> of parts that fit: the parts in reverse order of the entries.\<close>

lemma join_lfn_fits:
  "length (concat (rev parts)) < MAX_NAME \<Longrightarrow> join_lfn parts = concat (rev parts)"
proof (induction parts)
  case (Cons p ps)
  then have "join_lfn ps = concat (rev ps)" by simp
  moreover have "join_lfn (p # ps) = join_lfn ps @ take (MAX_NAME - length (join_lfn ps) - 1) p"
    by (simp add: join_lfn_def)
  ultimately show ?case using Cons.prems by simp
qed (simp add: join_lfn_def)

text \<open>A long-name entry for up to 13 characters, as the file system writes it: 16-bit characters, a
  zero after the last one, then \<open>0xffff\<close>.\<close>

definition lfn_units :: "bytes \<Rightarrow> u16 list" where
  "lfn_units s = take 13 (map ucast s @ [0] @ replicate 13 0xffff)"

definition lfn_entry :: "bytes \<Rightarrow> bytes" where
  "lfn_entry s =
     (let u = lfn_units s in
        [1] @ concat (map le16 (take 5 u)) @ [ATTR_LFN, 0, 0] @
        concat (map le16 (take 6 (drop 5 u))) @ [0, 0] @ concat (map le16 (drop 11 u)))"

lemma length_13:
  assumes "length u = 13"
  obtains a b c d e f g h i j k l m where "u = [a, b, c, d, e, f, g, h, i, j, k, l, m]"
proof -
  have "length u = Suc (Suc (Suc (Suc (Suc (Suc (Suc (Suc (Suc (Suc (Suc (Suc (Suc 0))))))))))))"
    using assms by simp
  then show thesis by (auto simp: length_Suc_conv intro: that)
qed

lemma lfn_entry_units:
  "map (get16 (lfn_entry s)) lfn_pos = lfn_units s" "length (lfn_entry s) = 32"
  "lfn_entry s ! 11 = ATTR_LFN" "lfn_entry s ! 0 = 1"
proof -
  have "length (lfn_units s) = 13" by (simp add: lfn_units_def)
  then obtain a b c d e f g h i j k l m where u: "lfn_units s = [a, b, c, d, e, f, g, h, i, j, k, l, m]"
    by (rule length_13)
  show "map (get16 (lfn_entry s)) lfn_pos = lfn_units s" "length (lfn_entry s) = 32"
    "lfn_entry s ! 11 = ATTR_LFN" "lfn_entry s ! 0 = 1"
    by (simp_all add: lfn_entry_def u lfn_pos_def get16_def le16_def u16_of_le16)
qed

text \<open>The loop over a list of 16-bit characters.\<close>

lemma append_lfn_units:
  assumes "list_all isprint s" "map (get16 entry) ps = map ucast s @ rest"
    and "rest = [] \<or> hd rest = 0" "length out + length s + 1 \<le> cap"
  shows "append_lfn_loop entry cap ps out = out @ s"
  using assms
proof (induction s arbitrary: ps out)
  case Nil
  then show ?case by (cases ps) (auto simp: Let_def)
next
  case (Cons c s)
  then obtain p qs where ps: "ps = p # qs" "get16 entry p = ucast c"
    "map (get16 entry) qs = map ucast s @ rest" by (cases ps) auto
  have c: "32 \<le> unat c" "unat c \<le> 126"
    using Cons.prems(1) by (simp_all add: isprint_def word_le_nat_alt)
  have uc: "unat (ucast c :: u16) = unat c"
    by (simp add: unsigned_ucast_eq take_bit_nat_eq_self_iff less_le_trans [OF unsigned_less])
  have "(ucast c :: u16) \<noteq> 0" "(ucast c :: u16) \<noteq> 0xffff" "(ucast c :: u16) < 128"
    using c uc by (auto simp: word_less_nat_alt simp flip: unat_eq_0)
  moreover have "(ucast (ucast c :: u16) :: u8) = c"
    by (rule bit_word_eqI) (auto simp: bit_simps)
  ultimately show ?case
    using Cons.prems Cons.IH [OF _ ps(3), of "out @ [c]"] ps by (simp add: Let_def)
qed

text \<open>
  C31: A long name written as the file system does (13 characters to an entry, the entries in
  reverse order) is put together again by \<open>append_lfn_part\<close> and \<open>join_lfn\<close>, for printable names
  of up to 255 characters.
\<close>
theorem lfn_roundtrip:
  assumes "list_all isprint (concat parts)" "list_all (\<lambda>p. length p \<le> 13) parts"
    and "length (concat parts) < MAX_NAME"
  shows "join_lfn (map (\<lambda>p. append_lfn_part (lfn_entry p) 14) (rev parts)) = concat parts"
proof -
  have "append_lfn_part (lfn_entry p) 14 = p" if p: "p \<in> set parts" for p
  proof -
    have len: "length p \<le> 13" using assms(2) p by (auto simp: list_all_iff)
    have "lfn_units p = map ucast p @ take (13 - length p) ([0] @ replicate 13 0xffff)"
      using len by (simp add: lfn_units_def)
    moreover have "take (13 - length p) ([0 :: u16] @ replicate 13 0xffff) = [] \<or>
        hd (take (13 - length p) ([0 :: u16] @ replicate 13 0xffff)) = 0"
      by (cases "13 - length p") auto
    moreover have "list_all isprint p" using assms(1) p by (auto simp: list_all_iff)
    ultimately show ?thesis
      using append_lfn_units [of p "lfn_entry p" lfn_pos _ "[]" 14] len lfn_entry_units(1) [of p]
      by (simp add: append_lfn_part_def)
  qed
  then have "map (\<lambda>p. append_lfn_part (lfn_entry p) 14) (rev parts) = rev parts"
    by (intro map_idI) auto
  with assms(3) show ?thesis by (simp add: join_lfn_fits)
qed

theorem lfn_roundtrip_witness:
  "join_lfn (map (\<lambda>p. append_lfn_part (lfn_entry p) 14) (rev [replicate 13 97, [46, 98, 109, 112]])) =
    concat [replicate 13 97, [46, 98, 109, 112]]"
  by (rule lfn_roundtrip) code_simp+

subsection \<open>Checksums\<close>

lemma take_40_digest:
  assumes "list_all isxdigit (take 40 (take 127 out @ [0]))"
  shows "40 \<le> length out \<and> take 40 (take 127 out @ [0]) = take 40 out"
proof -
  have "40 \<le> length (take 127 out)"
  proof (rule ccontr)
    assume "\<not> 40 \<le> length (take 127 out)"
    then have "take 40 (take 127 out @ [0]) = take 127 out @ [0]" by simp
    with assms have "list_all isxdigit (take 127 out @ [0])" by metis
    then show False by (simp add: isxdigit_def)
  qed
  then show ?thesis by simp
qed

text \<open>A run of a program that ended well and whose output starts with the 40 digits \<open>d\<close>.\<close>

definition answers :: "tool_run \<Rightarrow> bytes \<Rightarrow> bool" where
  "answers t d \<longleftrightarrow> pipe_ok t \<and> fork_ok t \<and> wait_ok t \<and> exited t \<and> exit_status t = 0 \<and>
     (\<exists>more. tool_output t = Some (d @ more)) \<and> length d = 40 \<and> list_all isxdigit d"

lemma read_digest_Some:
  "read_digest got = Some d \<longleftrightarrow> (\<exists>more. got = Some (d @ more)) \<and> length d = 40 \<and> list_all isxdigit d"
proof
  assume "read_digest got = Some d"
  then obtain out where o: "got = Some out" "d = take 40 (take 127 out @ [0])" "list_all isxdigit d"
    by (auto simp: read_digest_def Let_def split: option.splits if_splits)
  from o(3) have "list_all isxdigit (take 40 (take 127 out @ [0]))" by (simp only: o(2))
  from take_40_digest [OF this] have d: "40 \<le> length out" "d = take 40 out" using o(2) by blast+
  then have "out = d @ drop 40 out" by simp
  with o(1) have "\<exists>more. got = Some (d @ more)" by metis
  with o(3) d show "(\<exists>more. got = Some (d @ more)) \<and> length d = 40 \<and> list_all isxdigit d" by simp
next
  assume a: "(\<exists>more. got = Some (d @ more)) \<and> length d = 40 \<and> list_all isxdigit d"
  then obtain more where m: "got = Some (d @ more)" by blast
  have "d \<noteq> []" using a by auto
  moreover have "take 40 (take 127 (d @ more) @ [0]) = d" using a by simp
  ultimately show "read_digest got = Some d" using a m by (simp add: read_digest_def Let_def)
qed

lemma run_checksum_answers: "run_checksum_tool t = Some d \<longleftrightarrow> answers t d"
  by (auto simp: run_checksum_tool_def answers_def read_digest_Some)

lemma run_checksum_none: "run_checksum_tool t = None \<longleftrightarrow> (\<forall>d. \<not> answers t d)"
  using run_checksum_answers [of t] by (cases "run_checksum_tool t") auto

lemma write_loop_prefix:
  "write_loop evs f data = Some (r, f') \<Longrightarrow> pos f = length (contents f) \<Longrightarrow>
   \<exists>k. contents f' = contents f @ take k data \<and> (if r = 0 then length data \<le> k else k < length data)"
proof (induction evs f data rule: write_loop.induct)
  case (1 evs f data)
  show ?case
  proof (cases "data = []")
    case True
    with 1 show ?thesis by simp
  next
    case ne: False
    show ?thesis
    proof (cases evs)
      case (Cons e evs')
      show ?thesis
      proof (cases e)
        case Eio
        with Cons ne 1 show ?thesis by (intro exI [of _ 0]) auto
      next
        case Eintr
        with Cons ne 1 show ?thesis by simp
      next
        case (Upto c)
        let ?g = "file_write f (take (Suc c) data)"
        have g: "contents ?g = contents f @ take (Suc c) data" "pos ?g = length (contents ?g)"
          using 1(4) by (simp_all add: file_write_def)
        from 1(2) [OF ne Cons Upto _ g(2)] 1(3) Cons Upto ne obtain k where
          k: "contents f' = contents ?g @ take k (drop (Suc c) data)"
          "if r = 0 then length (drop (Suc c) data) \<le> k else k < length (drop (Suc c) data)"
          by auto
        then have "contents f' = contents f @ take (Suc c + k) data"
          using g(1) by (simp only: append_assoc take_add)
        with k(2) show ?thesis by (intro exI [of _ "Suc c + k"]) (auto split: if_splits)
      qed
    qed (use 1 ne in simp)
  qed
qed

lemma bool_write_all_prefix:
  assumes "bool_write_all evs data = Some (w, tmp)"
  shows "if w then tmp = data else (\<exists>k < length data. tmp = take k data)"
proof -
  from assms obtain r f where f: "write_loop evs \<lparr>contents = [], pos = 0, bad = (\<lambda>_. False)\<rparr> data = Some (r, f)"
    "w = (r = 0)" "tmp = contents f"
    by (auto simp: bool_write_all_def split: bind_splits)
  from write_loop_prefix [OF f(1)] f(2,3) show ?thesis by (auto split: if_splits)
qed

text \<open>
  C32: When \<open>sha1sum_file\<close> delivers a digest.  A program answers only with an exit status of 0 and 40
  hexadecimal digits first in its output.  When the temporary file was written and closed, the digest is
  the answer of \<open>sha1sum\<close> on a file with exactly the data, or that of \<open>shasum\<close> on it when \<open>sha1sum\<close> has
  none.  But when the writing failed, the file has only a proper prefix of the data, and the
  answer of \<open>shasum\<close> on that incomplete file is delivered all the same as the digest of the recovered file.
\<close>
theorem sha1sum_of_partial_file:
  assumes "mkstemp_ok e" "bool_write_all (tmp_writes e) data = Some (w, tmp)"
  shows "(if w then tmp = data else (\<exists>k < length data. tmp = take k data)) \<and>
    (sha1sum_file e data = Some (Some d, runs) \<longleftrightarrow>
      (if w \<and> close_ok e
       then (answers (tool e [''sha1sum'', tmpl] tmp) d \<and> runs = [([''sha1sum'', tmpl], tmp)]) \<or>
            ((\<forall>d'. \<not> answers (tool e [''sha1sum'', tmpl] tmp) d') \<and> answers (tool e [''shasum'', ''-a'', ''1'', tmpl] tmp) d \<and>
             runs = [([''sha1sum'', tmpl], tmp), ([''shasum'', ''-a'', ''1'', tmpl], tmp)])
       else answers (tool e [''shasum'', ''-a'', ''1'', tmpl] tmp) d \<and>
            runs = [([''shasum'', ''-a'', ''1'', tmpl], tmp)]))"
proof -
  have argv: "tool_argv ''sha1sum'' None None tmpl = [''sha1sum'', tmpl]"
    "tool_argv ''shasum'' (Some ''-a'') (Some ''1'') tmpl = [''shasum'', ''-a'', ''1'', tmpl]"
    by (simp_all add: tool_argv_def)
  have "sha1sum_file e data = Some (Some d, runs) \<longleftrightarrow>
      (if w \<and> close_ok e
       then (run_checksum_tool (tool e [''sha1sum'', tmpl] tmp) = Some d \<and> runs = [([''sha1sum'', tmpl], tmp)]) \<or>
            (run_checksum_tool (tool e [''sha1sum'', tmpl] tmp) = None \<and>
             run_checksum_tool (tool e [''shasum'', ''-a'', ''1'', tmpl] tmp) = Some d \<and>
             runs = [([''sha1sum'', tmpl], tmp), ([''shasum'', ''-a'', ''1'', tmpl], tmp)])
       else run_checksum_tool (tool e [''shasum'', ''-a'', ''1'', tmpl] tmp) = Some d \<and>
            runs = [([''shasum'', ''-a'', ''1'', tmpl], tmp)])"
    using assms by (cases "run_checksum_tool (tool e [''sha1sum'', tmpl] tmp)")
      (auto simp: sha1sum_file_def Let_def argv)
  then show ?thesis
    using bool_write_all_prefix [OF assms(2)] by (simp add: run_checksum_answers run_checksum_none)
qed

definition full_disk :: check_env where
  "full_disk = quick_env\<lparr>tmp_writes := [Upto 1, Eio]\<rparr>"

text \<open>The device is full after two of three bytes; the digest of the two is delivered.\<close>

theorem sha1sum_of_partial_file_witness:
  "bool_write_all (tmp_writes full_disk) [1, 2, 3] = Some (False, [1, 2]) \<and>
   sha1sum_file full_disk [1, 2, 3] =
     Some (Some (replicate 40 97), [([''shasum'', ''-a'', ''1'', tmpl], [1, 2])])"
proof -
  have w: "bool_write_all (tmp_writes full_disk) [1, 2, 3] = Some (False, [1, 2])"
    by (simp add: bool_write_all_def full_disk_def file_write_def)
  have "answers (tool full_disk argv f) (replicate 40 97)" for argv f
    by (simp add: full_disk_def quick_env_def answers_def isxdigit_def list_all_iff)
  with sha1sum_of_partial_file [OF _ w, of "replicate 40 97" "[([''shasum'', ''-a'', ''1'', tmpl], [1, 2])]"] w
  show ?thesis by (simp add: full_disk_def quick_env_def)
qed

end
