(* ===== verification/CText.thy ===== *)
theory CText
  imports Main
begin

text \<open>
  C library functions on text that several labs use: character classes of the C locale,
  \<open>strncmp\<close> and \<open>strstr\<close> as prefix and substring tests, \<open>strchr\<close> as a split, \<open>sscanf\<close> tokens,
  \<open>strtol\<close> and \<open>atoi\<close> in base 10, and \<open>%d\<close> printing, with the round trip between the last two.
  A C string is the list of its characters before the terminator.
\<close>

definition code :: "char \<Rightarrow> nat" where
  "code c = of_char c"

definition is_digit :: "char \<Rightarrow> bool" where
  "is_digit c \<longleftrightarrow> 48 \<le> code c \<and> code c \<le> 57"

definition is_alpha :: "char \<Rightarrow> bool" where
  "is_alpha c \<longleftrightarrow> 65 \<le> code c \<and> code c \<le> 90 \<or> 97 \<le> code c \<and> code c \<le> 122"

definition is_alnum :: "char \<Rightarrow> bool" where
  "is_alnum c \<longleftrightarrow> is_alpha c \<or> is_digit c"

definition is_space :: "char \<Rightarrow> bool" where
  "is_space c \<longleftrightarrow> code c = 32 \<or> 9 \<le> code c \<and> code c \<le> 13"

definition starts_with :: "string \<Rightarrow> string \<Rightarrow> bool" where
  "starts_with p s \<longleftrightarrow> take (length p) s = p"

fun contains :: "string \<Rightarrow> string \<Rightarrow> bool" where
  "contains p [] \<longleftrightarrow> p = []"
| "contains p (c # s) \<longleftrightarrow> starts_with p (c # s) \<or> contains p s"

text \<open>The string before the first \<open>c\<close>, and what follows it if there is one.\<close>

definition split_at_char :: "char \<Rightarrow> string \<Rightarrow> string \<times> string option" where
  "split_at_char c s =
     (takeWhile (\<lambda>x. x \<noteq> c) s,
      case dropWhile (\<lambda>x. x \<noteq> c) s of [] \<Rightarrow> None | _ # t \<Rightarrow> Some t)"

text \<open>\<open>%ns\<close> of \<open>sscanf\<close>: white space is skipped, then up to \<open>n\<close> other characters are stored.\<close>

fun take_word :: "nat \<Rightarrow> string \<Rightarrow> string \<times> string" where
  "take_word 0 s = ([], s)"
| "take_word (Suc n) [] = ([], [])"
| "take_word (Suc n) (c # s) =
     (if is_space c then ([], c # s) else (case take_word n s of (w, r) \<Rightarrow> (c # w, r)))"

definition scan_word :: "nat \<Rightarrow> string \<Rightarrow> (string \<times> string) option" where
  "scan_word n s =
     (case take_word n (dropWhile is_space s) of (w, r) \<Rightarrow> if w = [] then None else Some (w, r))"

subsection \<open>Decimal numbers\<close>

definition digit_val :: "char \<Rightarrow> int" where
  "digit_val c = int (code c) - 48"

definition digits_val :: "string \<Rightarrow> int" where
  "digits_val ds = foldl (\<lambda>v c. 10 * v + digit_val c) 0 ds"

definition LONG_MAX :: int where "LONG_MAX = 2 ^ 63 - 1"
definition LONG_MIN :: int where "LONG_MIN = - (2 ^ 63)"

text \<open>\<open>strtol(s, &end, 10)\<close>: the value, held in the range of \<open>long\<close>, and the string at \<open>end\<close>.\<close>

definition strtol :: "string \<Rightarrow> int \<times> string" where
  "strtol s =
     (let t = dropWhile is_space s;
          neg = (t \<noteq> [] \<and> hd t = CHR ''-'');
          u = (if t \<noteq> [] \<and> (hd t = CHR ''-'' \<or> hd t = CHR ''+'') then tl t else t);
          ds = takeWhile is_digit u;
          v = (if neg then - digits_val ds else digits_val ds) in
        if ds = [] then (0, s)
        else (max LONG_MIN (min LONG_MAX v), dropWhile is_digit u))"

text \<open>\<open>atoi\<close> is \<open>strtol\<close> cut to the 32 bits of \<open>int\<close>.\<close>

definition atoi :: "string \<Rightarrow> int" where
  "atoi s = (fst (strtol s) + 2 ^ 31) mod 2 ^ 32 - 2 ^ 31"

text \<open>\<open>%d\<close> for numbers that are not negative.\<close>

definition digit_char :: "nat \<Rightarrow> char" where
  "digit_char d = char_of (48 + d)"

fun dec :: "nat \<Rightarrow> string" where
  "dec n = (if n < 10 then [digit_char n] else dec (n div 10) @ [digit_char (n mod 10)])"

declare dec.simps [simp del]

definition show_int :: "int \<Rightarrow> string" where
  "show_int i = (if i < 0 then ''-'' @ dec (nat (- i)) else dec (nat i))"

lemma digit_char: "d < 10 \<Longrightarrow> is_digit (digit_char d) \<and> digit_val (digit_char d) = int d"
  by (simp add: is_digit_def digit_val_def digit_char_def code_def)

lemma digits_val_append: "digits_val (xs @ [c]) = 10 * digits_val xs + digit_val c"
  by (simp add: digits_val_def)

lemma dec_digits: "list_all is_digit (dec n) \<and> digits_val (dec n) = int n \<and> dec n \<noteq> []"
proof (induction n rule: dec.induct)
  case (1 n)
  show ?case
  proof (cases "n < 10")
    case True
    then show ?thesis
      by (simp add: dec.simps [of n] digit_char) (simp add: digits_val_def digit_char)
  next
    case False
    have m: "n mod 10 < 10" "10 * int (n div 10) + int (n mod 10) = int n" by presburger+
    with False "1.IH" digit_char [OF m(1)] show ?thesis
      by (simp add: dec.simps [of n] digits_val_append)
  qed
qed

lemma is_digit_not_space: "is_digit c \<Longrightarrow> \<not> is_space c"
  by (auto simp: is_digit_def is_space_def)

lemma is_digit_not_sign: "is_digit c \<Longrightarrow> c \<noteq> CHR ''-'' \<and> c \<noteq> CHR ''+''"
  by (auto simp: is_digit_def code_def)

lemma strtol_digits:
  assumes "list_all is_digit ds" "ds \<noteq> []" "r = [] \<or> \<not> is_digit (hd r)"
  shows "strtol (ds @ r) = (max LONG_MIN (min LONG_MAX (digits_val ds)), r)"
proof -
  obtain c cs where ds: "ds = c # cs" using assms(2) by (cases ds) auto
  have c: "is_digit c" "\<not> is_space c" "c \<noteq> CHR ''-''" "c \<noteq> CHR ''+''"
    using assms(1) ds is_digit_not_space is_digit_not_sign by auto
  have "takeWhile is_digit (ds @ r) = ds" "dropWhile is_digit (ds @ r) = r"
    using assms(1,3) by (auto simp: list_all_iff takeWhile_append2 dropWhile_append2; cases r; auto)+
  with ds c show ?thesis by (simp add: strtol_def Let_def)
qed

lemma strtol_dec:
  assumes "int n \<le> LONG_MAX" "r = [] \<or> \<not> is_digit (hd r)"
  shows "strtol (dec n @ r) = (int n, r)"
  using strtol_digits [of "dec n" r] dec_digits [of n] assms by (simp add: LONG_MAX_def LONG_MIN_def)

lemma strtol_range: "LONG_MIN \<le> fst (strtol s) \<and> fst (strtol s) \<le> LONG_MAX"
  by (simp add: strtol_def Let_def LONG_MIN_def LONG_MAX_def)

lemma take_word_app: "take_word n s = (w, r) \<Longrightarrow>
    s = w @ r \<and> length w \<le> n \<and> list_all (\<lambda>c. \<not> is_space c) w"
proof (induction n s arbitrary: w r rule: take_word.induct)
  case (3 n c s)
  then show ?case by (cases "take_word n s") (auto split: if_splits)
qed auto

lemma scan_word_Some:
  assumes "scan_word n s = Some (w, r)"
  shows "w \<noteq> []" "length w \<le> n" "list_all (\<lambda>c. \<not> is_space c) w" "set w \<subseteq> set s" "set r \<subseteq> set s"
proof -
  have "take_word n (dropWhile is_space s) = (w, r)" "w \<noteq> []"
    using assms by (auto simp: scan_word_def split: prod.splits if_splits)
  moreover from this have "dropWhile is_space s = w @ r" "length w \<le> n"
    "list_all (\<lambda>c. \<not> is_space c) w"
    using take_word_app by blast+
  moreover have "set (dropWhile is_space s) \<subseteq> set s" by (auto dest: set_dropWhileD)
  ultimately show "w \<noteq> []" "length w \<le> n" "list_all (\<lambda>c. \<not> is_space c) w"
    "set w \<subseteq> set s" "set r \<subseteq> set s" by auto
qed

subsection \<open>\<open>strcmp\<close>\<close>

text \<open>The sign of the result of \<open>strcmp\<close>: an order of the strings.\<close>

fun strcmp :: "string \<Rightarrow> string \<Rightarrow> int" where
  "strcmp [] [] = 0"
| "strcmp [] (b # bs) = -1"
| "strcmp (a # as) [] = 1"
| "strcmp (a # as) (b # bs) =
     (if code a < code b then -1 else if code b < code a then 1 else strcmp as bs)"

lemma strcmp_zero: "strcmp a b = 0 \<longleftrightarrow> a = b"
  by (induction a b rule: strcmp.induct) (auto simp: code_def)

lemma strcmp_flip: "strcmp b a = - strcmp a b"
  by (induction a b rule: strcmp.induct) auto

lemma strcmp_trans: "strcmp a b \<le> 0 \<Longrightarrow> strcmp b c \<le> 0 \<Longrightarrow> strcmp a c \<le> 0"
proof (induction a b arbitrary: c rule: strcmp.induct)
  case (2 b bs)
  then show ?case by (cases c) auto
next
  case (4 a as b bs)
  show ?case
  proof (cases c)
    case Nil
    with 4(3) show ?thesis by simp
  next
    case (Cons x xs)
    from 4(2,3) Cons have le: "code a \<le> code b" "code b \<le> code x" by (auto split: if_split_asm)
    show ?thesis
    proof (cases "code a < code x")
      case True
      then show ?thesis by (simp add: Cons)
    next
      case False
      with le have eq: "code a = code b" "code b = code x" by auto
      with 4(2,3) Cons have "strcmp as bs \<le> 0" "strcmp bs xs \<le> 0" by auto
      with 4(1) eq have "strcmp as xs \<le> 0" by simp
      with eq show ?thesis by (simp add: Cons)
    qed
  qed
next
  case (3 a as)
  then show ?case by simp
qed simp

lemma strcmp_refl [simp]: "strcmp a a = 0"
  by (simp add: strcmp_zero)

end
