(* ===== verification/HttpRequest.thy ===== *)
theory HttpRequest
  imports CText KvFile
begin

text \<open>
  Requests of \<open>m7/httpd.c\<close>: parsing, the CGI program and its output, and the responses.  Data from
  the network and from programs are character lists; a C string is cut at its first null byte.
  A character array that no code has written yet is \<open>None\<close>; so is a result that would need a null
  pointer to be followed.
\<close>

definition c_string :: "string \<Rightarrow> string" where
  "c_string s = takeWhile (\<lambda>c. c \<noteq> CHR 0x00) s"

definition CRLF :: string where "CRLF = [CHR 0x0D, CHR 0x0A]"
definition LF :: string where "LF = [CHR 0x0A]"

definition BUFFER_SIZE :: nat where "BUFFER_SIZE = 8192"

definition reason_phrase :: "int \<Rightarrow> string" where
  "reason_phrase status =
     (if status = 200 then ''OK'' else if status = 403 then ''Forbidden''
      else if status = 404 then ''Not Found'' else if status = 500 then ''Internal Server Error''
      else ''OK'')"

definition simple_response :: "int \<Rightarrow> string \<Rightarrow> string" where
  "simple_response status body =
     ''HTTP/1.1 '' @ show_int status @ '' '' @ reason_phrase status @ CRLF @
     ''Content-Type: text/plain'' @ CRLF @
     ''Content-Length: '' @ dec (length body) @ CRLF @
     ''Connection: close'' @ CRLF @ CRLF @ body"

text \<open>\<open>send_all\<close>: what has gone out when the loop ends (\<open>None\<close>: it has not ended yet).\<close>

fun send_all :: "io_event list \<Rightarrow> string \<Rightarrow> string option" where
  "send_all evs buf =
     (if buf = [] then Some []
      else
        (case evs of
           [] \<Rightarrow> None
         | Eintr # evs' \<Rightarrow> send_all evs' buf
         | Eio # evs' \<Rightarrow> Some []
         | Upto c # evs' \<Rightarrow>
             map_option (\<lambda>out. take (Suc c) buf @ out) (send_all evs' (drop (Suc c) buf))))"

declare send_all.simps [simp del]

subsection \<open>Parsing\<close>

text \<open>The result and the two arrays \<open>sscanf\<close> fills.\<close>

definition parse_request_line :: "string \<Rightarrow> bool \<times> string option \<times> string option" where
  "parse_request_line buf =
     (case scan_word 15 buf of
        None \<Rightarrow> (False, None, None)
      | Some (meth, s) \<Rightarrow>
          (case scan_word 1023 s of
             None \<Rightarrow> (False, Some meth, None)
           | Some (target, s) \<Rightarrow>
               (case scan_word 31 s of
                  None \<Rightarrow> (False, Some meth, Some target)
                | Some (version, s) \<Rightarrow>
                    (starts_with ''HTTP/'' version, Some meth, Some target))))"

definition path_char :: "char \<Rightarrow> bool" where
  "path_char c \<longleftrightarrow> is_alnum c \<or> c = CHR ''/'' \<or> c = CHR ''-'' \<or> c = CHR ''_'' \<or> c = CHR ''.''"

definition valid_cgi_path :: "string \<Rightarrow> bool" where
  "valid_cgi_path path \<longleftrightarrow>
     (if \<not> starts_with ''/cgi-bin/'' path then False
      else if contains ''..'' path then False
      else list_all path_char path)"

definition parse_cgi_status :: "string \<Rightarrow> int" where
  "parse_cgi_status out =
     (let status_line = starts_with ''Status:'' out;
          at_digit = (if status_line then dropWhile (\<lambda>c. \<not> is_digit c) out else out);
          status = atoi at_digit in
        if status_line \<and> 100 \<le> status \<and> status \<le> 599 then status
        else if starts_with ''HTTP/1.'' at_digit then
          (case snd (split_at_char CHR '' '' at_digit) of
             None \<Rightarrow> 200
           | Some p \<Rightarrow> if 100 \<le> atoi p \<and> atoi p \<le> 599 then atoi p else 200)
        else 200)"

subsection \<open>The CGI program\<close>

text \<open>The loop of \<open>read_pipe_all\<close>: \<open>inp\<close> is what the pipe still delivers, \<open>cap\<close> the size of the
  buffer and \<open>buf\<close> its contents.  \<open>None\<close>: the loop has not ended; \<open>Some None\<close>: it returns NULL.\<close>

definition pipe_full :: "nat \<Rightarrow> nat \<Rightarrow> bool" where
  "pipe_full cap len \<longleftrightarrow> len + 1024 + 1 > cap"

definition pipe_cap :: "nat \<Rightarrow> nat \<Rightarrow> nat" where
  "pipe_cap cap len = (if pipe_full cap len then cap * 2 else cap)"

definition pipe_read :: "nat \<Rightarrow> nat \<Rightarrow> nat \<Rightarrow> string \<Rightarrow> string" where
  "pipe_read c cap len inp = take (min (Suc c) (cap - len - 1)) inp"

fun read_pipe_loop ::
  "(nat \<Rightarrow> bool) \<Rightarrow> io_event list \<Rightarrow> string \<Rightarrow> nat \<Rightarrow> string \<Rightarrow> string option option" where
  "read_pipe_loop realloc_ok evs inp cap buf =
     (if pipe_full cap (length buf) \<and> \<not> realloc_ok (cap * 2) then Some None
      else
        (case evs of
           [] \<Rightarrow> None
         | Eintr # evs' \<Rightarrow> read_pipe_loop realloc_ok evs' inp (pipe_cap cap (length buf)) buf
         | Eio # evs' \<Rightarrow> Some None
         | Upto c # evs' \<Rightarrow>
             (let got = pipe_read c (pipe_cap cap (length buf)) (length buf) inp in
                if got = [] then Some (Some buf)
                else read_pipe_loop realloc_ok evs' (drop (length got) inp)
                       (pipe_cap cap (length buf)) (buf @ got))))"

declare read_pipe_loop.simps [simp del]

record cgi_run =
  cgi_pipe_ok :: bool
  cgi_fork_ok :: bool
  cgi_malloc_ok :: bool
  cgi_realloc_ok :: "nat \<Rightarrow> bool"
  cgi_reads :: "io_event list"
  cgi_output :: string
  cgi_wait_ok :: bool
  cgi_exited :: bool
  cgi_code :: int

definition read_pipe_all :: "cgi_run \<Rightarrow> string option option" where
  "read_pipe_all c =
     (if \<not> cgi_malloc_ok c then Some None
      else read_pipe_loop (cgi_realloc_ok c) (cgi_reads c) (cgi_output c) 4096 [])"

text \<open>The status and the output buffer.\<close>

definition run_cgi :: "cgi_run \<Rightarrow> (int \<times> string option) option" where
  "run_cgi c =
     (if \<not> cgi_pipe_ok c \<or> \<not> cgi_fork_ok c then Some (500, None)
      else
        (case read_pipe_all c of
           None \<Rightarrow> None
         | Some out \<Rightarrow>
             if \<not> cgi_wait_ok c then Some (500, None)
             else
               (case out of
                  None \<Rightarrow> Some (500, None)
                | Some text \<Rightarrow>
                    if \<not> cgi_exited c \<or> cgi_code c \<noteq> 0 then Some (500, None)
                    else Some (parse_cgi_status (c_string text), Some text))))"

subsection \<open>Handling a request\<close>

text \<open>What the kernel answers: the bytes received (\<open>None\<close>: nothing), which files are executable,
  and how a program runs.\<close>

record req_env =
  received :: "string option"
  executable :: "string \<Rightarrow> bool"
  cgi :: "string \<Rightarrow> string \<Rightarrow> string \<Rightarrow> cgi_run"

text \<open>What a request leaves: its status, the two arrays that are logged, what is sent, and the
  program run with its query.\<close>

record served =
  status :: int
  log_method :: "string option"
  log_target :: "string option"
  sent :: string
  ran :: "(string \<times> string) option"

definition fs_path :: "string \<Rightarrow> string" where
  "fs_path path = take 1023 (''.'' @ path)"

definition cgi_response :: "int \<Rightarrow> string option \<Rightarrow> string option" where
  "cgi_response st out =
     (if st = 500 then Some (simple_response 500 (''cgi failed'' @ LF))
      else
        (case out of
           None \<Rightarrow> None
         | Some text \<Rightarrow>
             if starts_with ''HTTP/1.'' (c_string text) then Some text
             else Some (''HTTP/1.1 '' @ show_int st @ '' '' @ reason_phrase st @ CRLF @ text)))"

definition serve_cgi :: "req_env \<Rightarrow> string \<Rightarrow> string \<Rightarrow> string \<Rightarrow> served option" where
  "serve_cgi e meth path query =
     (case run_cgi (cgi e meth (fs_path path) query) of
        None \<Rightarrow> None
      | Some (st, out) \<Rightarrow>
          map_option (\<lambda>text. \<lparr>status = st, log_method = Some meth, log_target = Some path,
              sent = text, ran = Some (fs_path path, query)\<rparr>)
            (cgi_response st out))"

definition handle_request :: "req_env \<Rightarrow> served option" where
  "handle_request e =
     (case received e of
        None \<Rightarrow> Some \<lparr>status = 500, log_method = Some ''-'', log_target = Some ''-'', sent = [], ran = None\<rparr>
      | Some data \<Rightarrow>
          (case parse_request_line (c_string (take (BUFFER_SIZE - 1) data)) of
             (True, Some meth, Some target) \<Rightarrow>
               (let path = fst (split_at_char CHR ''?'' target);
                    query = (case snd (split_at_char CHR ''?'' target) of None \<Rightarrow> [] | Some q \<Rightarrow> q);
                    not_found = \<lparr>status = 404, log_method = Some meth, log_target = Some path,
                      sent = simple_response 404 (''not found'' @ LF), ran = None\<rparr> in
                  if meth \<noteq> ''GET'' \<or> \<not> valid_cgi_path path then Some not_found
                  else if \<not> executable e (fs_path path) then Some not_found
                  else serve_cgi e meth path query)
           | (_, m, t) \<Rightarrow>
               Some \<lparr>status = 500, log_method = m, log_target = t,
                 sent = simple_response 500 (''bad request'' @ LF), ran = None\<rparr>))"

text \<open>\<open>parse_port\<close>, on the first argument if there is one.\<close>

definition parse_port :: "string option \<Rightarrow> int" where
  "parse_port arg =
     (case arg of
        None \<Rightarrow> 8080
      | Some s \<Rightarrow>
          (let (port, rest) = strtol s in
             if rest \<noteq> [] \<or> port \<le> 0 \<or> port > 65535 then -1 else port))"

end
