(* ===== verification/HttpQueue.thy ===== *)
theory HttpQueue
  imports HttpRequest
begin

text \<open>
  The request queue of \<open>m7/httpd.c\<close>: a linked list of \<open>request_t\<close> nodes with a head and a tail
  pointer, and the interface \<open>fifo\<close> it provides to the worker threads.  Addresses are numbers, 0
  is the null pointer; sequence numbers do not wrap in the model.
\<close>

record request_t =
  client_fd :: int
  req_seq :: nat
  req_next :: nat

record queue_t =
  nodes :: "nat \<rightharpoonup> request_t"
  queue_head :: nat
  queue_tail :: nat
  next_seq :: nat

definition empty_queue :: queue_t where
  "empty_queue = \<lparr>nodes = Map.empty, queue_head = 0, queue_tail = 0, next_seq = 0\<rparr>"

text \<open>The body of \<open>enqueue\<close> for a node that \<open>malloc\<close> placed at \<open>req\<close>; \<open>None\<close> is an access to an
  address without a node.\<close>

definition enqueue :: "queue_t \<Rightarrow> nat \<Rightarrow> int \<Rightarrow> queue_t option" where
  "enqueue q req fd =
     (let q = q\<lparr>nodes := (nodes q)(req \<mapsto> \<lparr>client_fd = fd, req_seq = next_seq q, req_next = 0\<rparr>),
                next_seq := next_seq q + 1\<rparr> in
        if queue_tail q = 0 then Some (q\<lparr>queue_head := req, queue_tail := req\<rparr>)
        else
          (case nodes q (queue_tail q) of
             None \<Rightarrow> None
           | Some t \<Rightarrow>
               Some (q\<lparr>nodes := (nodes q)(queue_tail q \<mapsto> t\<lparr>req_next := req\<rparr>), queue_tail := req\<rparr>)))"

text \<open>\<open>dequeue\<close>: \<open>None\<close> if the queue is empty (the caller waits), else the queue and the node.\<close>

definition dequeue :: "queue_t \<Rightarrow> (queue_t \<times> nat \<times> nat \<times> int) option" where
  "dequeue q =
     (if queue_head q = 0 then None
      else
        (case nodes q (queue_head q) of
           None \<Rightarrow> None
         | Some r \<Rightarrow>
             (let q' = q\<lparr>queue_head := req_next r\<rparr>;
                  q' = (if queue_head q' = 0 then q'\<lparr>queue_tail := 0\<rparr> else q') in
                Some (q', queue_head q, req_seq r, client_fd r))))"

definition free_request :: "queue_t \<Rightarrow> nat \<Rightarrow> queue_t" where
  "free_request q req = q\<lparr>nodes := (nodes q)(req := None)\<rparr>"

definition node_free :: "queue_t \<Rightarrow> nat \<Rightarrow> bool" where
  "node_free q req \<longleftrightarrow> req \<noteq> 0 \<and> nodes q req = None"

subsection \<open>Queues as lists\<close>

text \<open>\<open>rep q n xs h\<close>: the queue holds the requests \<open>xs\<close> (sequence number, descriptor), \<open>n\<close> have been
  enqueued so far, and the nodes in \<open>h\<close> are taken out and not freed yet.\<close>

locale fifo =
  fixes enq :: "'q \<Rightarrow> nat \<Rightarrow> int \<Rightarrow> 'q option"
    and deq :: "'q \<Rightarrow> ('q \<times> nat \<times> nat \<times> int) option"
    and free :: "'q \<Rightarrow> nat \<Rightarrow> 'q"
    and fresh :: "'q \<Rightarrow> nat \<Rightarrow> bool"
    and empty :: 'q
    and rep :: "'q \<Rightarrow> nat \<Rightarrow> (nat \<times> int) list \<Rightarrow> nat set \<Rightarrow> bool"
  assumes empty_law: "rep empty 0 [] {}"
    and enq_law: "rep q n xs h \<Longrightarrow> fresh q a \<Longrightarrow>
      \<exists>q'. enq q a fd = Some q' \<and> rep q' (Suc n) (xs @ [(n, fd)]) h"
    and deq_empty_law: "rep q n [] h \<Longrightarrow> deq q = None"
    and deq_law: "rep q n ((s, fd) # xs) h \<Longrightarrow>
      \<exists>q' a. deq q = Some (q', a, s, fd) \<and> a \<notin> h \<and> rep q' n xs (insert a h)"
    and free_law: "rep q n xs h \<Longrightarrow> a \<in> h \<Longrightarrow> rep (free q a) n xs (h - {a})"
begin

text \<open>Requests leave in the order in which they came.\<close>

lemma deq_order:
  assumes "rep q n xs h" "deq q = Some (q', a, s, fd)"
  shows "\<exists>ys. xs = (s, fd) # ys \<and> a \<notin> h \<and> rep q' n ys (insert a h)"
proof (cases xs)
  case Nil
  with deq_empty_law assms show ?thesis by auto
next
  case (Cons x ys)
  obtain s' fd' where "x = (s', fd')" by (cases x)
  with deq_law [of q n s' fd' ys h] assms Cons show ?thesis by auto
qed

lemma deq_None: "rep q n xs h \<Longrightarrow> deq q = None \<longleftrightarrow> xs = []"
  using deq_empty_law deq_law by (cases xs) fastforce+

lemma enq_Some:
  assumes "rep q n xs h" "fresh q a" "enq q a fd = Some q'"
  shows "rep q' (Suc n) (xs @ [(n, fd)]) h"
  using enq_law [OF assms(1,2), of fd] assms(3) by auto

end

subsection \<open>The linked list\<close>

fun chain :: "(nat \<rightharpoonup> request_t) \<Rightarrow> nat \<Rightarrow> (nat \<times> nat \<times> int) list \<Rightarrow> bool" where
  "chain m p [] \<longleftrightarrow> p = 0"
| "chain m p ((a, s, fd) # xs) \<longleftrightarrow> p = a \<and> a \<noteq> 0 \<and>
     (\<exists>n. m a = Some \<lparr>client_fd = fd, req_seq = s, req_next = n\<rparr> \<and> chain m n xs)"

definition queue_rep :: "queue_t \<Rightarrow> nat \<Rightarrow> (nat \<times> int) list \<Rightarrow> nat set \<Rightarrow> bool" where
  "queue_rep q n xs h \<longleftrightarrow> next_seq q = n \<and> 0 \<notin> h \<and>
     (\<exists>ns. map snd ns = xs \<and> distinct (map fst ns) \<and> chain (nodes q) (queue_head q) ns \<and>
        queue_tail q = (if ns = [] then 0 else fst (last ns)) \<and>
        fst ` set ns \<inter> h = {} \<and> dom (nodes q) = fst ` set ns \<union> h)"

lemma queue_repE:
  assumes "queue_rep q n xs h"
  obtains ns where "map snd ns = xs" "distinct (map fst ns)" "chain (nodes q) (queue_head q) ns"
    "queue_tail q = (if ns = [] then 0 else fst (last ns))" "fst ` set ns \<inter> h = {}"
    "dom (nodes q) = fst ` set ns \<union> h" "next_seq q = n" "0 \<notin> h"
  using assms unfolding queue_rep_def by blast

lemma chain_frame: "a \<notin> fst ` set ns \<Longrightarrow> chain (m(a := v)) p ns = chain m p ns"
  by (induction m p ns rule: chain.induct) auto

lemma chain_in: "chain m p ns \<Longrightarrow> a \<in> fst ` set ns \<Longrightarrow> a \<noteq> 0"
  by (induction m p ns rule: chain.induct) auto

lemma chain_last:
  "chain m p (ns @ [(a, s, fd)]) \<Longrightarrow> m a = Some \<lparr>client_fd = fd, req_seq = s, req_next = 0\<rparr>"
proof (induction ns arbitrary: p)
  case (Cons x ns)
  then show ?case by (cases x) auto
qed auto

lemma chain_snoc:
  assumes "chain m p (ns @ [(a, s, fd)])" "b \<noteq> 0" "distinct (map fst (ns @ [(a, s, fd)]))"
    and "b \<notin> fst ` set (ns @ [(a, s, fd)])"
  shows "chain (m(b \<mapsto> \<lparr>client_fd = g, req_seq = t, req_next = 0\<rparr>,
      a \<mapsto> \<lparr>client_fd = fd, req_seq = s, req_next = b\<rparr>)) p (ns @ [(a, s, fd), (b, t, g)])"
  using assms
proof (induction ns arbitrary: p)
  case (Cons x ns)
  obtain c u f where x: "x = (c, u, f)" by (cases x)
  from Cons x show ?case by auto
qed auto

lemma enqueue_rep:
  assumes "queue_rep q n xs h" "node_free q a"
  shows "\<exists>q'. enqueue q a fd = Some q' \<and> queue_rep q' (Suc n) (xs @ [(n, fd)]) h"
proof -
  obtain ns where ns: "map snd ns = xs" "distinct (map fst ns)" "chain (nodes q) (queue_head q) ns"
    "queue_tail q = (if ns = [] then 0 else fst (last ns))" "fst ` set ns \<inter> h = {}"
    "dom (nodes q) = fst ` set ns \<union> h" and q: "next_seq q = n" "0 \<notin> h"
    using queue_repE [OF assms(1)] .
  have a: "a \<noteq> 0" "a \<notin> fst ` set ns" "a \<notin> h"
    using assms(2) ns(6) by (auto simp: node_free_def domIff)
  show ?thesis
  proof (cases ns rule: rev_cases)
    case Nil
    with ns q a show ?thesis
      by (auto simp: enqueue_def queue_rep_def Let_def intro!: exI [of _ "[(a, n, fd)]"])
  next
    case (snoc ms x)
    obtain t s g where x: "x = (t, s, g)" by (cases x)
    have t: "queue_tail q = t" "t \<noteq> 0" "t \<noteq> a" "t \<notin> h"
      using ns(4,5) snoc x a(2) chain_in [OF ns(3), of t] by auto
    have m: "nodes q t = Some \<lparr>client_fd = g, req_seq = s, req_next = 0\<rparr>"
      using ns(3) snoc x chain_last by blast
    let ?q = "q\<lparr>nodes := (nodes q)(a \<mapsto> \<lparr>client_fd = fd, req_seq = n, req_next = 0\<rparr>,
        t \<mapsto> \<lparr>client_fd = g, req_seq = s, req_next = a\<rparr>), next_seq := Suc n, queue_tail := a\<rparr>"
    have run: "enqueue q a fd = Some ?q"
      using t m q by (simp add: enqueue_def Let_def)
    have "chain (nodes ?q) (queue_head ?q) (ms @ [(t, s, g), (a, n, fd)])"
      using chain_snoc [of "nodes q" "queue_head q" ms t s g a fd n] ns(2,3) snoc x a by simp
    moreover have "dom (nodes ?q) = fst ` set (ms @ [(t, s, g), (a, n, fd)]) \<union> h"
      using ns(6) snoc x by auto
    ultimately have "queue_rep ?q (Suc n) (xs @ [(n, fd)]) h"
      unfolding queue_rep_def using ns snoc x a q
      by (intro conjI exI [of _ "ms @ [(t, s, g), (a, n, fd)]"]) auto
    with run show ?thesis by blast
  qed
qed

lemma dequeue_rep:
  assumes "queue_rep q n ((s, fd) # xs) h"
  shows "\<exists>q' a. dequeue q = Some (q', a, s, fd) \<and> a \<notin> h \<and> queue_rep q' n xs (insert a h)"
proof -
  obtain ns where ns: "map snd ns = (s, fd) # xs" "distinct (map fst ns)"
    "chain (nodes q) (queue_head q) ns" "queue_tail q = (if ns = [] then 0 else fst (last ns))"
    "fst ` set ns \<inter> h = {}" "dom (nodes q) = fst ` set ns \<union> h" and q: "next_seq q = n" "0 \<notin> h"
    using queue_repE [OF assms] .
  from ns(1) obtain a ms where n: "ns = (a, s, fd) # ms" "map snd ms = xs" by (cases ns) auto
  with ns(3) obtain r where r: "queue_head q = a" "a \<noteq> 0"
    "nodes q a = Some \<lparr>client_fd = fd, req_seq = s, req_next = r\<rparr>" "chain (nodes q) r ms" by auto
  have r0: "r = 0 \<longleftrightarrow> ms = []" using r(4) by (cases ms) auto
  let ?q = "if r = 0 then q\<lparr>queue_head := 0, queue_tail := 0\<rparr> else q\<lparr>queue_head := r\<rparr>"
  have "dequeue q = Some (?q, a, s, fd)" using r by (simp add: dequeue_def Let_def)
  moreover have "queue_rep ?q n xs (insert a h)"
    unfolding queue_rep_def using ns n r r0 q
    by (intro conjI exI [of _ ms]) auto
  moreover have "a \<notin> h" using ns(5) n by auto
  ultimately show ?thesis by blast
qed

lemma free_rep:
  assumes "queue_rep q n xs h" "a \<in> h"
  shows "queue_rep (free_request q a) n xs (h - {a})"
proof -
  obtain ns where ns: "map snd ns = xs" "distinct (map fst ns)" "chain (nodes q) (queue_head q) ns"
    "queue_tail q = (if ns = [] then 0 else fst (last ns))" "fst ` set ns \<inter> h = {}"
    "dom (nodes q) = fst ` set ns \<union> h" and q: "next_seq q = n" "0 \<notin> h"
    using queue_repE [OF assms(1)] .
  have "a \<notin> fst ` set ns" using ns(5) assms(2) by auto
  then show ?thesis
    unfolding queue_rep_def free_request_def using ns q
    by (intro conjI exI [of _ ns]) (auto simp: chain_frame)
qed

interpretation hq: fifo enqueue dequeue free_request node_free empty_queue queue_rep
proof
  show "queue_rep empty_queue 0 [] {}" by (simp add: queue_rep_def empty_queue_def)
  show "dequeue q = None" if "queue_rep q n [] h" for q n h
    using that by (auto simp: queue_rep_def dequeue_def)
qed (rule enqueue_rep dequeue_rep free_rep; assumption)+

end
