(* ===== verification/HttpServer.thy ===== *)
theory HttpServer
  imports HttpQueue
begin

text \<open>
  The threads of \<open>m7/httpd.c\<close>: the accepting thread, the workers, the queue between them and the
  ordered log.  A step is one critical section (\<open>queue_mu\<close> or \<open>log_mu\<close> held), or the handling of
  one request outside of them; waiting on a condition variable is a phase of its own, which a
  signal, a broadcast or a spurious wakeup ends.  The relation is stated for any queue and used
  for the linked list.  Every accepted connection has its own environment (what the client sends, what its
  program does), and the kernel's table says on which connection a descriptor is open.
\<close>

type_synonym held_request = "nat \<times> nat \<times> int"

text \<open>A worker between requests, waiting on \<open>queue_cv\<close>, with a request it has taken out, with one
  it has answered and must log, or waiting on \<open>log_cv\<close> for its turn.\<close>

datatype phase =
    Idle
  | Wait_Queue
  | Handling held_request
  | To_Log held_request served
  | Wait_Log held_request served

fun request_of :: "phase \<Rightarrow> held_request option" where
  "request_of Idle = None"
| "request_of Wait_Queue = None"
| "request_of (Handling r) = Some r"
| "request_of (To_Log r res) = Some r"
| "request_of (Wait_Log r res) = Some r"

fun log_broadcast :: "phase \<Rightarrow> phase" where
  "log_broadcast (Wait_Log r res) = To_Log r res"
| "log_broadcast ph = ph"

text \<open>\<open>log_lines\<close> is the output of \<open>log_request\<close>: the descriptor the request came from, method,
  path and status.  \<open>accepted\<close> records the descriptors in the order in which they were enqueued, and
  \<open>conns\<close> their connections; \<open>open_on fd\<close> is the number of the connection on which \<open>fd\<close> is open.  A
  descriptor that was closed may be given out again.\<close>

record 'q server =
  queue :: 'q
  workers :: "nat \<Rightarrow> phase"
  next_log_seq :: nat
  log_lines :: "(int \<times> string option \<times> string option \<times> int) list"
  accepted :: "int list"
  conns :: "req_env list"
  open_on :: "int \<Rightarrow> nat option"

definition log_entry :: "int \<Rightarrow> served \<Rightarrow> int \<times> string option \<times> string option \<times> int" where
  "log_entry fd res = (fd, log_method res, log_target res, status res)"

text \<open>The steps of worker \<open>i\<close> that work on a request.  \<open>handle\<close> is \<open>handle_request\<close> on the connection that
  the descriptor of the request is open on, and the \<open>close\<close> of the descriptor after it.\<close>

inductive advance ::
  "('q \<Rightarrow> ('q \<times> nat \<times> nat \<times> int) option) \<Rightarrow> ('q \<Rightarrow> nat \<Rightarrow> 'q) \<Rightarrow> nat \<Rightarrow> 'q server \<Rightarrow> 'q server \<Rightarrow> bool"
  for deq free i where
  take: "workers s i = Idle \<Longrightarrow> deq (queue s) = Some (q, a, n, fd) \<Longrightarrow>
    advance deq free i s (s\<lparr>queue := q, workers := (workers s)(i := Handling (a, n, fd))\<rparr>)"
| handle: "workers s i = Handling (a, n, fd) \<Longrightarrow> open_on s fd = Some c \<Longrightarrow>
    handle_request (conns s ! c) = Some res \<Longrightarrow>
    advance deq free i s (s\<lparr>workers := (workers s)(i := To_Log (a, n, fd) res),
      open_on := (open_on s)(fd := None)\<rparr>)"
| log: "workers s i = To_Log (a, n, fd) res \<Longrightarrow> n = next_log_seq s \<Longrightarrow>
    advance deq free i s (s\<lparr>log_lines := log_lines s @ [log_entry fd res], next_log_seq := n + 1,
      workers := (\<lambda>j. if j = i then Idle else log_broadcast (workers s j)),
      queue := free (queue s) a\<rparr>)"

text \<open>All steps, with \<open>W\<close> workers.  \<open>accept\<close> gives a descriptor that is not open, for a connection whose
  request can be handled to its end (the program that it may start ends its output), and signals
  \<open>queue_cv\<close>: if some worker waits on it, one does not any more.\<close>

inductive step ::
  "nat \<Rightarrow> ('q \<Rightarrow> nat \<Rightarrow> int \<Rightarrow> 'q option) \<Rightarrow> ('q \<Rightarrow> ('q \<times> nat \<times> nat \<times> int) option) \<Rightarrow>
    ('q \<Rightarrow> nat \<Rightarrow> 'q) \<Rightarrow> ('q \<Rightarrow> nat \<Rightarrow> bool) \<Rightarrow> 'q server \<Rightarrow> 'q server \<Rightarrow> bool"
  for W enq deq free fresh where
  accept_no_memory: "step W enq deq free fresh s s"
| accept_none_waits: "fresh (queue s) a \<Longrightarrow> enq (queue s) a fd = Some q \<Longrightarrow>
    open_on s fd = None \<Longrightarrow> handle_request e \<noteq> None \<Longrightarrow> \<forall>j < W. workers s j \<noteq> Wait_Queue \<Longrightarrow>
    step W enq deq free fresh s (s\<lparr>queue := q, accepted := accepted s @ [fd], conns := conns s @ [e],
      open_on := (open_on s)(fd \<mapsto> length (accepted s))\<rparr>)"
| accept_signal: "fresh (queue s) a \<Longrightarrow> enq (queue s) a fd = Some q \<Longrightarrow>
    open_on s fd = None \<Longrightarrow> handle_request e \<noteq> None \<Longrightarrow> j < W \<Longrightarrow> workers s j = Wait_Queue \<Longrightarrow>
    step W enq deq free fresh s (s\<lparr>queue := q, accepted := accepted s @ [fd], conns := conns s @ [e],
      open_on := (open_on s)(fd \<mapsto> length (accepted s)), workers := (workers s)(j := Idle)\<rparr>)"
| work: "i < W \<Longrightarrow> advance deq free i s s' \<Longrightarrow> step W enq deq free fresh s s'"
| wait_queue: "i < W \<Longrightarrow> workers s i = Idle \<Longrightarrow> deq (queue s) = None \<Longrightarrow>
    step W enq deq free fresh s (s\<lparr>workers := (workers s)(i := Wait_Queue)\<rparr>)"
| wait_log: "i < W \<Longrightarrow> workers s i = To_Log (a, n, fd) res \<Longrightarrow> n \<noteq> next_log_seq s \<Longrightarrow>
    step W enq deq free fresh s (s\<lparr>workers := (workers s)(i := Wait_Log (a, n, fd) res)\<rparr>)"
| spurious_queue: "i < W \<Longrightarrow> workers s i = Wait_Queue \<Longrightarrow>
    step W enq deq free fresh s (s\<lparr>workers := (workers s)(i := Idle)\<rparr>)"
| spurious_log: "i < W \<Longrightarrow> workers s i = Wait_Log r res \<Longrightarrow>
    step W enq deq free fresh s (s\<lparr>workers := (workers s)(i := To_Log r res)\<rparr>)"

definition initial_server :: "'q \<Rightarrow> 'q server" where
  "initial_server q = \<lparr>queue = q, workers = (\<lambda>i. Idle), next_log_seq = 0, log_lines = [],
     accepted = [], conns = [], open_on = (\<lambda>_. None)\<rparr>"

inductive reachable ::
  "nat \<Rightarrow> ('q \<Rightarrow> nat \<Rightarrow> int \<Rightarrow> 'q option) \<Rightarrow> ('q \<Rightarrow> ('q \<times> nat \<times> nat \<times> int) option) \<Rightarrow>
    ('q \<Rightarrow> nat \<Rightarrow> 'q) \<Rightarrow> ('q \<Rightarrow> nat \<Rightarrow> bool) \<Rightarrow> 'q \<Rightarrow> 'q server \<Rightarrow> bool"
  for W enq deq free fresh empty where
  start: "reachable W enq deq free fresh empty (initial_server empty)"
| next_step: "reachable W enq deq free fresh empty s \<Longrightarrow> step W enq deq free fresh s s' \<Longrightarrow>
    reachable W enq deq free fresh empty s'"

inductive_cases advanceE: "advance deq free i s s'"
inductive_cases stepE: "step W enq deq free fresh s s'"

lemma request_of_broadcast [simp]: "request_of (log_broadcast ph) = request_of ph"
  by (cases ph) auto

lemma broadcast_not_waiting [simp]: "log_broadcast ph \<noteq> Wait_Log r res"
  by (cases ph) auto

lemma broadcast_Wait_Queue [simp]: "log_broadcast ph = Wait_Queue \<longleftrightarrow> ph = Wait_Queue"
  by (cases ph) auto

subsection \<open>The invariant\<close>

text \<open>With \<open>k\<close> requests taken out of the queue: the queue holds the accepted requests from \<open>k\<close> on in
  order; the workers hold the requests between \<open>next_log_seq\<close> and \<open>k\<close>, each one exactly once; the
  log has the requests before \<open>next_log_seq\<close> in order; and nobody sleeps who has work to do.\<close>

definition queued :: "'q server \<Rightarrow> nat \<Rightarrow> (nat \<times> int) list" where
  "queued s k = zip [k..<length (accepted s)] (drop k (accepted s))"

text \<open>Which worker holds which request.\<close>

definition view :: "nat \<Rightarrow> (nat \<Rightarrow> phase) \<Rightarrow> nat \<Rightarrow> held_request option" where
  "view W ws = (\<lambda>i. if i < W then request_of (ws i) else None)"

definition held_ok ::
  "(nat \<Rightarrow> held_request option) \<Rightarrow> nat \<Rightarrow> nat \<Rightarrow> int list \<Rightarrow> nat set \<Rightarrow> bool" where
  "held_ok v lo k acc h \<longleftrightarrow> lo \<le> k \<and> k \<le> length acc \<and>
     (\<forall>i a n fd. v i = Some (a, n, fd) \<longrightarrow> lo \<le> n \<and> n < k \<and> fd = acc ! n \<and> a \<in> h) \<and>
     (\<forall>i j a b n m f g. v i = Some (a, n, f) \<longrightarrow> v j = Some (b, m, g) \<longrightarrow> i \<noteq> j \<longrightarrow> a \<noteq> b \<and> n \<noteq> m) \<and>
     (\<forall>n. lo \<le> n \<longrightarrow> n < k \<longrightarrow> (\<exists>i a fd. v i = Some (a, n, fd)))"

definition awake :: "nat \<Rightarrow> 'q server \<Rightarrow> nat \<Rightarrow> bool" where
  "awake W s k \<longleftrightarrow>
     (k < length (accepted s) \<longrightarrow> W = 0 \<or> (\<exists>i < W. workers s i \<noteq> Wait_Queue)) \<and>
     (\<forall>i < W. \<forall>a n fd res. workers s i = Wait_Log (a, n, fd) res \<longrightarrow> n \<noteq> next_log_seq s)"

text \<open>The log has, for each request before \<open>next_log_seq\<close>, the result of handling its connection.\<close>

definition logged :: "'q server \<Rightarrow> bool" where
  "logged s \<longleftrightarrow> length (log_lines s) = next_log_seq s \<and>
     (\<forall>n < next_log_seq s. n < length (conns s) \<and>
        (\<exists>res. handle_request (conns s ! n) = Some res \<and> log_lines s ! n = log_entry (accepted s ! n) res))"

definition results_ok :: "'q server \<Rightarrow> bool" where
  "results_ok s \<longleftrightarrow> (\<forall>i a n fd res. workers s i = To_Log (a, n, fd) res \<or> workers s i = Wait_Log (a, n, fd) res \<longrightarrow>
     n < length (conns s) \<and> handle_request (conns s ! n) = Some res)"

text \<open>The requests that are in the queue or being handled, and the connections: exactly their descriptors are
  open, each on its own connection.\<close>

definition pending :: "nat \<Rightarrow> 'q server \<Rightarrow> nat \<Rightarrow> nat \<Rightarrow> bool" where
  "pending W s k n \<longleftrightarrow> k \<le> n \<and> n < length (accepted s) \<or> (\<exists>i < W. \<exists>a fd. workers s i = Handling (a, n, fd))"

definition conns_ok :: "nat \<Rightarrow> 'q server \<Rightarrow> nat \<Rightarrow> bool" where
  "conns_ok W s k \<longleftrightarrow> length (conns s) = length (accepted s) \<and>
     (\<forall>e \<in> set (conns s). handle_request e \<noteq> None) \<and>
     (\<forall>n. pending W s k n \<longrightarrow> open_on s (accepted s ! n) = Some n) \<and>
     (\<forall>fd n. open_on s fd = Some n \<longrightarrow> pending W s k n \<and> accepted s ! n = fd)"

lemma held_range: "held_ok v lo k acc h \<Longrightarrow> lo \<le> k \<and> k \<le> length acc"
  by (simp add: held_ok_def)

lemma held_at:
  "held_ok v lo k acc h \<Longrightarrow> v i = Some (a, n, fd) \<Longrightarrow> lo \<le> n \<and> n < k \<and> fd = acc ! n \<and> a \<in> h"
  unfolding held_ok_def by blast

lemma held_inj:
  "held_ok v lo k acc h \<Longrightarrow> v i = Some (a, n, f) \<Longrightarrow> v j = Some (b, m, g) \<Longrightarrow> i \<noteq> j \<Longrightarrow> a \<noteq> b \<and> n \<noteq> m"
  unfolding held_ok_def by blast

lemma held_cover: "held_ok v lo k acc h \<Longrightarrow> lo \<le> n \<Longrightarrow> n < k \<Longrightarrow> \<exists>i a fd. v i = Some (a, n, fd)"
  unfolding held_ok_def by blast

lemma held_accept:
  assumes "held_ok v lo k acc h"
  shows "held_ok v lo k (acc @ [fd]) h"
proof -
  have "f = (acc @ [fd]) ! n" if "v i = Some (a, n, f)" for i a n f
    using held_at [OF assms that] held_range [OF assms] by (simp add: nth_append)
  with assms show ?thesis by (simp add: held_ok_def)
qed

lemma held_take:
  assumes "held_ok v lo k acc h" "v i = None" "k < length acc" "a \<notin> h"
  shows "held_ok (v(i \<mapsto> (a, k, acc ! k))) lo (Suc k) acc (insert a h)"
  unfolding held_ok_def
proof (intro conjI allI impI)
  show "lo \<le> Suc k" "Suc k \<le> length acc" using held_range [OF assms(1)] assms(3) by auto
next
  fix j b n f
  assume "(v(i \<mapsto> (a, k, acc ! k))) j = Some (b, n, f)"
  then show "lo \<le> n" "n < Suc k" "f = acc ! n" "b \<in> insert a h"
    using held_at [OF assms(1), of j b n f] held_range [OF assms(1)] by (auto split: if_splits)
next
  fix j j' b b' n n' f f'
  assume "(v(i \<mapsto> (a, k, acc ! k))) j = Some (b, n, f)"
    "(v(i \<mapsto> (a, k, acc ! k))) j' = Some (b', n', f')" "j \<noteq> j'"
  then show "b \<noteq> b'" "n \<noteq> n'"
    using held_inj [OF assms(1), of j b n f j' b' n' f'] held_at [OF assms(1), of j b n f]
      held_at [OF assms(1), of j' b' n' f'] assms(4) by (auto split: if_splits)
next
  fix n
  assume "lo \<le> n" "n < Suc k"
  show "\<exists>j b f. (v(i \<mapsto> (a, k, acc ! k))) j = Some (b, n, f)"
  proof (cases "n = k")
    case False
    then obtain j b f where "v j = Some (b, n, f)"
      using held_cover [OF assms(1) \<open>lo \<le> n\<close>] \<open>n < Suc k\<close> by auto
    with assms(2) show ?thesis by (intro exI [of _ j] exI [of _ b] exI [of _ f]) auto
  qed auto
qed

lemma held_log:
  assumes "held_ok v lo k acc h" "v i = Some (a, lo, fd)"
  shows "held_ok (v(i := None)) (Suc lo) k acc (h - {a})"
  unfolding held_ok_def
proof (intro conjI allI impI)
  show "Suc lo \<le> k" "k \<le> length acc" using held_at [OF assms] held_range [OF assms(1)] by auto
next
  fix j b n f
  assume "(v(i := None)) j = Some (b, n, f)"
  then have j: "j \<noteq> i" "v j = Some (b, n, f)" by (auto split: if_splits)
  show "Suc lo \<le> n" "n < k" "f = acc ! n" "b \<in> h - {a}"
    using held_at [OF assms(1) j(2)] held_inj [OF assms(1) j(2) assms(2) j(1)] by auto
next
  fix j j' b b' n n' f f'
  assume "(v(i := None)) j = Some (b, n, f)" "(v(i := None)) j' = Some (b', n', f')" "j \<noteq> j'"
  then show "b \<noteq> b'" "n \<noteq> n'"
    using held_inj [OF assms(1), of j b n f j' b' n' f'] by (auto split: if_splits)
next
  fix n
  assume n: "Suc lo \<le> n" "n < k"
  then obtain j b f where "v j = Some (b, n, f)" using held_cover [OF assms(1), of n] by auto
  with assms(2) n show "\<exists>j b f. (v(i := None)) j = Some (b, n, f)"
    by (intro exI [of _ j] exI [of _ b] exI [of _ f]) auto
qed

text \<open>The view after a step.\<close>

lemma view_same: "request_of ph = request_of (ws i) \<Longrightarrow> view W (ws(i := ph)) = view W ws"
  by (auto simp: view_def fun_eq_iff)

lemma view_set: "i < W \<Longrightarrow> request_of ph = Some r \<Longrightarrow> view W (ws(i := ph)) = (view W ws)(i \<mapsto> r)"
  by (auto simp: view_def fun_eq_iff)

lemma view_log:
  "i < W \<Longrightarrow> view W (\<lambda>j. if j = i then Idle else log_broadcast (ws j)) = (view W ws)(i := None)"
  by (auto simp: view_def fun_eq_iff)

lemma queued_Cons:
  "k < length (accepted s) \<Longrightarrow> queued s k = (k, accepted s ! k) # queued s (Suc k)"
  by (simp add: queued_def upt_conv_Cons Cons_nth_drop_Suc [symmetric])

lemma queued_Nil: "queued s k = [] \<longleftrightarrow> length (accepted s) \<le> k"
  by (auto simp: queued_def)

lemma queued_snoc:
  "k \<le> length (accepted s) \<Longrightarrow> accepted s' = accepted s @ [fd] \<Longrightarrow>
    queued s' k = queued s k @ [(length (accepted s), fd)]"
  by (simp add: queued_def zip_append)

lemma queued_cong: "accepted s' = accepted s \<Longrightarrow> queued s' k = queued s k"
  by (simp add: queued_def)

definition server_inv ::
  "('q \<Rightarrow> nat \<Rightarrow> (nat \<times> int) list \<Rightarrow> nat set \<Rightarrow> bool) \<Rightarrow> nat \<Rightarrow> 'q server \<Rightarrow> bool" where
  "server_inv rep W s \<longleftrightarrow> (\<exists>k h. rep (queue s) (length (accepted s)) (queued s k) h \<and>
     held_ok (view W (workers s)) (next_log_seq s) k (accepted s) h \<and>
     awake W s k \<and> logged s \<and> results_ok s \<and> conns_ok W s k)"

lemma server_invI:
  assumes "rep (queue s) (length (accepted s)) (queued s k) h"
    and "held_ok (view W (workers s)) (next_log_seq s) k (accepted s) h"
    and "awake W s k" "logged s" "results_ok s" "conns_ok W s k"
  shows "server_inv rep W s"
  using assms unfolding server_inv_def by blast

lemma server_invE:
  assumes "server_inv rep W s"
  obtains k h where "rep (queue s) (length (accepted s)) (queued s k) h"
    "held_ok (view W (workers s)) (next_log_seq s) k (accepted s) h"
    "awake W s k" "logged s" "results_ok s" "conns_ok W s k"
  using assms unfolding server_inv_def by blast

lemma logged_accept:
  assumes "logged s" "next_log_seq s \<le> length (accepted s)" "length (conns s) = length (accepted s)"
    and "log_lines s' = log_lines s" "next_log_seq s' = next_log_seq s" "accepted s' = accepted s @ [fd]"
      "conns s' = conns s @ [e]"
  shows "logged s'"
  using assms by (auto simp: logged_def nth_append)

lemma results_update:
  assumes "results_ok s" "workers s' = (workers s)(i := ph)" "conns s' = conns s"
    and "\<And>a n fd res. ph = To_Log (a, n, fd) res \<or> ph = Wait_Log (a, n, fd) res \<Longrightarrow>
      n < length (conns s) \<and> handle_request (conns s ! n) = Some res"
  shows "results_ok s'"
  using assms unfolding results_ok_def by (auto split: if_splits)

text \<open>A step after which the same requests are pending.\<close>

lemma conns_same:
  assumes "conns_ok W s k" "accepted s' = accepted s" "conns s' = conns s" "open_on s' = open_on s"
    and "\<And>n. pending W s' k' n \<longleftrightarrow> pending W s k n"
  shows "conns_ok W s' k'"
  using assms by (simp add: conns_ok_def)

lemma broadcast_Handling [simp]: "log_broadcast ph = Handling r \<longleftrightarrow> ph = Handling r"
  by (cases ph) auto

lemma pending_cong:
  "accepted s' = accepted s \<Longrightarrow> (\<And>j r. j < W \<Longrightarrow> workers s' j = Handling r \<longleftrightarrow> workers s j = Handling r) \<Longrightarrow>
   pending W s' k n \<longleftrightarrow> pending W s k n"
  by (auto simp: pending_def)

lemma pending_lt:
  assumes "held_ok (view W (workers s)) lo k (accepted s) h" "pending W s k n"
  shows "n < length (accepted s)"
proof (cases "k \<le> n \<and> n < length (accepted s)")
  case False
  with assms(2) obtain i a fd where "i < W" "workers s i = Handling (a, n, fd)" by (auto simp: pending_def)
  then have "view W (workers s) i = Some (a, n, fd)" by (simp add: view_def)
  from held_at [OF assms(1) this] held_range [OF assms(1)] show ?thesis by simp
qed simp

lemma conns_accept:
  assumes c: "conns_ok W s k" and s': "accepted s' = accepted s @ [fd]" "conns s' = conns s @ [e]"
      "open_on s' = (open_on s)(fd \<mapsto> length (accepted s))"
    and new: "open_on s fd = None" "handle_request e \<noteq> None" "k \<le> length (accepted s)"
    and p: "\<And>n. pending W s' k n \<longleftrightarrow> pending W s k n \<or> n = length (accepted s)"
    and lt: "\<And>n. pending W s k n \<Longrightarrow> n < length (accepted s)"
  shows "conns_ok W s' k"
proof -
  have "open_on s' (accepted s' ! n) = Some n" if "pending W s' k n" for n
  proof (cases "n = length (accepted s)")
    case False
    with that p have n: "pending W s k n" by blast
    then have "open_on s (accepted s ! n) = Some n" using c by (simp add: conns_ok_def)
    with new(1) s' lt [OF n] show ?thesis by (auto simp: nth_append)
  qed (simp add: s' nth_append)
  moreover have "pending W s' k n \<and> accepted s' ! n = f" if "open_on s' f = Some n" for f n
  proof (cases "f = fd")
    case False
    with that s' have "open_on s f = Some n" by simp
    then have "pending W s k n" "accepted s ! n = f" using c by (simp_all add: conns_ok_def)
    with p lt s' show ?thesis by (simp add: nth_append)
  qed (use that s' p in \<open>simp add: nth_append\<close>)
  ultimately show ?thesis using c new(2) s' by (simp add: conns_ok_def)
qed

lemma conns_close:
  assumes c: "conns_ok W s k" and s': "accepted s' = accepted s" "conns s' = conns s"
      "open_on s' = (open_on s)(accepted s ! m := None)"
    and m: "pending W s k m" and p: "\<And>n. pending W s' k n \<longleftrightarrow> pending W s k n \<and> n \<noteq> m"
  shows "conns_ok W s' k"
proof -
  have "open_on s (accepted s ! m) = Some m" using c m by (simp add: conns_ok_def)
  then have "accepted s ! n \<noteq> accepted s ! m" if "pending W s k n" "n \<noteq> m" for n
    using c that by (metis conns_ok_def option.inject)
  with c s' p show ?thesis by (auto simp: conns_ok_def)
qed

context fifo begin

lemma inv_start: "server_inv rep W (initial_server empty)"
  by (rule server_invI [of _ _ 0 "{}"])
    (use empty_law in \<open>simp_all add: initial_server_def queued_def held_ok_def view_def awake_def
      logged_def results_ok_def conns_ok_def pending_def\<close>)

lemma inv_take:
  assumes inv: "server_inv rep W s" and i: "i < W" "workers s i = Idle"
    and d: "deq (queue s) = Some (q, a, n, fd)"
  shows "server_inv rep W (s\<lparr>queue := q, workers := (workers s)(i := Handling (a, n, fd))\<rparr>)"
proof -
  obtain k h where k: "rep (queue s) (length (accepted s)) (queued s k) h"
    "held_ok (view W (workers s)) (next_log_seq s) k (accepted s) h"
    "awake W s k" "logged s" "results_ok s" "conns_ok W s k" using server_invE [OF inv] .
  obtain ys where ys: "queued s k = (n, fd) # ys" "a \<notin> h" "rep q (length (accepted s)) ys (insert a h)"
    using deq_order [OF k(1) d] by blast
  have "queued s k \<noteq> []" using ys(1) by simp
  then have lt: "k < length (accepted s)" by (simp add: queued_Nil)
  then have n: "n = k" "fd = accepted s ! k" "ys = queued s (Suc k)"
    using ys(1) unfolding queued_Cons [OF lt] by auto
  let ?s = "s\<lparr>queue := q, workers := (workers s)(i := Handling (a, n, fd))\<rparr>"
  have q: "queued ?s (Suc k) = queued s (Suc k)" by (rule queued_cong) simp
  show ?thesis
  proof (rule server_invI)
    show "rep (queue ?s) (length (accepted ?s)) (queued ?s (Suc k)) (insert a h)"
      using ys(3) n(3) q by simp
    have none: "view W (workers s) i = None" using i by (simp add: view_def)
    show "held_ok (view W (workers ?s)) (next_log_seq ?s) (Suc k) (accepted ?s) (insert a h)"
      using held_take [OF k(2) none lt ys(2)] n i(1) by (simp add: view_set)
    show "awake W ?s (Suc k)" using k(3) i(1) by (auto simp: awake_def intro!: exI [of _ i])
    show "logged ?s" using k(4) by (simp add: logged_def)
    show "results_ok ?s" by (rule results_update [OF k(5)]) auto
    have "pending W ?s (Suc k) m \<longleftrightarrow> pending W s k m" for m
    proof -
      have "(\<exists>j < W. \<exists>b f. workers ?s j = Handling (b, m, f)) \<longleftrightarrow>
          m = k \<or> (\<exists>j < W. \<exists>b f. workers s j = Handling (b, m, f))"
        using i n by (auto split: if_splits) (metis phase.distinct(3))
      then show ?thesis using lt by (auto simp: pending_def)
    qed
    from conns_same [OF k(6) _ _ _ this] show "conns_ok W ?s (Suc k)" by simp
  qed
qed

lemma inv_handle:
  assumes inv: "server_inv rep W s" and iW: "i < W" and i: "workers s i = Handling (a, n, fd)"
    and c: "open_on s fd = Some c" and e: "handle_request (conns s ! c) = Some res"
  shows "server_inv rep W (s\<lparr>workers := (workers s)(i := To_Log (a, n, fd) res), open_on := (open_on s)(fd := None)\<rparr>)"
proof -
  obtain k h where k: "rep (queue s) (length (accepted s)) (queued s k) h"
    "held_ok (view W (workers s)) (next_log_seq s) k (accepted s) h"
    "awake W s k" "logged s" "results_ok s" "conns_ok W s k" using server_invE [OF inv] .
  let ?s = "s\<lparr>workers := (workers s)(i := To_Log (a, n, fd) res), open_on := (open_on s)(fd := None)\<rparr>"
  have v: "view W (workers s) i = Some (a, n, fd)" using iW i by (simp add: view_def)
  note at = held_at [OF k(2) v] and range = held_range [OF k(2)]
  have p: "pending W s k n" using iW i by (auto simp: pending_def)
  then have "open_on s fd = Some n" using k(6) at by (simp add: conns_ok_def)
  with c have cn: "c = n" by simp
  show ?thesis
  proof (rule server_invI)
    show "rep (queue ?s) (length (accepted ?s)) (queued ?s k) h"
      using k(1) by (simp add: queued_def)
    show "held_ok (view W (workers ?s)) (next_log_seq ?s) k (accepted ?s) h"
      using k(2) i by (simp add: view_same)
    show "awake W ?s k" using k(3) by (auto simp: awake_def)
    show "logged ?s" using k(4) by (simp add: logged_def)
    show "results_ok ?s"
      by (rule results_update [OF k(5)]) (use e cn at range k(6) in \<open>auto simp: conns_ok_def\<close>)
    have "pending W ?s k m \<longleftrightarrow> pending W s k m \<and> m \<noteq> n" for m
    proof -
      have "m \<noteq> n" if "j < W" "j \<noteq> i" "workers s j = Handling (b, m, f)" for j b f
        using held_inj [OF k(2) _ v that(2), of b m f] that by (simp add: view_def)
      then have "(\<exists>j < W. \<exists>b f. workers ?s j = Handling (b, m, f)) \<longleftrightarrow>
          (\<exists>j < W. j \<noteq> i \<and> (\<exists>b f. workers s j = Handling (b, m, f)))"
        by (auto split: if_splits)
      also have "\<dots> \<longleftrightarrow> (\<exists>j < W. \<exists>b f. workers s j = Handling (b, m, f)) \<and> m \<noteq> n"
        using \<open>\<And>j b f. \<lbrakk>j < W; j \<noteq> i; workers s j = Handling (b, m, f)\<rbrakk> \<Longrightarrow> m \<noteq> n\<close> i by fastforce
      finally show ?thesis using at by (auto simp: pending_def)
    qed
    from conns_close [OF k(6) _ _ _ p this] at show "conns_ok W ?s k" by simp
  qed
qed

lemma inv_log:
  assumes inv: "server_inv rep W s" and i: "i < W" "workers s i = To_Log (a, n, fd) res"
    and n: "n = next_log_seq s"
  shows "server_inv rep W (s\<lparr>log_lines := log_lines s @ [log_entry fd res], next_log_seq := n + 1,
      workers := (\<lambda>j. if j = i then Idle else log_broadcast (workers s j)),
      queue := free (queue s) a\<rparr>)"
proof -
  obtain k h where k: "rep (queue s) (length (accepted s)) (queued s k) h"
    "held_ok (view W (workers s)) (next_log_seq s) k (accepted s) h"
    "awake W s k" "logged s" "results_ok s" "conns_ok W s k" using server_invE [OF inv] .
  have v: "view W (workers s) i = Some (a, next_log_seq s, fd)" using i n by (simp add: view_def)
  note at = held_at [OF k(2) v] and range = held_range [OF k(2)]
  let ?s = "s\<lparr>log_lines := log_lines s @ [log_entry fd res], next_log_seq := n + 1,
      workers := (\<lambda>j. if j = i then Idle else log_broadcast (workers s j)),
      queue := free (queue s) a\<rparr>"
  show ?thesis
  proof (rule server_invI)
    show "rep (queue ?s) (length (accepted ?s)) (queued ?s k) (h - {a})"
      using free_law [OF k(1)] at by (simp add: queued_def)
    show "held_ok (view W (workers ?s)) (next_log_seq ?s) k (accepted ?s) (h - {a})"
      using held_log [OF k(2) v] n by (simp add: view_log [OF i(1)])
    show "awake W ?s k" using i(1) by (auto simp: awake_def intro!: exI [of _ i])
    have "n < length (conns s)" "handle_request (conns s ! n) = Some res"
      using k(5) i(2) unfolding results_ok_def by blast+
    then show "logged ?s" using k(4) n at by (auto simp: logged_def nth_append less_Suc_eq)
    show "results_ok ?s"
      using k(5) unfolding results_ok_def by (auto elim: log_broadcast.elims)
    have "pending W ?s k m \<longleftrightarrow> pending W s k m" for m
      by (rule pending_cong) (use i in auto)
    from conns_same [OF k(6) _ _ _ this] show "conns_ok W ?s k" by simp
  qed
qed

lemma inv_accept:
  assumes inv: "server_inv rep W s" and a: "fresh (queue s) a" "enq (queue s) a fd = Some q"
    and ws: "ws = workers s \<and> (\<forall>j < W. workers s j \<noteq> Wait_Queue) \<or>
      (\<exists>j < W. workers s j = Wait_Queue \<and> ws = (workers s)(j := Idle))"
    and new: "open_on s fd = None" "handle_request e \<noteq> None"
  shows "server_inv rep W (s\<lparr>queue := q, accepted := accepted s @ [fd], conns := conns s @ [e],
      open_on := (open_on s)(fd \<mapsto> length (accepted s)), workers := ws\<rparr>)"
proof -
  obtain k h where k: "rep (queue s) (length (accepted s)) (queued s k) h"
    "held_ok (view W (workers s)) (next_log_seq s) k (accepted s) h"
    "awake W s k" "logged s" "results_ok s" "conns_ok W s k" using server_invE [OF inv] .
  note range = held_range [OF k(2)]
  let ?s = "s\<lparr>queue := q, accepted := accepted s @ [fd], conns := conns s @ [e],
      open_on := (open_on s)(fd \<mapsto> length (accepted s)), workers := ws\<rparr>"
  have view: "view W ws = view W (workers s)" using ws by (auto simp: view_same)
  show ?thesis
  proof (rule server_invI)
    have "queued ?s k = queued s k @ [(length (accepted s), fd)]"
      using range by (intro queued_snoc) auto
    then show "rep (queue ?s) (length (accepted ?s)) (queued ?s k) h"
      using enq_Some [OF k(1) a] by simp
    show "held_ok (view W (workers ?s)) (next_log_seq ?s) k (accepted ?s) h"
      using held_accept [OF k(2)] view by simp
    show "awake W ?s k" using k(3) ws by (auto simp: awake_def split: if_splits)
    have len: "length (conns s) = length (accepted s)" using k(6) by (simp add: conns_ok_def)
    show "logged ?s" using logged_accept [OF k(4) _ len, of ?s fd e] range by simp
    have hs: "ws j = Handling r \<longleftrightarrow> workers s j = Handling r" for j r using ws by (auto split: if_splits)
    have "pending W ?s k m \<longleftrightarrow> pending W s k m \<or> m = length (accepted s)" for m
      using range by (auto simp: pending_def hs)
    from conns_accept [OF k(6) _ _ _ new _ this pending_lt [OF k(2)]] range show "conns_ok W ?s k" by simp
    from ws show "results_ok ?s"
    proof
      assume "ws = workers s \<and> (\<forall>j < W. workers s j \<noteq> Wait_Queue)"
      with k(5) show ?thesis by (auto simp: results_ok_def nth_append intro: less_SucI intro: less_SucI)
    next
      assume "\<exists>j < W. workers s j = Wait_Queue \<and> ws = (workers s)(j := Idle)"
      then obtain j where "ws = (workers s)(j := Idle)" by blast
      with k(5) show ?thesis by (auto simp: results_ok_def nth_append intro: less_SucI intro: less_SucI split: if_splits)
    qed
  qed
qed

lemma inv_phase:
  assumes inv: "server_inv rep W s" and ph: "request_of ph = request_of (workers s i)" "i < W"
    and wait: "ph = Wait_Queue \<longrightarrow> deq (queue s) = None"
    and log: "\<And>r res. ph = To_Log r res \<or> ph = Wait_Log r res \<Longrightarrow>
      workers s i = To_Log r res \<or> workers s i = Wait_Log r res"
    and handling: "\<And>r. ph = Handling r \<longleftrightarrow> workers s i = Handling r"
    and turn: "\<And>a n fd res. ph = Wait_Log (a, n, fd) res \<Longrightarrow> n \<noteq> next_log_seq s"
  shows "server_inv rep W (s\<lparr>workers := (workers s)(i := ph)\<rparr>)"
proof -
  obtain k h where k: "rep (queue s) (length (accepted s)) (queued s k) h"
    "held_ok (view W (workers s)) (next_log_seq s) k (accepted s) h"
    "awake W s k" "logged s" "results_ok s" "conns_ok W s k" using server_invE [OF inv] .
  let ?s = "s\<lparr>workers := (workers s)(i := ph)\<rparr>"
  have idle: "ph = Wait_Queue \<longrightarrow> length (accepted s) \<le> k"
    using wait deq_None [OF k(1)] by (simp add: queued_Nil)
  show ?thesis
  proof (rule server_invI)
    show "rep (queue ?s) (length (accepted ?s)) (queued ?s k) h"
      using k(1) by (simp add: queued_def)
    show "held_ok (view W (workers ?s)) (next_log_seq ?s) k (accepted ?s) h"
      using k(2) ph by (simp add: view_same)
    show "awake W ?s k"
      using k(3) idle turn ph(2) by (auto simp: awake_def)
    show "logged ?s" using k(4) by (simp add: logged_def)
    show "results_ok ?s"
      by (rule results_update [OF k(5)]) (use log k(5) in \<open>auto simp: results_ok_def\<close>)
    have "pending W ?s k m \<longleftrightarrow> pending W s k m" for m
      by (rule pending_cong) (use handling in auto)
    from conns_same [OF k(6) _ _ _ this] show "conns_ok W ?s k" by simp
  qed
qed

lemma inv_advance:
  assumes "advance deq free i s s'" "i < W" "server_inv rep W s"
  shows "server_inv rep W s'"
  using assms(1)
proof (cases rule: advance.cases)
  case (take q a n fd)
  with inv_take [OF assms(3,2)] show ?thesis by simp
next
  case (handle a n fd c res)
  with inv_handle [OF assms(3,2)] show ?thesis by simp
next
  case (log a n fd res)
  with inv_log [OF assms(3,2)] show ?thesis by simp
qed

lemma inv_step:
  assumes "step W enq deq free fresh s s'" "server_inv rep W s"
  shows "server_inv rep W s'"
  using assms(1)
proof (cases rule: step.cases)
  case accept_no_memory
  with assms(2) show ?thesis by simp
next
  case (accept_none_waits a fd q e)
  then show ?thesis using inv_accept [OF assms(2), of a fd q "workers s" e] by simp
next
  case (accept_signal a fd q e j)
  then show ?thesis using inv_accept [OF assms(2), of a fd q "(workers s)(j := Idle)" e] by auto
next
  case (work i)
  then show ?thesis using inv_advance assms(2) by blast
next
  case (wait_queue i)
  then show ?thesis using inv_phase [OF assms(2), of Wait_Queue i] by simp
next
  case (wait_log i a n fd res)
  then show ?thesis using inv_phase [OF assms(2), of "Wait_Log (a, n, fd) res" i] by simp
next
  case (spurious_queue i)
  then show ?thesis using inv_phase [OF assms(2), of Idle i] by simp
next
  case (spurious_log i r res)
  then show ?thesis using inv_phase [OF assms(2), of "To_Log r res" i] by simp
qed

lemma reachable_inv: "reachable W enq deq free fresh empty s \<Longrightarrow> server_inv rep W s"
  by (induction rule: reachable.induct) (auto intro: inv_start inv_step)

end

end
