(* ===== verification/HttpServe.thy ===== *)
theory HttpServe
  imports HttpRequest
begin

text \<open>
  Properties of a single request of \<open>m7/httpd.c\<close>: which programs can be run, that the output of a
  program is read completely, that no null pointer is followed, and what is logged for a request
  that cannot be parsed.
\<close>

subsection \<open>Paths\<close>

lemma starts_with_take: "starts_with p (take n s) \<Longrightarrow> starts_with p s"
proof -
  assume "starts_with p (take n s)"
  then have p: "take (length p) (take n s) = p" by (simp add: starts_with_def)
  then have "length p \<le> n"
    by (metis length_take min.bounded_iff order_refl take_take)
  with p show ?thesis by (simp add: starts_with_def min_absorb1)
qed

lemma contains_take: "contains p (take n s) \<Longrightarrow> p \<noteq> [] \<Longrightarrow> contains p s"
proof (induction s arbitrary: n)
  case (Cons c s)
  then show ?case
    using starts_with_take [of p n "c # s"] by (cases n) auto
qed simp

lemma contains_Cons: "contains p (c # s) \<longleftrightarrow> starts_with p (c # s) \<or> contains p s"
  by simp

lemma fs_path_safe:
  assumes "valid_cgi_path path"
  shows "starts_with ''./cgi-bin/'' (fs_path path)" "\<not> contains ''..'' (fs_path path)"
    "list_all path_char (fs_path path)"
proof -
  have v: "take 9 path = ''/cgi-bin/''" "\<not> contains ''..'' path" "list_all path_char path"
    using assms by (auto simp: valid_cgi_path_def starts_with_def eval_nat_numeral split: if_splits)
  have "take 10 (fs_path path) = ''.'' @ take 9 path" by (simp add: fs_path_def)
  then show "starts_with ''./cgi-bin/'' (fs_path path)"
    using v(1) by (simp add: starts_with_def eval_nat_numeral)
  have "path \<noteq> []" using v(1) by auto
  then have "hd path = CHR ''/''" using v(1) by (cases path) auto
  with \<open>path \<noteq> []\<close> v(2) have "\<not> contains ''..'' (''.'' @ path)"
    by (cases path) (auto simp: starts_with_def)
  then show "\<not> contains ''..'' (fs_path path)" using contains_take unfolding fs_path_def by blast
  show "list_all path_char (fs_path path)"
    using v(3) by (auto simp: fs_path_def list_all_iff path_char_def dest: in_set_takeD)
qed

lemma handle_request_ran:
  assumes "handle_request e = Some s" "ran s = Some (prog, query)"
  obtains path where "valid_cgi_path path" "prog = fs_path path" "executable e prog"
    "log_method s = Some ''GET''"
  using assms
  by (auto simp: handle_request_def serve_cgi_def Let_def split: option.splits prod.splits bool.splits if_splits)

text \<open>
  C12: Whatever bytes a client sends, the only programs the server runs are executable files under
  \<open>./cgi-bin/\<close> whose path contains no \<open>..\<close> and nothing but letters, digits and \<open>/ - _ .\<close>, and
  only for the method \<open>GET\<close>.
\<close>
theorem cgi_stays_in_cgi_bin:
  assumes "handle_request e = Some s" "ran s = Some (prog, query)"
  shows "starts_with ''./cgi-bin/'' prog \<and> \<not> contains ''..'' prog \<and> list_all path_char prog \<and>
    executable e prog \<and> log_method s = Some ''GET''"
proof -
  obtain path where p: "valid_cgi_path path" "prog = fs_path path" "executable e prog"
    "log_method s = Some ''GET''" using handle_request_ran [OF assms] .
  from fs_path_safe [OF p(1)] p(2-4) show ?thesis by simp
qed

subsection \<open>Reading the output\<close>

lemma pipe_cap_room:
  assumes "4096 \<le> cap" "length buf + 1 \<le> cap"
  shows "length buf + 1025 \<le> pipe_cap cap (length buf)" "4096 \<le> pipe_cap cap (length buf)"
  using assms by (auto simp: pipe_cap_def pipe_full_def)

lemma read_pipe_loop_all:
  "4096 \<le> cap \<Longrightarrow> length buf + 1 \<le> cap \<Longrightarrow> Eio \<notin> set evs \<Longrightarrow>
    length inp < transfers evs \<Longrightarrow> read_pipe_loop (\<lambda>_. True) evs inp cap buf = Some (Some (buf @ inp))"
proof (induction evs arbitrary: inp cap buf)
  case (Cons e evs)
  let ?cap = "pipe_cap cap (length buf)"
  note room = pipe_cap_room [OF Cons.prems(1,2)]
  show ?case
  proof (cases e)
    case Eintr
    with Cons.prems room Cons.IH [of ?cap buf inp] show ?thesis
      by (simp add: read_pipe_loop.simps [of "\<lambda>_. True" "Eintr # evs"])
  next
    case Eio
    with Cons.prems show ?thesis by simp
  next
    case (Upto c)
    let ?got = "pipe_read c ?cap (length buf) inp"
    have step: "read_pipe_loop (\<lambda>_. True) (e # evs) inp cap buf =
        (if ?got = [] then Some (Some buf)
         else read_pipe_loop (\<lambda>_. True) evs (drop (length ?got) inp) ?cap (buf @ ?got))"
      using Upto by (simp add: read_pipe_loop.simps [of "\<lambda>_. True" "Upto c # evs"] Let_def)
    have len: "length ?got = min (length inp) (min (Suc c) (?cap - length buf - 1))"
      by (simp add: pipe_read_def)
    have app: "?got @ drop (length ?got) inp = inp"
      unfolding len by (simp add: pipe_read_def min_def)
    show ?thesis
    proof (cases "inp = []")
      case True
      then have "?got = []" by (simp add: pipe_read_def)
      with step True show ?thesis by simp
    next
      case False
      then have pos: "0 < length ?got" unfolding len using room(1) by simp
      have "length (buf @ ?got) + 1 \<le> ?cap" using room(1) len by simp
      moreover have "length (drop (length ?got) inp) < transfers evs"
      proof -
        have "length inp < Suc (transfers evs)" using Cons.prems(4) Upto by simp
        moreover have "length ?got \<le> length inp" using len by simp
        ultimately show ?thesis unfolding length_drop using pos by linarith
      qed
      ultimately have "read_pipe_loop (\<lambda>_. True) evs (drop (length ?got) inp) ?cap (buf @ ?got) =
          Some (Some ((buf @ ?got) @ drop (length ?got) inp))"
        using Cons.prems(3) room(2) by (intro Cons.IH) auto
      with step pos app show ?thesis by auto
    qed
  qed
qed simp

text \<open>
  \<open>read_pipe_all\<close> returns everything the program wrote, whatever its length and however the
  reads are split and interrupted: the buffer is always enlarged before it is full, so that a
  read of length 0 means end of file and the terminating null byte has room.
\<close>
theorem read_pipe_all_complete:
  assumes "cgi_malloc_ok c" "\<forall>n. cgi_realloc_ok c n" "Eio \<notin> set (cgi_reads c)"
    and "length (cgi_output c) < transfers (cgi_reads c)"
  shows "read_pipe_all c = Some (Some (cgi_output c))"
proof -
  have "cgi_realloc_ok c = (\<lambda>_. True)" using assms(2) by auto
  then show ?thesis
    using read_pipe_loop_all [of 4096 "[]" "cgi_reads c" "cgi_output c"] assms
    by (simp add: read_pipe_all_def)
qed

definition hello_run :: cgi_run where
  "hello_run = \<lparr>cgi_pipe_ok = True, cgi_fork_ok = True, cgi_malloc_ok = True,
     cgi_realloc_ok = (\<lambda>n. True), cgi_reads = [Upto 0, Eintr, Upto 9, Upto 9], cgi_output = ''hi'',
     cgi_wait_ok = True, cgi_exited = True, cgi_code = 0\<rparr>"

theorem read_pipe_all_complete_witness: "read_pipe_all hello_run = Some (Some ''hi'')"
  using read_pipe_all_complete [of hello_run] by (simp add: hello_run_def)

definition hello_env :: "string \<Rightarrow> req_env" where
  "hello_env req = \<lparr>received = Some req, executable = (\<lambda>p. p = ''./cgi-bin/x''),
     cgi = (\<lambda>m p q. hello_run)\<rparr>"

lemma hello_output: "read_pipe_all hello_run = Some (Some ''hi'')"
  by (simp add: read_pipe_all_def hello_run_def read_pipe_loop.simps pipe_full_def pipe_cap_def
      pipe_read_def Let_def)

lemma hello_request: "handle_request (hello_env (''GET /cgi-bin/x?a HTTP/1.1'' @ CRLF)) =
    Some \<lparr>status = 200, log_method = Some ''GET'', log_target = Some ''/cgi-bin/x'',
      sent = ''HTTP/1.1 200 OK'' @ CRLF @ ''hi'', ran = Some (''./cgi-bin/x'', ''a'')\<rparr>"
proof -
  have parse: "parse_request_line (c_string (take (BUFFER_SIZE - 1) (''GET /cgi-bin/x?a HTTP/1.1'' @ CRLF))) =
      (True, Some ''GET'', Some ''/cgi-bin/x?a'')"
    by code_simp
  have path: "split_at_char CHR ''?'' ''/cgi-bin/x?a'' = (''/cgi-bin/x'', Some ''a'')"
    "valid_cgi_path ''/cgi-bin/x''" "fs_path ''/cgi-bin/x'' = ''./cgi-bin/x''"
    "parse_cgi_status (c_string ''hi'') = 200" "starts_with ''HTTP/1.'' (c_string ''hi'') = False"
    "show_int 200 = ''200''"
    by code_simp+
  have "run_cgi hello_run = Some (200, Some ''hi'')"
    using path(4) by (simp add: run_cgi_def hello_output) (simp add: hello_run_def)
  with parse path show ?thesis
    by (simp add: handle_request_def serve_cgi_def hello_env_def Let_def cgi_response_def reason_phrase_def)
qed

theorem cgi_stays_in_cgi_bin_witness:
  "starts_with ''./cgi-bin/'' ''./cgi-bin/x'' \<and> \<not> contains ''..'' ''./cgi-bin/x'' \<and>
    list_all path_char ''./cgi-bin/x'' \<and>
    executable (hello_env (''GET /cgi-bin/x?a HTTP/1.1'' @ CRLF)) ''./cgi-bin/x''"
  using cgi_stays_in_cgi_bin [OF hello_request] by simp

subsection \<open>Null pointers and unwritten arrays\<close>

lemma run_cgi_output: "run_cgi c = Some (st, None) \<Longrightarrow> st = 500"
  by (auto simp: run_cgi_def split: if_splits option.splits)

lemma cgi_response_Some: "st = 500 \<or> out \<noteq> None \<Longrightarrow> \<exists>text. cgi_response st out = Some text"
  by (auto simp: cgi_response_def)

text \<open>
  C29: \<open>handle_request\<close> never follows a null pointer: whenever the loop reading a program's output
  ends, the request is answered, because \<open>run_cgi\<close> returns no output only with status 500.
\<close>
theorem handle_request_answers:
  assumes "\<And>m p q. read_pipe_all (cgi e m p q) \<noteq> None"
  shows "\<exists>s. handle_request e = Some s"
proof -
  have "\<exists>s. serve_cgi e m p q = Some s" for m p q
  proof -
    obtain out where "read_pipe_all (cgi e m (fs_path p) q) = Some out" using assms by blast
    then have "run_cgi (cgi e m (fs_path p) q) \<noteq> None" by (auto simp: run_cgi_def split: option.splits)
    then obtain st res where r: "run_cgi (cgi e m (fs_path p) q) = Some (st, res)" by auto
    then have "st = 500 \<or> res \<noteq> None" using run_cgi_output by (cases res) auto
    with r cgi_response_Some [of st res] show ?thesis by (auto simp: serve_cgi_def)
  qed
  then show ?thesis
    by (auto simp: handle_request_def Let_def split: option.splits prod.splits bool.splits)
qed

theorem handle_request_answers_witness:
  "\<exists>s. handle_request (hello_env ''GET /cgi-bin/x HTTP/1.0'') = Some s"
  by (rule handle_request_answers) (simp add: hello_env_def hello_output)

lemma scan_word_blank: "list_all is_space s \<Longrightarrow> scan_word n s = None"
proof -
  assume "list_all is_space s"
  then have "dropWhile is_space s = []" by (simp add: list_all_iff dropWhile_eq_Nil_conv)
  then have "scan_word n s = (case take_word n [] of (w, r) \<Rightarrow> if w = [] then None else Some (w, r))"
    by (simp only: scan_word_def)
  then show ?thesis by (cases n) simp_all
qed

text \<open>
  C30: For a request without a word (only white space, or a null byte first) the arrays for method
  and target are never written, yet the request is answered with 500 and both arrays are passed
  on to be logged.
\<close>
theorem blank_request_logs_unwritten:
  assumes "received e = Some data" "list_all is_space (c_string (take (BUFFER_SIZE - 1) data))"
  shows "\<exists>s. handle_request e = Some s \<and> status s = 500 \<and> log_method s = None \<and> log_target s = None"
  using assms by (simp add: handle_request_def parse_request_line_def scan_word_blank)

theorem blank_request_logs_unwritten_witness:
  "\<exists>s. handle_request (hello_env CRLF) = Some s \<and> status s = 500 \<and> log_method s = None \<and>
    log_target s = None"
  by (rule blank_request_logs_unwritten [of _ CRLF]) (simp add: hello_env_def, code_simp)

end
