(* ===== verification/HttpLog.thy ===== *)
theory HttpLog
  imports HttpServer HttpServe
begin

text \<open>
  What the worker threads of \<open>m7/httpd.c\<close> achieve together: the log is in the order of
  acceptance, the threads are never all stuck while a request is unanswered, and every run of
  their steps ends with all accepted requests logged.
\<close>

lemma held_phase:
  assumes "request_of ph = Some r"
  obtains "ph = Handling r" | res where "ph = To_Log r res" | res where "ph = Wait_Log r res"
  using assms by (cases ph) auto

text \<open>The steps already done for the requests that are not logged yet.\<close>

fun phase_work :: "phase \<Rightarrow> int" where
  "phase_work Idle = 0"
| "phase_work Wait_Queue = 0"
| "phase_work (Handling r) = 1"
| "phase_work (To_Log r res) = 2"
| "phase_work (Wait_Log r res) = 2"

definition work_left :: "nat \<Rightarrow> 'q server \<Rightarrow> int" where
  "work_left W s = 3 * (int (length (accepted s)) - int (next_log_seq s)) -
     (\<Sum>i < W. phase_work (workers s i))"

lemma phase_work_broadcast [simp]: "phase_work (log_broadcast ph) = phase_work ph"
  by (cases ph) auto

lemma sum_phase_update:
  fixes ws :: "nat \<Rightarrow> phase"
  assumes "i < W"
  shows "(\<Sum>j < W. phase_work ((ws(i := ph)) j)) =
    (\<Sum>j < W. phase_work (ws j)) - phase_work (ws i) + phase_work ph"
proof -
  have i: "i \<in> {..<W}" "finite {..<W}" using assms by simp_all
  have "(\<Sum>j \<in> {..<W} - {i}. phase_work ((ws(i := ph)) j)) = (\<Sum>j \<in> {..<W} - {i}. phase_work (ws j))"
    by (rule sum.cong) auto
  then show ?thesis
    using sum.remove [OF i(2,1), of "\<lambda>j. phase_work ((ws(i := ph)) j)"]
      sum.remove [OF i(2,1), of "\<lambda>j. phase_work (ws j)"] by simp
qed

lemma advance_work:
  assumes "advance deq free i s s'" "i < W"
  shows "work_left W s' = work_left W s - 1" "accepted s' = accepted s"
proof -
  have "work_left W s' = work_left W s - 1 \<and> accepted s' = accepted s"
    using assms(1)
  proof (cases rule: advance.cases)
    case (take q a n fd)
    then show ?thesis using sum_phase_update [OF assms(2)] by (simp add: work_left_def)
  next
    case (handle a n fd c res)
    then show ?thesis using sum_phase_update [OF assms(2)] by (simp add: work_left_def)
  next
    case (log a n fd res)
    have "(\<Sum>j < W. phase_work (if j = i then Idle else log_broadcast (workers s j))) =
        (\<Sum>j < W. phase_work (((workers s)(i := Idle)) j))"
      by (rule sum.cong) auto
    with log show ?thesis using sum_phase_update [OF assms(2), of "workers s" Idle] by (simp add: work_left_def)
  qed
  then show "work_left W s' = work_left W s - 1" "accepted s' = accepted s" by simp_all
qed

text \<open>Held requests have different numbers, so there are at most as many as are not logged.\<close>

lemma held_card:
  assumes "held_ok (view W ws) lo k acc h"
  shows "(\<Sum>i < W. phase_work (ws i)) \<le> 2 * (int k - int lo)"
proof -
  let ?H = "{i. i < W \<and> request_of (ws i) \<noteq> None}"
  let ?n = "\<lambda>i. fst (snd (the (request_of (ws i))))"
  have v: "view W ws i = Some (fst (the (request_of (ws i))), ?n i, snd (snd (the (request_of (ws i)))))"
    if "i \<in> ?H" for i
    using that by (auto simp: view_def)
  have "inj_on ?n ?H"
  proof (rule inj_onI)
    fix i j
    assume "i \<in> ?H" "j \<in> ?H" "?n i = ?n j"
    then show "i = j" using held_inj [OF assms v v, of i j] by auto
  qed
  moreover have "?n ` ?H \<subseteq> {lo..<k}"
  proof (rule image_subsetI)
    fix i
    assume "i \<in> ?H"
    from held_at [OF assms v [OF this]] show "?n i \<in> {lo..<k}" by simp
  qed
  ultimately have "card ?H \<le> k - lo" using card_inj_on_le [of ?n ?H "{lo..<k}"] by simp
  then have c: "int (card ?H) \<le> int k - int lo" using held_range [OF assms] by linarith
  have a: "(\<Sum>i < W. phase_work (ws i)) \<le> (\<Sum>i < W. if i \<in> ?H then 2 else 0)"
  proof (rule sum_mono)
    fix i
    assume "i \<in> {..<W}"
    then show "phase_work (ws i) \<le> (if i \<in> ?H then 2 else 0)" by (cases "ws i") auto
  qed
  have b: "(\<Sum>i < W. if i \<in> ?H then 2 else 0) = 2 * int (card ?H)"
  proof -
    have "{i \<in> {..<W}. i \<in> ?H} = ?H" by auto
    then show ?thesis by (simp add: sum.If_cases Int_def conj_commute)
  qed
  have "2 * int (card ?H) \<le> 2 * (int k - int lo)" by (rule mult_left_mono [OF c]) simp
  with a [unfolded b] show ?thesis by (rule order_trans)
qed

context fifo begin

lemma inv_counts:
  assumes "server_inv rep W s"
  shows "next_log_seq s \<le> length (accepted s)" "length (log_lines s) = next_log_seq s"
    "0 \<le> work_left W s"
proof -
  obtain k h where k: "held_ok (view W (workers s)) (next_log_seq s) k (accepted s) h" "logged s"
    using server_invE [OF assms] by metis
  show le: "next_log_seq s \<le> length (accepted s)" using held_range [OF k(1)] by simp
  show "length (log_lines s) = next_log_seq s" using k(2) by (simp add: logged_def)
  show "0 \<le> work_left W s"
    using held_card [OF k(1)] held_range [OF k(1)] by (simp add: work_left_def)
qed

text \<open>Some worker can work whenever a request is not logged.\<close>

lemma progress:
  assumes inv: "server_inv rep W s" and W: "0 < W" and pending: "next_log_seq s < length (accepted s)"
  shows "\<exists>i < W. \<exists>s'. advance deq free i s s'"
proof -
  obtain k h where k: "rep (queue s) (length (accepted s)) (queued s k) h"
    "held_ok (view W (workers s)) (next_log_seq s) k (accepted s) h"
    "awake W s k" "logged s" "results_ok s" "conns_ok W s k" using server_invE [OF inv] .
  have works: "\<exists>s'. advance deq free i s s'"
    if "i < W" "request_of (workers s i) = Some (a, n, fd)" "n = next_log_seq s \<or> workers s i = Handling (a, n, fd)"
    for i a n fd
    using that(2)
  proof (cases rule: held_phase)
    case 1
    have "view W (workers s) i = Some (a, n, fd)" using that by (simp add: view_def)
    from held_at [OF k(2) this] held_range [OF k(2)] have at: "fd = accepted s ! n" "n < length (accepted s)" by simp_all
    have "pending W s k n" using 1 that(1) by (auto simp: pending_def)
    then have c: "open_on s fd = Some n" using k(6) at by (simp add: conns_ok_def)
    have "n < length (conns s)" using k(6) at by (simp add: conns_ok_def)
    then have "handle_request (conns s ! n) \<noteq> None" using k(6) by (simp add: conns_ok_def)
    then obtain res where "handle_request (conns s ! n) = Some res" by auto
    from advance.handle [OF 1 c this] show ?thesis by blast
  next
    case (2 res)
    with that(3) have "n = next_log_seq s" by auto
    from advance.log [OF 2 this] show ?thesis by blast
  next
    case (3 res)
    with that k(3) show ?thesis by (auto simp: awake_def)
  qed
  show ?thesis
  proof (cases "next_log_seq s < k")
    case True
    then obtain i a fd where "view W (workers s) i = Some (a, next_log_seq s, fd)"
      using held_cover [OF k(2)] by blast
    then have "i < W" "request_of (workers s i) = Some (a, next_log_seq s, fd)"
      by (auto simp: view_def split: if_splits)
    then show ?thesis using works by blast
  next
    case False
    then have kn: "k = next_log_seq s" using held_range [OF k(2)] by simp
    with k(3) W pending obtain i where i: "i < W" "workers s i \<noteq> Wait_Queue" by (auto simp: awake_def)
    have "request_of (workers s i) = None"
    proof (rule ccontr)
      assume "request_of (workers s i) \<noteq> None"
      then obtain a n fd where "view W (workers s) i = Some (a, n, fd)"
        using i(1) by (auto simp: view_def)
      from held_at [OF k(2) this] kn show False by auto
    qed
    then have idle: "workers s i = Idle" using i(2) by (cases "workers s i") auto
    have "queued s k \<noteq> []" using pending kn by (simp add: queued_Nil)
    then have "deq (queue s) \<noteq> None" using deq_None [OF k(1)] by simp
    then obtain q a n fd where d: "deq (queue s) = Some (q, a, n, fd)" by auto
    show ?thesis
      by (intro exI [of _ i] conjI i(1) exI) (rule advance.take [where deq = deq, OF idle d])
  qed
qed

end

text \<open>A run of worker steps.\<close>

inductive works ::
  "('q \<Rightarrow> ('q \<times> nat \<times> nat \<times> int) option) \<Rightarrow> ('q \<Rightarrow> nat \<Rightarrow> 'q) \<Rightarrow> nat \<Rightarrow> 'q server \<Rightarrow> 'q server \<Rightarrow> bool"
  for deq free W where
  works_none: "works deq free W s s"
| works_step: "i < W \<Longrightarrow> advance deq free i s s' \<Longrightarrow> works deq free W s' s'' \<Longrightarrow> works deq free W s s''"

context fifo begin

lemma drain:
  "server_inv rep W s \<Longrightarrow> 0 < W \<Longrightarrow>
    \<exists>s'. works deq free W s s' \<and> accepted s' = accepted s \<and> length (log_lines s') = length (accepted s)"
proof (induction "nat (work_left W s)" arbitrary: s rule: less_induct)
  case less
  note counts = inv_counts [OF less.prems(1)]
  show ?case
  proof (cases "next_log_seq s < length (accepted s)")
    case False
    then have "length (log_lines s) = length (accepted s)" using counts by simp
    then show ?thesis using works_none by blast
  next
    case True
    then obtain i s' where i: "i < W" "advance deq free i s s'" using progress less.prems by blast
    note w = advance_work [OF i(2,1)] and inv' = inv_advance [OF i(2,1) less.prems(1)]
    have "nat (work_left W s') < nat (work_left W s)"
      using w(1) inv_counts(3) [OF inv'] by simp
    from less.hyps [OF this inv' less.prems(2)] w(2) obtain s'' where
      "works deq free W s' s''" "accepted s'' = accepted s" "length (log_lines s'') = length (accepted s)"
      by auto
    with works_step [OF i] show ?thesis by blast
  qed
qed

lemma log_order:
  assumes "server_inv rep W s" "n < length (log_lines s)"
  shows "\<exists>res. handle_request (conns s ! n) = Some res \<and> log_lines s ! n = log_entry (accepted s ! n) res"
proof -
  have "logged s" using server_invE [OF assms(1)] by metis
  with assms(2) show ?thesis by (simp add: logged_def)
qed

lemma log_counts:
  assumes "server_inv rep W s"
  shows "length (conns s) = length (accepted s)" "length (log_lines s) \<le> length (accepted s)"
proof -
  obtain k where "conns_ok W s k" using server_invE [OF assms] by metis
  then show "length (conns s) = length (accepted s)" by (simp add: conns_ok_def)
  show "length (log_lines s) \<le> length (accepted s)" using inv_counts(1,2) [OF assms] by simp
qed

text \<open>An open descriptor belongs to a request that is not logged yet.\<close>

lemma open_unlogged:
  assumes "server_inv rep W s" "open_on s fd = Some n"
  shows "length (log_lines s) \<le> n \<and> n < length (accepted s) \<and> accepted s ! n = fd"
proof -
  obtain k h where k: "held_ok (view W (workers s)) (next_log_seq s) k (accepted s) h" "logged s" "conns_ok W s k"
    using server_invE [OF assms(1)] by metis
  have p: "pending W s k n" "accepted s ! n = fd" using k(3) assms(2) by (simp_all add: conns_ok_def)
  have "next_log_seq s \<le> n"
  proof (cases "k \<le> n")
    case True
    with held_range [OF k(1)] show ?thesis by simp
  next
    case False
    with p(1) obtain i a f where "i < W" "workers s i = Handling (a, n, f)" by (auto simp: pending_def)
    then have "view W (workers s) i = Some (a, n, f)" by (simp add: view_def)
    from held_at [OF k(1) this] show ?thesis by simp
  qed
  with k(2) pending_lt [OF k(1) p(1)] p(2) show ?thesis by (simp add: logged_def)
qed

end

subsection \<open>The server\<close>

definition WORKERS :: nat where "WORKERS = 4"

text \<open>A run: descriptor 7 is accepted, taken, found closed by the client, and logged.\<close>

definition lost_client :: served where
  "lost_client = \<lparr>status = 500, log_method = Some ''-'', log_target = Some ''-'', sent = [], ran = None\<rparr>"

definition silent_client :: req_env where
  "silent_client = \<lparr>received = None, executable = (\<lambda>p. False), cgi = (\<lambda>m p q. hello_run)\<rparr>"

lemma silent_handled: "handle_request silent_client = Some lost_client"
  by (simp add: handle_request_def lost_client_def silent_client_def)

definition one_accepted :: "queue_t server" where
  "one_accepted = (initial_server empty_queue)\<lparr>queue := \<lparr>nodes = [16 \<mapsto> \<lparr>client_fd = 7, req_seq = 0, req_next = 0\<rparr>],
     queue_head = 16, queue_tail = 16, next_seq = 1\<rparr>, accepted := [7], conns := [silent_client],
     open_on := [7 \<mapsto> 0]\<rparr>"

definition one_taken :: "phase \<Rightarrow> queue_t server" where
  "one_taken ph = one_accepted\<lparr>queue := \<lparr>nodes = [16 \<mapsto> \<lparr>client_fd = 7, req_seq = 0, req_next = 0\<rparr>],
     queue_head = 0, queue_tail = 0, next_seq = 1\<rparr>, workers := (\<lambda>i. Idle)(0 := ph)\<rparr>"

definition one_answered :: "queue_t server" where
  "one_answered = (one_taken (To_Log (16, 0, 7) lost_client))\<lparr>open_on := (\<lambda>_. None)\<rparr>"

definition one_logged :: "queue_t server" where
  "one_logged = (one_taken Idle)\<lparr>open_on := (\<lambda>_. None), queue := free_request (queue (one_taken Idle)) 16,
     workers := (\<lambda>j. if j = 0 then Idle else log_broadcast (workers one_answered j)),
     next_log_seq := 1, log_lines := [log_entry 7 lost_client]\<rparr>"

lemma reach_accepted: "reachable WORKERS enqueue dequeue free_request node_free empty_queue one_accepted"
proof -
  have "step WORKERS enqueue dequeue free_request node_free (initial_server empty_queue) one_accepted"
    using step.accept_none_waits [of node_free "initial_server empty_queue" 16 enqueue 7 "queue one_accepted" silent_client
        WORKERS dequeue free_request]
    by (simp add: initial_server_def empty_queue_def node_free_def enqueue_def one_accepted_def silent_handled)
  then show ?thesis by (rule reachable.next_step [OF reachable.start])
qed

lemma work_lost_client:
  "advance dequeue free_request 0 one_accepted (one_taken (Handling (16, 0, 7)))"
  "advance dequeue free_request 0 (one_taken (Handling (16, 0, 7))) one_answered"
  "advance dequeue free_request 0 one_answered one_logged"
proof -
  show "advance dequeue free_request 0 one_accepted (one_taken (Handling (16, 0, 7)))"
    using advance.take [of one_accepted 0 dequeue "queue (one_taken Idle)" 16 0 7 free_request]
    by (simp add: one_accepted_def one_taken_def initial_server_def dequeue_def)
  show "advance dequeue free_request 0 (one_taken (Handling (16, 0, 7))) one_answered"
    using advance.handle [of "one_taken (Handling (16, 0, 7))" 0 16 0 7 0 lost_client dequeue free_request]
    by (simp add: one_taken_def one_answered_def one_accepted_def silent_handled)
  show "advance dequeue free_request 0 one_answered one_logged"
    using advance.log [of one_answered 0 16 0 7 lost_client dequeue free_request]
    by (simp add: one_taken_def one_answered_def one_logged_def one_accepted_def initial_server_def)
qed

lemma reach_logged: "reachable WORKERS enqueue dequeue free_request node_free empty_queue one_logged"
proof -
  have W: "0 < WORKERS" by (simp add: WORKERS_def)
  show ?thesis
    by (rule reachable.next_step [OF reachable.next_step [OF reachable.next_step [OF reach_accepted]]])
      (rule step.work [OF W] work_lost_client)+
qed

text \<open>
  C8: In every state the threads can reach, however they are interleaved, the log lists the
  accepted requests in the order of acceptance without gap or repetition: line \<open>n\<close> has the descriptor of the
  \<open>n\<close>-th accepted connection and the method, path and status with which the request of that same connection was
  handled.  A descriptor is closed before its request is logged, and only then given out again.
\<close>
theorem log_in_order_of_acceptance:
  assumes "reachable WORKERS enqueue dequeue free_request node_free empty_queue s"
  shows "length (conns s) = length (accepted s) \<and> length (log_lines s) \<le> length (accepted s) \<and>
    (\<forall>n < length (log_lines s). \<exists>res. handle_request (conns s ! n) = Some res \<and>
       log_lines s ! n = (accepted s ! n, log_method res, log_target res, status res)) \<and>
    (\<forall>fd n. open_on s fd = Some n \<longrightarrow> length (log_lines s) \<le> n \<and> n < length (accepted s) \<and> accepted s ! n = fd)"
  using hq.log_order [OF hq.reachable_inv [OF assms]] hq.log_counts [OF hq.reachable_inv [OF assms]]
    hq.open_unlogged [OF hq.reachable_inv [OF assms]] by (auto simp: log_entry_def)

theorem log_in_order_of_acceptance_witness:
  "handle_request (conns one_logged ! 0) = Some lost_client \<and>
    log_lines one_logged ! 0 = (7, log_method lost_client, log_target lost_client, status lost_client)"
proof -
  have "length (log_lines one_logged) = 1" "accepted one_logged ! 0 = 7" "conns one_logged ! 0 = silent_client"
    by (simp_all add: one_logged_def one_taken_def one_accepted_def)
  with log_in_order_of_acceptance [OF reach_logged] silent_handled show ?thesis by force
qed

text \<open>
  C9: The server never deadlocks: while an accepted request is not logged, some worker can take a
  request, handle one or log one. No worker waits for its turn in the log while the request
  whose turn it is lies in the queue, and no signal or broadcast is lost.
\<close>
theorem httpd_never_stuck:
  assumes "reachable WORKERS enqueue dequeue free_request node_free empty_queue s"
    and "length (log_lines s) < length (accepted s)"
  shows "\<exists>i < WORKERS. \<exists>s'. advance dequeue free_request i s s'"
  using hq.progress [OF hq.reachable_inv [OF assms(1)]] assms(2)
    hq.inv_counts(2) [OF hq.reachable_inv [OF assms(1)]] by (simp add: WORKERS_def)

theorem httpd_never_stuck_witness:
  "\<exists>i < WORKERS. \<exists>s'. advance dequeue free_request i one_accepted s'"
  by (rule httpd_never_stuck [OF reach_accepted]) (simp add: one_accepted_def initial_server_def)

text \<open>
  C28: Every step of a worker on a request reduces the work left by one, which is never negative,
  and from any reachable state such steps alone lead to a state in which all accepted requests
  are logged.
\<close>
theorem httpd_answers_all:
  assumes "reachable WORKERS enqueue dequeue free_request node_free empty_queue s"
  shows "0 \<le> work_left WORKERS s \<and>
    (\<forall>i < WORKERS. \<forall>s'. advance dequeue free_request i s s' \<longrightarrow> work_left WORKERS s' = work_left WORKERS s - 1) \<and>
    (\<exists>s'. works dequeue free_request WORKERS s s' \<and> accepted s' = accepted s \<and>
      length (log_lines s') = length (accepted s))"
  using hq.drain [OF hq.reachable_inv [OF assms]] hq.inv_counts(3) [OF hq.reachable_inv [OF assms]]
    advance_work(1) [of dequeue free_request _ s _ WORKERS]
  by (simp add: WORKERS_def)

theorem httpd_answers_all_witness:
  "0 \<le> work_left WORKERS one_accepted \<and>
    work_left WORKERS (one_taken (Handling (16, 0, 7))) = work_left WORKERS one_accepted - 1 \<and>
    (\<exists>s'. works dequeue free_request WORKERS one_accepted s' \<and> accepted s' = accepted one_accepted \<and>
      length (log_lines s') = length (accepted one_accepted))"
proof -
  have "0 < WORKERS" by (simp add: WORKERS_def)
  with httpd_answers_all [OF reach_accepted] work_lost_client(1) show ?thesis by blast
qed

end
