(* ===== verification/HttpMain.thy ===== *)
theory HttpMain
  imports HttpLog
begin

text \<open>
  \<open>main\<close> of \<open>m7/httpd.c\<close>: what can fail before the server runs, the accept loop around the steps of
  \<open>HttpServer\<close>, and how the process ends.
\<close>

text \<open>What the calls answer; \<open>create_ok i\<close> says whether worker \<open>i\<close> can be created.\<close>

record start_env =
  socket_fd :: int
  bind_ok :: bool
  listen_ok :: bool
  create_ok :: "nat \<Rightarrow> bool"

text \<open>Either the exit status with the descriptors that were closed, or the port, the listening
  descriptor and the number of workers.\<close>

datatype start_result = Exit_With int "int list" | Serving int int nat

text \<open>The loop over \<open>tids\<close>: how many workers it creates.\<close>

function create_workers :: "(nat \<Rightarrow> bool) \<Rightarrow> nat \<Rightarrow> nat \<Rightarrow> nat" where
  "create_workers ok W i = (if i < W \<and> ok i then create_workers ok W (i + 1) else i)"
  by pat_completeness auto
termination by (relation "measure (\<lambda>(ok, W, i). W - i)") auto

declare create_workers.simps [simp del]

definition start_up :: "start_env \<Rightarrow> string option \<Rightarrow> start_result" where
  "start_up e arg =
     (let port = parse_port arg in
        if port < 0 then Exit_With 1 []
        else if socket_fd e < 0 then Exit_With 1 []
        else if \<not> bind_ok e \<or> \<not> listen_ok e then Exit_With 1 [socket_fd e]
        else if create_workers (create_ok e) WORKERS 0 < WORKERS then Exit_With 1 [socket_fd e]
        else Serving port (socket_fd e) WORKERS)"

text \<open>The states \<open>main\<close> can get to.  \<open>accept\<close> gives a descriptor (the accept steps of \<open>step\<close>), is
  interrupted, or fails for good.\<close>

datatype main_state = Running "queue_t server" | Exited int "int list"

inductive httpd_main :: "start_env \<Rightarrow> string option \<Rightarrow> main_state \<Rightarrow> bool" for e arg where
  no_start: "start_up e arg = Exit_With c cl \<Longrightarrow> httpd_main e arg (Exited c cl)"
| started: "start_up e arg = Serving port fd n \<Longrightarrow>
    httpd_main e arg (Running (initial_server empty_queue))"
| threads_step: "httpd_main e arg (Running s) \<Longrightarrow>
    step WORKERS enqueue dequeue free_request node_free s s' \<Longrightarrow> httpd_main e arg (Running s')"
| accept_interrupted: "httpd_main e arg (Running s) \<Longrightarrow> httpd_main e arg (Running s)"
| accept_error: "httpd_main e arg (Running s) \<Longrightarrow> httpd_main e arg (Exited 1 [socket_fd e])"

inductive_cases ExitedE: "httpd_main e arg (Exited c cl)"

lemma create_workers_all: "i \<le> W \<Longrightarrow> create_workers ok W i = W \<longleftrightarrow> (\<forall>j. i \<le> j \<longrightarrow> j < W \<longrightarrow> ok j)"
proof (induction ok W i rule: create_workers.induct)
  case (1 ok W i)
  show ?case
  proof (cases "i < W \<and> ok i")
    case True
    then have "create_workers ok W i = create_workers ok W (i + 1)" by (subst create_workers.simps) simp
    moreover have "(\<forall>j. i \<le> j \<longrightarrow> j < W \<longrightarrow> ok j) \<longleftrightarrow> (\<forall>j. i + 1 \<le> j \<longrightarrow> j < W \<longrightarrow> ok j)"
      using True by (metis Suc_eq_plus1 Suc_leD le_antisym not_less_eq_eq)
    ultimately show ?thesis using 1(1) True by simp
  next
    case False
    then have "create_workers ok W i = i" using create_workers.simps [of ok W i] by metis
    with False 1(2) show ?thesis by auto
  qed
qed

lemma create_workers_le: "i \<le> W \<Longrightarrow> create_workers ok W i \<le> W"
proof (induction ok W i rule: create_workers.induct)
  case (1 ok W i)
  then show ?case by (subst create_workers.simps) simp
qed

text \<open>The server runs exactly if the port is valid and every call succeeds.\<close>

lemma start_up_serves:
  "(\<exists>port fd n. start_up e arg = Serving port fd n) \<longleftrightarrow>
     0 \<le> parse_port arg \<and> 0 \<le> socket_fd e \<and> bind_ok e \<and> listen_ok e \<and> (\<forall>i < WORKERS. create_ok e i)"
  using create_workers_all [of 0 WORKERS "create_ok e"] create_workers_le [of 0 WORKERS "create_ok e"]
  by (auto simp: start_up_def Let_def)

lemma running_reachable:
  "httpd_main e arg (Running s) \<Longrightarrow>
     reachable WORKERS enqueue dequeue free_request node_free empty_queue s"
proof (induction "Running s" arbitrary: s rule: httpd_main.induct)
  case (started port fd n)
  show ?case by (rule reachable.start)
next
  case (threads_step s s')
  from this(2,3) show ?case by (rule reachable.next_step)
qed

lemma running_started: "httpd_main e arg (Running s) \<Longrightarrow> \<exists>port fd n. start_up e arg = Serving port fd n"
proof (induction "Running s" arbitrary: s rule: httpd_main.induct)
  case (started port fd n)
  then show ?case by metis
qed

text \<open>\<open>main\<close> only ever ends with status 1, and closes the socket exactly if it has one.\<close>

lemma main_exit:
  assumes "httpd_main e arg (Exited c cl)"
  shows "c = 1 \<and> cl = (if parse_port arg < 0 \<or> socket_fd e < 0 then [] else [socket_fd e])"
proof (cases "start_up e arg")
  case (Exit_With c' cl')
  then have "\<nexists>s. httpd_main e arg (Running s)" using running_started by fastforce
  then have "start_up e arg = Exit_With c cl" using ExitedE [OF assms] by blast
  then show ?thesis by (auto simp: start_up_def Let_def split: if_splits)
next
  case (Serving port fd n)
  then have "0 \<le> parse_port arg \<and> 0 \<le> socket_fd e" using start_up_serves by blast
  moreover have "c = 1 \<and> cl = [socket_fd e]" using ExitedE [OF assms] Serving by fastforce
  ultimately show ?thesis by simp
qed

text \<open>So the log of the running server is in the order of acceptance.\<close>

lemma main_log_order:
  assumes "httpd_main e arg (Running s)" "n < length (log_lines s)"
  shows "\<exists>res. handle_request (conns s ! n) = Some res \<and> log_lines s ! n = log_entry (accepted s ! n) res"
  using hq.log_order [OF hq.reachable_inv [OF running_reachable [OF assms(1)]] assms(2)] .

end
