(* ===== verification/Threads.thy ===== *)
theory Threads
  imports Main
begin

text \<open>
  The thread library of \<open>thread.h\<close>, and the memory that threads share.  A thread is a program over
  that memory, a tree of single loads and stores, so threads interleave at every access; a
  schedule says which thread makes the next access.  The results of the file: threads whose
  accesses do not conflict leave the memory that they leave when run one after the other, and a
  program that stores every cell before it loads it does not depend on what the cell held.
\<close>

subsection \<open>Programs over shared memory\<close>

type_synonym 'f mem = "nat \<Rightarrow> 'f"

datatype ('f, 'x) prog = Ret 'x | Rd nat "'f \<Rightarrow> ('f, 'x) prog" | Wr nat 'f "('f, 'x) prog"

primrec bnd :: "('f, 'x) prog \<Rightarrow> ('x \<Rightarrow> ('f, 'y) prog) \<Rightarrow> ('f, 'y) prog" where
  "bnd (Ret x) f = f x"
| "bnd (Rd a k) f = Rd a (\<lambda>v. bnd (k v) f)"
| "bnd (Wr a v k) f = Wr a v (bnd k f)"

definition load :: "nat \<Rightarrow> ('f, 'f) prog" where
  "load a = Rd a Ret"

definition store :: "nat \<Rightarrow> 'f \<Rightarrow> ('f, unit) prog" where
  "store a v = Wr a v (Ret ())"

text \<open>A counting loop with the local variables \<open>s\<close>.\<close>

primrec for_list :: "nat list \<Rightarrow> (nat \<Rightarrow> 's \<Rightarrow> ('f, 's) prog) \<Rightarrow> 's \<Rightarrow> ('f, 's) prog" where
  "for_list [] body s = Ret s"
| "for_list (i # is) body s = bnd (body i s) (for_list is body)"

definition for_loop :: "nat \<Rightarrow> nat \<Rightarrow> (nat \<Rightarrow> 's \<Rightarrow> ('f, 's) prog) \<Rightarrow> 's \<Rightarrow> ('f, 's) prog" where
  "for_loop b e body s = for_list [b..<e] body s"

text \<open>The loop whose iterations share no local variable.\<close>

definition for_each :: "nat \<Rightarrow> nat \<Rightarrow> (nat \<Rightarrow> ('f, unit) prog) \<Rightarrow> ('f, unit) prog" where
  "for_each b e body = for_loop b e (\<lambda>i _. body i) ()"

primrec run :: "('f, 'x) prog \<Rightarrow> 'f mem \<Rightarrow> 'x \<times> 'f mem" where
  "run (Ret x) m = (x, m)"
| "run (Rd a k) m = run (k (m a)) m"
| "run (Wr a v k) m = run k (m(a := v))"

definition exec :: "('f, 'x) prog \<Rightarrow> 'f mem \<Rightarrow> 'f mem" where
  "exec p m = snd (run p m)"

primrec step1 :: "('f, 'x) prog \<Rightarrow> 'f mem \<Rightarrow> ('f, 'x) prog \<times> 'f mem" where
  "step1 (Ret x) m = (Ret x, m)"
| "step1 (Rd a k) m = (k (m a), m)"
| "step1 (Wr a v k) m = (k, m(a := v))"

text \<open>Threads one after the other; and threads in the order of a schedule, with what is left of
  them at its end (\<open>join\<close> waits for all).  Every interleaving of the accesses is a schedule.\<close>

definition run_all :: "('f, 'x) prog list \<Rightarrow> 'f mem \<Rightarrow> 'f mem" where
  "run_all ps m = fold exec ps m"

fun run_sched :: "nat list \<Rightarrow> ('f, 'x) prog list \<Rightarrow> 'f mem \<Rightarrow> 'f mem" where
  "run_sched [] ps m = run_all ps m"
| "run_sched (i # is) ps m =
     (if i < length ps
      then (case step1 (ps ! i) m of (p, m') \<Rightarrow> run_sched is (ps[i := p]) m')
      else run_sched is ps m)"

subsection \<open>Footprints\<close>

text \<open>\<open>p\<close> stores into \<open>W\<close> only and loads from \<open>W\<close> and \<open>R\<close> only, whatever it loads.\<close>

primrec safe :: "nat set \<Rightarrow> nat set \<Rightarrow> ('f, 'x) prog \<Rightarrow> bool" where
  "safe W R (Ret x) \<longleftrightarrow> True"
| "safe W R (Rd a k) \<longleftrightarrow> a \<in> W \<union> R \<and> (\<forall>v. safe W R (k v))"
| "safe W R (Wr a v k) \<longleftrightarrow> a \<in> W \<and> safe W R k"

named_theorems safe_rules \<open>footprints, construct by construct\<close>

lemma safe_bnd [safe_rules]: "safe W R p \<Longrightarrow> (\<And>x. safe W R (f x)) \<Longrightarrow> safe W R (bnd p f)"
  by (induction p) auto

lemma safe_load [safe_rules]: "a \<in> W \<union> R \<Longrightarrow> safe W R (load a)"
  by (simp add: load_def)

lemma safe_store [safe_rules]: "a \<in> W \<Longrightarrow> safe W R (store a v)"
  by (simp add: store_def)

lemma safe_Ret [safe_rules]: "safe W R (Ret x)"
  by simp

lemma safe_for_list: "(\<And>i s. i \<in> set is \<Longrightarrow> safe W R (body i s)) \<Longrightarrow> safe W R (for_list is body s)"
  by (induction "is" arbitrary: s) (auto intro!: safe_bnd)

lemma safe_for_loop [safe_rules]:
  "(\<And>i s. b \<le> i \<Longrightarrow> i < e \<Longrightarrow> safe W R (body i s)) \<Longrightarrow> safe W R (for_loop b e body s)"
  unfolding for_loop_def by (rule safe_for_list) auto

lemma safe_for_each [safe_rules]:
  "(\<And>i. b \<le> i \<Longrightarrow> i < e \<Longrightarrow> safe W R (body i)) \<Longrightarrow> safe W R (for_each b e body)"
  unfolding for_each_def by (rule safe_for_loop)

lemma safe_if [safe_rules]: "(c \<Longrightarrow> safe W R p) \<Longrightarrow> (\<not> c \<Longrightarrow> safe W R q) \<Longrightarrow> safe W R (if c then p else q)"
  by simp

lemma safe_mono: "safe W R p \<Longrightarrow> W \<subseteq> W' \<Longrightarrow> R \<subseteq> W' \<union> R' \<Longrightarrow> safe W' R' p"
  by (induction p) auto

lemma run_bnd: "run (bnd p f) m = (case run p m of (x, m') \<Rightarrow> run (f x) m')"
  by (induction p arbitrary: m) auto

lemma exec_frame: "safe W R p \<Longrightarrow> a \<notin> W \<Longrightarrow> exec p m a = m a"
  unfolding exec_def by (induction p arbitrary: m) auto

lemma run_upd:
  "safe W R p \<Longrightarrow> a \<notin> W \<Longrightarrow> a \<notin> R \<Longrightarrow>
   run p (m(a := v)) = (fst (run p m), (snd (run p m))(a := v))"
proof (induction p arbitrary: m)
  case (Rd b k)
  then have "b \<noteq> a" by auto
  with Rd show ?case by simp
next
  case (Wr b w p)
  then have "b \<noteq> a" by auto
  then have "(m(a := v))(b := w) = (m(b := w))(a := v)" by (rule fun_upd_twist [symmetric])
  with Wr(1) [of "m(b := w)"] Wr(2-4) show ?case by (simp del: fun_upd_apply)
qed simp

lemma exec_upd:
  "safe W R p \<Longrightarrow> a \<notin> W \<Longrightarrow> a \<notin> R \<Longrightarrow> exec p (m(a := v)) = (exec p m)(a := v)"
  unfolding exec_def by (simp add: run_upd)

lemma step1_safe: "safe W R p \<Longrightarrow> safe W R (fst (step1 p m))"
  by (cases p) auto

lemma step1_exec: "exec (fst (step1 p m)) (snd (step1 p m)) = exec p m"
  unfolding exec_def by (cases p) auto

subsection \<open>Definite initialisation\<close>

text \<open>From memories that agree on \<open>R\<close> and on the cells \<open>D\<close> stored before: every load is from these or
  from a cell that \<open>p\<close> has stored by then, and at the end the cells \<open>E\<close> have been stored.\<close>

primrec inits :: "nat set \<Rightarrow> nat set \<Rightarrow> nat set \<Rightarrow> ('f, 'x) prog \<Rightarrow> bool" where
  "inits R E D (Ret x) \<longleftrightarrow> E \<subseteq> D"
| "inits R E D (Rd a k) \<longleftrightarrow> a \<in> R \<union> D \<and> (\<forall>v. inits R E D (k v))"
| "inits R E D (Wr a v k) \<longleftrightarrow> inits R E (insert a D) k"

lemma inits_mono: "inits R E D p \<Longrightarrow> D \<subseteq> D' \<Longrightarrow> E' \<subseteq> E \<Longrightarrow> inits R E' D' p"
proof (induction p arbitrary: D D')
  case (Rd a k)
  have "inits R E' D' (k v)" for v by (rule Rd.IH [OF rangeI, of D]) (use Rd.prems in simp_all)
  with Rd.prems(1,2) show ?case by auto
next
  case (Wr a v p)
  show ?case using Wr.IH [of "insert a D" "insert a D'"] Wr.prems insert_mono [OF Wr.prems(2), of a] by simp
qed simp

lemma inits_bnd:
  "inits R E1 D p \<Longrightarrow> (\<And>x. inits R E (D \<union> E1) (f x)) \<Longrightarrow> inits R E D (bnd p f)"
proof (induction p arbitrary: D)
  case (Ret x)
  then have "D \<union> E1 = D" by auto
  with Ret show ?case by simp
next
  case (Wr a v p)
  have "inits R E (insert a D \<union> E1) (f x)" for x using Wr.prems(2) by (rule inits_mono) auto
  with Wr show ?case by simp
qed simp

lemma inits_bnd_pure:
  "inits R {} D p \<Longrightarrow> (\<And>x. inits R E D (f x)) \<Longrightarrow> inits R E D (bnd p f)"
  using inits_bnd [of R "{}" D p E f] by simp

lemma inits_bnd_load: "a \<in> R \<union> D \<Longrightarrow> (\<And>x. inits R E D (f x)) \<Longrightarrow> inits R E D (bnd (load a) f)"
  by (simp add: load_def)

lemma inits_bnd_store: "inits R E (insert a D) (f ()) \<Longrightarrow> inits R E D (bnd (store a v) f)"
  by (simp add: store_def)

lemma inits_store: "E \<subseteq> insert a D \<Longrightarrow> inits R E D (store a v)"
  by (simp add: store_def)

text \<open>A loop whose round \<open>i\<close> stores the cells \<open>G i\<close>.\<close>

lemma inits_for_loop:
  assumes "\<And>i s. b \<le> i \<Longrightarrow> i < e \<Longrightarrow> inits R (G i) (D \<union> (\<Union>j\<in>{b..<i}. G j)) (body i s)"
    and "E \<subseteq> D \<union> (\<Union>j\<in>{b..<e}. G j)"
  shows "inits R E D (for_loop b e body s)"
  using assms
proof (induction "e - b" arbitrary: b D s)
  case 0
  then show ?case by (simp add: for_loop_def)
next
  case (Suc n)
  then have lt: "b < e" by simp
  have first: "inits R (G b) D (body b s)" using Suc.prems(1) [of b s] lt by simp
  have rest: "inits R E (D \<union> G b) (for_loop (Suc b) e body s')" for s'
  proof (rule Suc.hyps(1))
    have split: "{b..<i} = insert b {Suc b..<i}" if "b < i" for i using that by auto
    show "n = e - Suc b" using Suc.hyps(2) by simp
    show "E \<subseteq> D \<union> G b \<union> (\<Union>j\<in>{Suc b..<e}. G j)" using Suc.prems(2) split [OF lt] by auto
    fix i s assume "Suc b \<le> i" "i < e"
    then show "inits R (G i) (D \<union> G b \<union> (\<Union>j\<in>{Suc b..<i}. G j)) (body i s)"
      using Suc.prems(1) [of i s] split [of i] by (simp add: Un_assoc)
  qed
  from inits_bnd [OF first rest] lt show ?case by (simp add: for_loop_def upt_conv_Cons)
qed

lemma inits_for_each:
  assumes "\<And>i. b \<le> i \<Longrightarrow> i < e \<Longrightarrow> inits R (G i) (D \<union> (\<Union>j\<in>{b..<i}. G j)) (body i)"
    and "E \<subseteq> D \<union> (\<Union>j\<in>{b..<e}. G j)"
  shows "inits R E D (for_each b e body)"
  unfolding for_each_def using assms by (rule inits_for_loop)

lemma inits_agree:
  assumes "inits R E D p" "\<And>a. a \<in> R \<union> D \<Longrightarrow> m a = m' a"
  shows "fst (run p m) = fst (run p m') \<and> (\<forall>a\<in>E. exec p m a = exec p m' a)"
  using assms unfolding exec_def
proof (induction p arbitrary: D m m')
  case (Rd b k)
  from Rd.prems have eq: "m b = m' b" and k: "inits R E D (k (m b))" by auto
  have "fst (run (k (m b)) m) = fst (run (k (m b)) m') \<and> (\<forall>a\<in>E. snd (run (k (m b)) m) a = snd (run (k (m b)) m') a)"
    by (rule Rd.IH [OF rangeI k]) (rule Rd.prems(2))
  then show ?case by (simp add: eq)
next
  case (Wr b v p)
  from Wr.prems(1) have k: "inits R E (insert b D) p" by simp
  have ag: "(m(b := v)) a = (m'(b := v)) a" if "a \<in> R \<union> insert b D" for a
    using Wr.prems(2) [of a] that by auto
  have "fst (run p (m(b := v))) = fst (run p (m'(b := v))) \<and>
      (\<forall>a\<in>E. snd (run p (m(b := v))) a = snd (run p (m'(b := v))) a)"
    by (rule Wr.IH [OF k]) (rule ag)
  then show ?case by simp
qed auto

subsection \<open>Commuting steps\<close>

text \<open>A step of a thread may be moved in front of a whole thread that does not conflict with it.\<close>

lemma step1_commute:
  assumes "safe W R p" "safe W' R' q" "W \<inter> (W' \<union> R') = {}" "W' \<inter> R = {}"
  shows "step1 q (exec p m) = (fst (step1 q m), exec p (snd (step1 q m)))"
proof (cases q)
  case (Rd a k)
  with assms(2,3) have "a \<notin> W" by auto
  then have "exec p m a = m a" using exec_frame [OF assms(1)] by blast
  with Rd show ?thesis by simp
next
  case (Wr a v k)
  with assms(2-4) have "a \<notin> W" "a \<notin> R" by auto
  with exec_upd [OF assms(1)] Wr show ?thesis by simp
qed simp

text \<open>Threads with these footprints do not conflict: no thread touches what another one writes.\<close>

definition no_conflict :: "(nat set \<times> nat set) list \<Rightarrow> bool" where
  "no_conflict fs \<longleftrightarrow> (\<forall>i < length fs. \<forall>j < length fs. i \<noteq> j \<longrightarrow>
     fst (fs ! i) \<inter> (fst (fs ! j) \<union> snd (fs ! j)) = {})"

definition safe_all :: "(nat set \<times> nat set) list \<Rightarrow> ('f, 'x) prog list \<Rightarrow> bool" where
  "safe_all fs ps \<longleftrightarrow> list_all2 (\<lambda>f p. safe (fst f) (snd f) p) fs ps"

lemma no_conflict_Cons:
  assumes "no_conflict (f # fs)"
  shows "no_conflict fs" "\<And>g. g \<in> set fs \<Longrightarrow> fst f \<inter> (fst g \<union> snd g) = {} \<and> fst g \<inter> snd f = {}"
proof -
  show "no_conflict fs"
    unfolding no_conflict_def
  proof (intro allI impI)
    fix i j assume "i < length fs" "j < length fs" "i \<noteq> j"
    with assms show "fst (fs ! i) \<inter> (fst (fs ! j) \<union> snd (fs ! j)) = {}"
      unfolding no_conflict_def by (elim allE [where x = "Suc i"] impE allE [where x = "Suc j"]) auto
  qed
  fix g assume "g \<in> set fs"
  then obtain j where j: "j < length fs" "fs ! j = g" by (metis in_set_conv_nth)
  with assms have "fst f \<inter> (fst g \<union> snd g) = {}"
    unfolding no_conflict_def by (elim allE [where x = 0] impE allE [where x = "Suc j"]) auto
  moreover from j assms have "fst g \<inter> (fst f \<union> snd f) = {}"
    unfolding no_conflict_def by (elim allE [where x = "Suc j"] impE allE [where x = 0]) auto
  ultimately show "fst f \<inter> (fst g \<union> snd g) = {} \<and> fst g \<inter> snd f = {}" by blast
qed

lemma run_all_step:
  assumes "no_conflict fs" "safe_all fs ps" "i < length ps"
  shows "run_all (ps[i := fst (step1 (ps ! i) m)]) (snd (step1 (ps ! i) m)) = run_all ps m"
  using assms
proof (induction ps arbitrary: fs i m)
  case (Cons p ps)
  then obtain f fs' where fs: "fs = f # fs'" "safe (fst f) (snd f) p" "safe_all fs' ps"
    by (cases fs) (auto simp: safe_all_def)
  note ap = no_conflict_Cons [OF Cons.prems(1) [unfolded fs(1)]]
  show ?case
  proof (cases i)
    case 0
    then show ?thesis by (simp add: run_all_def step1_exec)
  next
    case (Suc j)
    with Cons.prems have j: "j < length ps" by simp
    then have lj: "j < length fs'" "safe (fst (fs' ! j)) (snd (fs' ! j)) (ps ! j)"
      using fs(3) by (auto simp: safe_all_def list_all2_conv_all_nth)
    have "step1 (ps ! j) (exec p m) =
        (fst (step1 (ps ! j) m), exec p (snd (step1 (ps ! j) m)))"
      using step1_commute [OF fs(2) lj(2)] ap(2) [of "fs' ! j"] lj(1) by simp
    with Cons.IH [OF ap(1) fs(3) j, of "exec p m"] Suc show ?thesis
      by (simp add: run_all_def)
  qed
qed simp

theorem run_sched_run_all:
  assumes "no_conflict fs" "safe_all fs ps"
  shows "run_sched is ps m = run_all ps m"
  using assms(2)
proof (induction "is" ps m rule: run_sched.induct)
  case (2 i "is" ps m)
  show ?case
  proof (cases "i < length ps")
    case True
    obtain p m' where st: "step1 (ps ! i) m = (p, m')" by (metis surj_pair)
    have "safe_all fs (ps[i := p])"
    proof -
      from 2(3) True have "safe (fst (fs ! i)) (snd (fs ! i)) (ps ! i)"
        by (auto simp: safe_all_def list_all2_conv_all_nth)
      from step1_safe [OF this, of m] st have "safe (fst (fs ! i)) (snd (fs ! i)) p" by simp
      moreover have "i < length fs" using 2(3) True by (auto simp: safe_all_def list_all2_lengthD)
      ultimately have "safe_all (fs[i := fs ! i]) (ps[i := p])"
        using 2(3) unfolding safe_all_def by (intro list_all2_update_cong)
      then show ?thesis by simp
    qed
    from 2(1) [OF True st [symmetric] this] run_all_step [OF assms(1) 2(3) True, of m] st True
    show ?thesis by simp
  next
    case False
    with 2 show ?thesis by simp
  qed
qed simp

subsection \<open>Threads of \<open>thread.h\<close>\<close>

datatype tstatus = T_FREE | T_LIVE | T_DEAD

text \<open>A slot of \<open>threads_\<close>.  The slots from \<open>n_\<close> on are free, so the table is the list of the first
  \<open>n_\<close> slots.\<close>

record 'e thread =
  tid :: nat
  status :: tstatus
  entry :: 'e

definition MAX_THREADS :: nat where "MAX_THREADS = 4096"

text \<open>\<open>spawn\<close>: \<open>None\<close> when its assertion fails.\<close>

definition spawn :: "'e \<Rightarrow> 'e thread list \<Rightarrow> 'e thread list option" where
  "spawn fn ts =
     (if length ts < MAX_THREADS
      then Some (ts @ [\<lparr>tid = length ts + 1, status = T_LIVE, entry = fn\<rparr>]) else None)"

primrec spawn_n :: "nat \<Rightarrow> 'e \<Rightarrow> 'e thread list \<Rightarrow> 'e thread list option" where
  "spawn_n 0 fn ts = Some ts"
| "spawn_n (Suc k) fn ts = (case spawn fn ts of None \<Rightarrow> None | Some ts' \<Rightarrow> spawn_n k fn ts')"

definition join_thread :: "'e thread \<Rightarrow> 'e thread" where
  "join_thread t = (if status t = T_LIVE then t\<lparr>status := T_DEAD\<rparr> else t)"

definition join :: "'e thread list \<Rightarrow> 'e thread list" where
  "join ts = map join_thread ts"

text \<open>\<open>wrapper_\<close>: a thread calls its entry with its number; these threads are running.\<close>

definition wrapper :: "(nat \<Rightarrow> 'p) thread \<Rightarrow> 'p" where
  "wrapper t = entry t (tid t)"

definition live :: "(nat \<Rightarrow> 'p) thread list \<Rightarrow> 'p list" where
  "live ts = map wrapper (filter (\<lambda>t. status t = T_LIVE) ts)"

definition new_threads :: "nat \<Rightarrow> nat \<Rightarrow> 'e \<Rightarrow> 'e thread list" where
  "new_threads b k fn = map (\<lambda>i. \<lparr>tid = b + i + 1, status = T_LIVE, entry = fn\<rparr>) [0..<k]"

definition all_dead :: "'e thread list \<Rightarrow> bool" where
  "all_dead ts \<longleftrightarrow> list_all (\<lambda>t. status t = T_DEAD) ts"

lemma new_threads_Suc:
  "new_threads b (Suc k) fn =
   \<lparr>tid = b + 1, status = T_LIVE, entry = fn\<rparr> # new_threads (b + 1) k fn"
  unfolding new_threads_def
  by (simp add: upt_conv_Cons map_Suc_upt [symmetric] del: upt_Suc map_Suc_upt)

lemma spawn_n:
  "spawn_n k fn ts =
   (if k = 0 \<or> length ts + k \<le> MAX_THREADS then Some (ts @ new_threads (length ts) k fn) else None)"
proof (induction k arbitrary: ts)
  case 0
  then show ?case by (simp add: new_threads_def)
next
  case (Suc k)
  show ?case
  proof (cases "length ts < MAX_THREADS")
    case True
    then show ?thesis by (auto simp: spawn_def Suc new_threads_Suc)
  next
    case False
    then show ?thesis by (simp add: spawn_def)
  qed
qed

lemma join_dead: "list_all (\<lambda>t. status t \<noteq> T_FREE) ts \<Longrightarrow> all_dead (join ts)"
  by (auto simp: all_dead_def join_def join_thread_def list_all_iff) (metis tstatus.exhaust)

lemma join_idle: "all_dead ts \<Longrightarrow> join ts = ts"
  unfolding all_dead_def join_def join_thread_def
  by (rule map_idI) (auto simp: list_all_iff)

lemma live_dead: "all_dead ts \<Longrightarrow> live (ts @ us) = live us"
  by (simp add: live_def all_dead_def list_all_iff filter_empty_conv)

lemma live_new: "live (new_threads b k fn) = map (\<lambda>i. fn (b + i + 1)) [0..<k]"
  by (simp add: live_def new_threads_def filter_map comp_def wrapper_def)

lemma length_new_threads [simp]: "length (new_threads b k fn) = k"
  by (simp add: new_threads_def)

lemma length_join [simp]: "length (join ts) = length ts"
  by (simp add: join_def)

end
