(* ===== verification/GptPar.thy ===== *)
theory GptPar
  imports Threads CText
begin

text \<open>
  The data-parallel loop of \<open>gpt.c\<close>: the number of workers, the slices of a range, the worker
  threads, and \<open>parallel_for\<close> on the thread table and the shared memory.  Main result: a loop whose
  iterations do not conflict is computed by any number of workers under any schedule as by one.
\<close>

subsection \<open>Workers and slices\<close>

definition MAX_WORKERS :: nat where "MAX_WORKERS = 4"

text \<open>\<open>parse_worker_count\<close> on the value of \<open>GPT_WORKERS\<close>.\<close>

definition parse_worker_count :: "string option \<Rightarrow> nat" where
  "parse_worker_count env =
     (case env of
        None \<Rightarrow> MAX_WORKERS
      | Some s \<Rightarrow>
          if s = [] then MAX_WORKERS
          else (case strtol s of (value, rest) \<Rightarrow>
            if rest \<noteq> [] \<or> value < 1 \<or> value > int MAX_WORKERS then MAX_WORKERS else nat value))"

record range_slice =
  slice_begin :: nat
  slice_end :: nat

text \<open>How a call ends.  \<open>Undef\<close>: an \<open>int\<close> overflows, or an address is computed outside its object.\<close>

datatype 'a outcome = Done 'a | Assert_failed | Undef

definition INT_MAX :: nat where "INT_MAX = 2 ^ 31 - 1"

text \<open>The first part of \<open>parallel_for\<close>: how many threads run the loop, and their slices.\<close>

definition crew :: "nat \<Rightarrow> nat \<Rightarrow> nat" where
  "crew worker_count tot =
     (let n = worker_count;
          n = (if n < 1 then 1 else n);
          n = (if n > MAX_WORKERS then MAX_WORKERS else n) in
      if n > tot then tot else n)"

definition slice_span :: "nat \<Rightarrow> nat \<Rightarrow> nat" where
  "slice_span tot n = (tot + n - 1) div n"

definition mk_slice :: "nat \<Rightarrow> nat \<Rightarrow> nat \<Rightarrow> nat \<Rightarrow> range_slice" where
  "mk_slice b e span i =
     (let sb = b + i * span; se = sb + span in
      \<lparr>slice_begin = sb, slice_end = (if se > e then e else se)\<rparr>)"

definition mk_slices :: "nat \<Rightarrow> nat \<Rightarrow> nat \<Rightarrow> range_slice list" where
  "mk_slices b e n = map (mk_slice b e (slice_span (e - b) n)) [0..<n]"

text \<open>The sums and products of these lines fit in an \<open>int\<close>: the largest are the dividend of the span
  and the end of the last slice.\<close>

definition slices_fit :: "nat \<Rightarrow> nat \<Rightarrow> nat \<Rightarrow> bool" where
  "slices_fit b e n \<longleftrightarrow>
     (e - b) + n - 1 \<le> INT_MAX \<and> b + n * slice_span (e - b) n \<le> INT_MAX"

type_synonym 'f range_fn = "nat \<Rightarrow> nat \<Rightarrow> ('f, unit) prog"

definition range_worker ::
  "nat \<Rightarrow> range_slice list \<Rightarrow> nat \<Rightarrow> 'f range_fn \<Rightarrow> nat \<Rightarrow> ('f, unit) prog" where
  "range_worker worker_count slices base fn id' =
     (let index = int id' - int base - 1 in
      if index \<ge> 0 \<and> index < int worker_count
      then (let s = slices ! nat index in fn (slice_begin s) (slice_end s))
      else Ret ())"

text \<open>The threads of the process and the memory.\<close>

type_synonym 'f machine = "(nat \<Rightarrow> ('f, unit) prog) thread list \<times> 'f mem"

definition parallel_for ::
  "nat \<Rightarrow> nat \<Rightarrow> nat \<Rightarrow> 'f range_fn \<Rightarrow> nat list \<Rightarrow> 'f machine \<Rightarrow> 'f machine outcome" where
  "parallel_for worker_count b e fn sched mc =
     (case mc of (ts, m) \<Rightarrow>
      if e \<le> b then Done (ts, m)
      else
        (let n = crew worker_count (e - b);
             slices = mk_slices b e n;
             main_slice = slices ! (n - 1) in
         if \<not> slices_fit b e n then Undef
         else
           (case spawn_n (n - 1) (range_worker worker_count slices (length ts) fn) ts of
              None \<Rightarrow> Assert_failed
            | Some ts' \<Rightarrow>
                Done (join ts',
                      run_sched sched
                        (live ts' @ [fn (slice_begin main_slice) (slice_end main_slice)]) m))))"

subsection \<open>The slices partition the range\<close>

definition slice_list :: "range_slice \<Rightarrow> nat list" where
  "slice_list s = [slice_begin s..<slice_end s]"

lemma slices_prefix:
  "concat (map (\<lambda>i. slice_list (mk_slice b e s i)) [0..<k]) = [b..<min (b + k * s) e]"
proof (induction k)
  case (Suc k)
  have "[b..<min (b + k * s) e] @ [b + k * s..<min (b + k * s + s) e] = [b..<min (b + k * s + s) e]"
  proof (cases "b + k * s \<le> e")
    case True
    then show ?thesis
      using upt_add_eq_append [of b "b + k * s" "min (b + k * s + s) e - (b + k * s)"] by simp
  qed simp
  moreover have "slice_list (mk_slice b e s k) = [b + k * s..<min (b + k * s + s) e]"
    by (simp add: slice_list_def mk_slice_def Let_def min_def)
  ultimately show ?case using Suc by (simp add: algebra_simps)
qed simp

lemma span_covers: "0 < n \<Longrightarrow> tot \<le> n * slice_span tot n"
proof -
  assume n: "0 < n"
  have "n * ((tot + n - 1) div n) + (tot + n - 1) mod n = tot + n - 1" by simp
  moreover have "(tot + n - 1) mod n < n" using n by simp
  ultimately show ?thesis unfolding slice_span_def by linarith
qed

lemma slices_partition:
  assumes "0 < n"
  shows "concat (map slice_list (mk_slices b e n)) = [b..<e]"
proof (cases "b \<le> e")
  case True
  then have "min (b + n * slice_span (e - b) n) e = e"
    using span_covers [OF assms, of "e - b"] by simp
  with slices_prefix [of b e "slice_span (e - b) n" n] show ?thesis
    by (simp add: mk_slices_def comp_def)
next
  case False
  with slices_prefix [of b e "slice_span (e - b) n" n] show ?thesis
    by (simp add: mk_slices_def comp_def)
qed

lemma length_mk_slices [simp]: "length (mk_slices b e n) = n"
  by (simp add: mk_slices_def)

lemma slices_fit0: "0 < c \<Longrightarrow> slices_fit 0 n c \<longleftrightarrow> n + c - 1 \<le> INT_MAX"
proof -
  assume "0 < c"
  have "c * slice_span n c \<le> n + c - 1" unfolding slice_span_def by (rule times_div_less_eq_dividend)
  then show ?thesis by (auto simp: slices_fit_def)
qed

lemma crew_range:
  assumes "0 < tot"
  shows "0 < crew wc tot" "crew wc tot \<le> MAX_WORKERS" "crew wc tot \<le> tot"
    "crew wc tot \<le> max 1 wc"
  using assms by (auto simp: crew_def Let_def MAX_WORKERS_def)

subsection \<open>Loops whose iterations do not conflict\<close>

text \<open>The iterations below \<open>n\<close> store into areas \<open>W\<close> of their own and load from there and from \<open>R\<close>,
  into which none of them stores.\<close>

definition row_wise :: "nat \<Rightarrow> (nat \<Rightarrow> ('f, unit) prog) \<Rightarrow> (nat \<Rightarrow> nat set) \<Rightarrow> nat set \<Rightarrow> bool" where
  "row_wise n body W R \<longleftrightarrow>
     (\<forall>r < n. safe (W r) R (body r) \<and> W r \<inter> R = {}) \<and>
     (\<forall>r < n. \<forall>r' < n. r \<noteq> r' \<longrightarrow> W r \<inter> W r' = {})"

lemma row_wiseI:
  assumes "\<And>r. r < n \<Longrightarrow> safe (W r) R (body r)" "\<And>r. r < n \<Longrightarrow> W r \<inter> R = {}"
    "\<And>r r'. r < n \<Longrightarrow> r' < n \<Longrightarrow> r \<noteq> r' \<Longrightarrow> W r \<inter> W r' = {}"
  shows "row_wise n body W R"
  using assms unfolding row_wise_def by blast

lemma row_wise_safe:
  "row_wise n body W R \<Longrightarrow> safe (\<Union>r<n. W r) R (for_each 0 n body)"
  unfolding row_wise_def by (intro safe_rules) (rule safe_mono, auto)

lemma exec_for_each_append:
  "exec (for_list (xs @ ys) body ()) m = exec (for_list ys body ()) (exec (for_list xs body ()) m)"
  unfolding exec_def by (induction xs arbitrary: m) (simp_all add: run_bnd split: prod.split)

lemma run_all_loops:
  "run_all (map (\<lambda>xs. for_list xs body ()) xss) m = exec (for_list (concat xss) body ()) m"
  by (induction xss arbitrary: m)
    (simp_all add: run_all_def exec_for_each_append, simp add: exec_def)

lemma concat_nth_disjoint:
  "distinct (concat xss) \<Longrightarrow> i < length xss \<Longrightarrow> j < length xss \<Longrightarrow> i \<noteq> j \<Longrightarrow>
   set (xss ! i) \<inter> set (xss ! j) = {}"
proof (induction xss arbitrary: i j)
  case (Cons xs xss)
  have *: "set xs \<inter> set (xss ! k) = {}" if "k < length xss" for k
    using Cons.prems(1) nth_mem [OF that] by fastforce
  from Cons * show ?case by (cases i; cases j) (auto dest: *)
qed simp

lemma loops_commute:
  assumes "row_wise n body W R" "distinct (concat xss)" "set (concat xss) \<subseteq> {..<n}"
  shows "run_sched sched (map (\<lambda>xs. for_list xs (\<lambda>i _. body i) ()) xss) m =
         exec (for_list (concat xss) (\<lambda>i _. body i) ()) m"
proof -
  let ?fs = "map (\<lambda>xs. (\<Union>r\<in>set xs. W r, R)) xss"
  have sub: "set (xss ! i) \<subseteq> {..<n}" if "i < length xss" for i
    using assms(3) nth_mem [OF that] by auto
  have "safe_all ?fs (map (\<lambda>xs. for_list xs (\<lambda>i _. body i) ()) xss)"
    unfolding safe_all_def list_all2_map1 list_all2_map2
  proof (rule list_all2I)
    show "\<forall>x\<in>set (zip xss xss). case x of (xs, ys) \<Rightarrow>
        safe (fst (\<Union>r\<in>set xs. W r, R)) (snd (\<Union>r\<in>set xs. W r, R)) (for_list ys (\<lambda>i _. body i) ())"
    proof (clarsimp simp: zip_same)
      fix xs assume xs: "xs \<in> set xss"
      show "safe (\<Union>r\<in>set xs. W r) R (for_list xs (\<lambda>i _. body i) ())"
      proof (rule safe_for_list)
        fix i and s :: unit assume i: "i \<in> set xs"
        with xs assms(3) have "i < n" by auto
        with assms(1) have "safe (W i) R (body i)" unfolding row_wise_def by blast
        then show "safe (\<Union>r\<in>set xs. W r) R (body i)" by (rule safe_mono) (use i in auto)
      qed
    qed
  qed simp
  moreover have "no_conflict ?fs"
    unfolding no_conflict_def
  proof (intro allI impI)
    fix i j assume ij: "i < length ?fs" "j < length ?fs" "i \<noteq> j"
    have "W r \<inter> W r' = {}" "W r \<inter> R = {}" if "r \<in> set (xss ! i)" "r' \<in> set (xss ! j)" for r r'
      using concat_nth_disjoint [OF assms(2), of i j] that ij sub [of i] sub [of j] assms(1)
      unfolding row_wise_def by (auto 0 3)
    moreover have "W r \<inter> R = {}" if "r \<in> set (xss ! i)" for r
      using that ij(1) sub [of i] assms(1) unfolding row_wise_def by auto
    ultimately show "fst (?fs ! i) \<inter> (fst (?fs ! j) \<union> snd (?fs ! j)) = {}"
      using ij by (simp add: Int_Un_distrib) blast
  qed
  ultimately show ?thesis using run_sched_run_all run_all_loops by metis
qed

subsection \<open>\<open>parallel_for\<close>\<close>

definition done_threads :: "nat \<Rightarrow> nat \<Rightarrow> 'e \<Rightarrow> 'e thread list" where
  "done_threads b k fn = join (new_threads b k fn)"

lemma all_dead_done: "all_dead ts \<Longrightarrow> all_dead (ts @ done_threads b k fn)"
  unfolding done_threads_def
  using join_dead [of "new_threads b k fn"] by (auto simp: all_dead_def new_threads_def list_all_iff)

lemma join_append: "join (xs @ ys) = join xs @ join ys"
  by (simp add: join_def)

lemma worker_slice:
  assumes "i + 1 < n" "n \<le> max 1 wc"
  shows "range_worker wc slices b fn (b + i + 1) = fn (slice_begin (slices ! i)) (slice_end (slices ! i))"
proof -
  from assms have "int (b + i + 1) - int b - 1 = int i" "i < wc" by auto
  then show ?thesis by (simp only: range_worker_def Let_def) simp
qed

lemma map_nth_upt: "map (\<lambda>i. f (xs ! i)) [0..<length xs] = map f xs"
  by (metis map_map comp_def map_nth map_cong)

text \<open>How many threads a call adds to the table.\<close>

definition spawned :: "nat \<Rightarrow> nat \<Rightarrow> nat" where
  "spawned wc n = crew wc n - 1"

lemma slices_fit_any: "0 < n \<Longrightarrow> n + 3 \<le> INT_MAX \<Longrightarrow> slices_fit 0 n (crew wc n)"
  using crew_range(1,2) [of n wc] by (auto simp: slices_fit0 MAX_WORKERS_def)

lemma spawned_le: "spawned wc n \<le> 3"
  by (auto simp: spawned_def crew_def Let_def MAX_WORKERS_def)

lemma parallel_for_rows:
  assumes rw: "row_wise n body W R" and dead: "all_dead ts"
    and room: "length ts + spawned wc n \<le> MAX_THREADS"
    and ints: "0 < n \<Longrightarrow> slices_fit 0 n (crew wc n)"
  obtains ts' where
    "parallel_for wc 0 n (\<lambda>b e. for_each b e body) sched (ts, m) =
       Done (ts @ ts', exec (for_each 0 n body) m)"
    "length ts' = spawned wc n" "all_dead (ts @ ts')"
proof (cases "n = 0")
  case True
  have "exec (for_each 0 n body) m = m" by (simp add: True for_each_def for_loop_def exec_def)
  with True that [of "[]"] dead show ?thesis
    by (simp add: parallel_for_def spawned_def crew_def Let_def)
next
  case False
  define c where "c = crew wc n"
  define slices where "slices = mk_slices 0 n c"
  define worker where "worker = range_worker wc slices (length ts) (\<lambda>b e. for_each b e body)"
  have c: "0 < c" "c \<le> max 1 wc" using crew_range [of n wc] False by (auto simp: c_def)
  have len: "length slices = c" by (simp add: slices_def)
  have sp: "spawn_n (c - 1) worker ts = Some (ts @ new_threads (length ts) (c - 1) worker)"
    using room by (simp add: spawn_n spawned_def c_def)
  let ?loop = "\<lambda>s. for_each (slice_begin s) (slice_end s) body"
  have lv: "live (ts @ new_threads (length ts) (c - 1) worker) = map ?loop (butlast slices)"
  proof -
    have "live (ts @ new_threads (length ts) (c - 1) worker) =
        map (\<lambda>i. worker (length ts + i + 1)) [0..<c - 1]"
      by (simp add: live_dead [OF dead] live_new)
    also have "\<dots> = map (\<lambda>i. ?loop (butlast slices ! i)) [0..<c - 1]"
    proof (rule map_cong [OF refl])
      fix i assume "i \<in> set [0..<c - 1]"
      then have "i + 1 < c" by auto
      from worker_slice [OF this c(2), of slices "length ts"] this len show
        "worker (length ts + i + 1) = ?loop (butlast slices ! i)"
        by (simp add: worker_def nth_butlast)
    qed
    finally show ?thesis using map_nth_upt [of ?loop "butlast slices"] len by simp
  qed
  have ps: "map ?loop (butlast slices) @ [?loop (slices ! (c - 1))] = map ?loop slices"
  proof -
    have "slices \<noteq> []" using len c(1) by auto
    then have "slices ! (c - 1) = last slices" by (simp add: last_conv_nth len)
    moreover have "map ?loop (butlast slices) @ [?loop (last slices)] = map ?loop (butlast slices @ [last slices])"
      by simp
    ultimately show ?thesis by (simp only: append_butlast_last_id [OF \<open>slices \<noteq> []\<close>])
  qed
  have loops: "map ?loop slices = map (\<lambda>xs. for_list xs (\<lambda>i _. body i) ()) (map slice_list slices)"
    by (simp add: for_each_def for_loop_def slice_list_def comp_def)
  have part: "concat (map slice_list slices) = [0..<n]"
    using slices_partition [OF c(1), of 0 n] by (simp add: slices_def)
  have "run_sched sched (map ?loop slices) m = exec (for_each 0 n body) m"
    unfolding loops using loops_commute [OF rw, of "map slice_list slices"] part
    by (simp add: for_each_def for_loop_def lessThan_atLeast0)
  moreover have "parallel_for wc 0 n (\<lambda>b e. for_each b e body) sched (ts, m) =
      (case spawn_n (c - 1) worker ts of None \<Rightarrow> Assert_failed
       | Some ts' \<Rightarrow> Done (join ts', run_sched sched (live ts' @ [?loop (slices ! (c - 1))]) m))"
    using False ints unfolding parallel_for_def worker_def slices_def c_def Let_def
    by (simp split: option.split)
  moreover have "join (ts @ new_threads (length ts) (c - 1) worker) =
      ts @ done_threads (length ts) (c - 1) worker"
    by (simp add: join_append done_threads_def join_idle [OF dead])
  ultimately have "parallel_for wc 0 n (\<lambda>b e. for_each b e body) sched (ts, m) =
      Done (ts @ done_threads (length ts) (c - 1) worker, exec (for_each 0 n body) m)"
    by (simp only: sp option.case lv ps)
  moreover have "length (done_threads (length ts) (c - 1) worker) = spawned wc n"
    by (simp add: done_threads_def spawned_def c_def)
  ultimately show ?thesis using that all_dead_done [OF dead] by blast
qed

end
