(* ===== verification/GptLayers.thy ===== *)
theory GptLayers
  imports GptPar
begin

text \<open>
  The layers of \<open>gpt.c\<close>: one definition per loop body, range function and forward function, with
  the structures they pass.  Pointers to floats are addresses; the arithmetic of \<open>float\<close> and the
  functions of \<open>libm\<close> are the operations of a record, so every result holds for any of them.
  The products of \<open>int\<close>s that a call computes are listed beside it: when one does not fit, the call
  is undefined.  The footprint of each loop body shows that its iterations do not conflict when the tensors are
  apart.
\<close>

subsection \<open>Floating point\<close>

text \<open>\<open>flit m e\<close> is the float nearest to \<open>m * 10 ^ e\<close>; it also converts an \<open>int\<close>, with \<open>e = 0\<close>.
  \<open>two_over_pi\<close> is \<open>2.0f / M_PI\<close>, a double, as an argument of \<open>sqrtf\<close>.\<close>

record 'f float_ops =
  fadd :: "'f \<Rightarrow> 'f \<Rightarrow> 'f"
  fsub :: "'f \<Rightarrow> 'f \<Rightarrow> 'f"
  fmul :: "'f \<Rightarrow> 'f \<Rightarrow> 'f"
  fdiv :: "'f \<Rightarrow> 'f \<Rightarrow> 'f"
  fgt :: "'f \<Rightarrow> 'f \<Rightarrow> bool"
  feq :: "'f \<Rightarrow> 'f \<Rightarrow> bool"
  flit :: "int \<Rightarrow> int \<Rightarrow> 'f"
  fsqrt :: "'f \<Rightarrow> 'f"
  fexp :: "'f \<Rightarrow> 'f"
  ftanh :: "'f \<Rightarrow> 'f"
  two_over_pi :: 'f

definition fzero :: "'f float_ops \<Rightarrow> 'f" where "fzero F = flit F 0 0"
definition fone :: "'f float_ops \<Rightarrow> 'f" where "fone F = flit F 1 0"
definition fint :: "'f float_ops \<Rightarrow> nat \<Rightarrow> 'f" where "fint F n = flit F (int n) 0"

subsection \<open>Areas of memory\<close>

definition region :: "nat \<Rightarrow> nat \<Rightarrow> nat set" where
  "region p n = {p..<p + n}"

text \<open>Row \<open>k\<close> of a table at \<open>p\<close> whose rows have \<open>w\<close> cells.\<close>

definition block :: "nat \<Rightarrow> nat \<Rightarrow> nat \<Rightarrow> nat set" where
  "block p w k = region (p + k * w) w"

primrec disjoint_sets :: "nat set list \<Rightarrow> bool" where
  "disjoint_sets [] \<longleftrightarrow> True"
| "disjoint_sets (A # As) \<longleftrightarrow> list_all (\<lambda>B. A \<inter> B = {}) As \<and> disjoint_sets As"

lemma cell_lt: "k < n \<Longrightarrow> i < w \<Longrightarrow> k * w + i < n * (w :: nat)"
proof -
  assume "k < n" "i < w"
  moreover from this have "(k + 1) * w \<le> n * w" by (intro mult_le_mono1) simp
  ultimately show ?thesis by simp
qed

lemma region_I: "i < n \<Longrightarrow> p + i \<in> region p n"
  by (simp add: region_def)

lemma region_table: "k < n \<Longrightarrow> i < w \<Longrightarrow> p + k * w + i \<in> region p (n * w)"
  using cell_lt by (auto simp: region_def)

lemma block_I: "i < w \<Longrightarrow> p + k * w + i \<in> block p w k"
  by (simp add: block_def region_def)

lemma block_region: "k < n \<Longrightarrow> block p w k \<subseteq> region p (n * w)"
proof -
  assume "k < n"
  then have "(k + 1) * w \<le> n * w" by (intro mult_le_mono1) simp
  then show ?thesis by (auto simp: block_def region_def)
qed

lemma block_sub: "k * w + w \<le> n \<Longrightarrow> block p w k \<subseteq> region p n"
  by (auto simp: block_def region_def)

lemma block_disjoint: "k \<noteq> k' \<Longrightarrow> block p w k \<inter> block p w k' = {}"
proof -
  have *: "block p w a \<inter> block p w b = {}" if "a < b" for a b
  proof -
    from that have "(a + 1) * w \<le> b * w" by (intro mult_le_mono1) simp
    then show ?thesis by (auto simp: block_def region_def)
  qed
  assume "k \<noteq> k'"
  then show ?thesis using * [of k k'] * [of k' k] by (cases "k < k'") auto
qed

lemma row_col: "row div T * T * C + row mod T * C = row * (C :: nat)"
  by (metis div_mult_mod_eq distrib_right)

lemma disjoint_mono: "A \<inter> B = {} \<Longrightarrow> A' \<subseteq> A \<Longrightarrow> B' \<subseteq> B \<Longrightarrow> A' \<inter> B' = {}"
  by blast

subsection \<open>Products of \<open>int\<close>s\<close>

text \<open>Every product on the way fits when factors that are not negative are multiplied from the left.\<close>

fun fits_from :: "nat \<Rightarrow> nat list \<Rightarrow> bool" where
  "fits_from p [] \<longleftrightarrow> p \<le> INT_MAX"
| "fits_from p (x # xs) \<longleftrightarrow> p \<le> INT_MAX \<and> fits_from (p * x) xs"

definition mul_fits :: "nat list \<Rightarrow> bool" where
  "mul_fits xs \<longleftrightarrow> fits_from 1 xs"

text \<open>A call in which these products are computed.\<close>

definition int_checked :: "nat list list \<Rightarrow> 'm outcome \<Rightarrow> 'm outcome" where
  "int_checked ps r = (if list_all mul_fits ps then r else Undef)"

lemma int_checked_fits: "list_all mul_fits ps \<Longrightarrow> int_checked ps r = r"
  by (simp add: int_checked_def)

lemma fits_from_mono:
  "fits_from p xs \<Longrightarrow> q \<le> p \<Longrightarrow> list_all2 (\<le>) ys xs \<Longrightarrow> fits_from q ys"
proof (induction p xs arbitrary: q ys rule: fits_from.induct)
  case (2 p x xs)
  then obtain y ys' where "ys = y # ys'" "y \<le> x" "list_all2 (\<le>) ys' xs"
    by (auto simp: list_all2_Cons2)
  with 2 show ?case by (auto intro: mult_le_mono)
qed simp

lemma mul_fits_mono: "mul_fits xs \<Longrightarrow> list_all2 (\<le>) ys xs \<Longrightarrow> mul_fits ys"
  unfolding mul_fits_def by (rule fits_from_mono [OF _ order_refl])

lemma mul_fits_merge: "mul_fits (x # y # zs) \<Longrightarrow> mul_fits (x * y # zs)"
  by (simp add: mul_fits_def)

lemma mul_fits_init: "mul_fits (xs @ ys) \<Longrightarrow> mul_fits xs"
proof -
  have "fits_from p (xs @ ys) \<Longrightarrow> fits_from p xs" for p
    by (induction xs arbitrary: p) (cases ys, auto)
  then show "mul_fits (xs @ ys) \<Longrightarrow> mul_fits xs" by (simp add: mul_fits_def)
qed

text \<open>The indices of a row \<open>b * T + t\<close> of a table with rows of \<open>w\<close> cells.\<close>

lemma row_products:
  assumes "mul_fits [B, T, w]" "row < B * T"
  shows "mul_fits [row div T, T, w]" "mul_fits [row mod T, w]" "mul_fits [row div T, T]" "mul_fits [row, w]"
proof -
  have T: "0 < T" using assms(2) by (cases T) auto
  have b: "row div T \<le> B" using assms(2) by (simp add: less_mult_imp_div_less less_imp_le)
  have t: "row mod T \<le> B * T" using le_trans [OF mod_less_eq_dividend less_imp_le [OF assms(2)]] .
  show "mul_fits [row div T, T, w]" by (rule mul_fits_mono [OF assms(1)]) (simp add: b)
  then show "mul_fits [row div T, T]" using mul_fits_init [of "[row div T, T]" "[w]"] by simp
  have m: "mul_fits [B * T, w]" by (rule mul_fits_merge [OF assms(1)])
  show "mul_fits [row mod T, w]" by (rule mul_fits_mono [OF m]) (simp add: t)
  show "mul_fits [row, w]" by (rule mul_fits_mono [OF m]) (use assms(2) in simp)
qed

subsection \<open>Encoder\<close>

record encoder_arg =
  en_out :: nat
  en_inp :: "nat list"
  en_wte :: nat
  en_wpe :: nat
  en_T :: nat
  en_C :: nat

definition encoder_row :: "'f float_ops \<Rightarrow> encoder_arg \<Rightarrow> nat \<Rightarrow> ('f, unit) prog" where
  "encoder_row F a row =
     (let b = row div en_T a; t = row mod en_T a;
          out_bt = en_out a + b * en_T a * en_C a + t * en_C a;
          ix = en_inp a ! (b * en_T a + t);
          wte_ix = en_wte a + ix * en_C a;
          wpe_t = en_wpe a + t * en_C a in
      for_each 0 (en_C a) (\<lambda>i.
        bnd (load (wte_ix + i)) (\<lambda>x. bnd (load (wpe_t + i)) (\<lambda>y.
          store (out_bt + i) (fadd F x y)))))"

definition encoder_range :: "'f float_ops \<Rightarrow> encoder_arg \<Rightarrow> 'f range_fn" where
  "encoder_range F a b e = for_each b e (encoder_row F a)"

text \<open>The products that the body computes for one row.\<close>

definition encoder_products :: "encoder_arg \<Rightarrow> nat \<Rightarrow> nat list list" where
  "encoder_products a row =
     (let b = row div en_T a; t = row mod en_T a in
      [[b, en_T a, en_C a], [t, en_C a], [b, en_T a], [en_inp a ! (b * en_T a + t), en_C a]])"

definition encoder_forward where
  "encoder_forward F wc sched out inp wte wpe B T C mc =
     (let arg = \<lparr>en_out = out, en_inp = inp, en_wte = wte, en_wpe = wpe, en_T = T, en_C = C\<rparr> in
      int_checked ([B, T] # concat (map (encoder_products arg) [0..<B * T]))
        (parallel_for wc 0 (B * T) (encoder_range F arg) sched mc))"

lemma encoder_ints:
  assumes "mul_fits [B, en_T a, en_C a]" "mul_fits [V, en_C a]" "\<And>j. j < B * en_T a \<Longrightarrow> en_inp a ! j < V"
  shows "list_all mul_fits ([B, en_T a] # concat (map (encoder_products a) [0..<B * en_T a]))"
proof -
  have "mul_fits [en_inp a ! row, en_C a]" if "row < B * en_T a" for row
    by (rule mul_fits_mono [OF assms(2)]) (use assms(3) [OF that] in simp)
  moreover have "mul_fits [B, en_T a]" using mul_fits_init [of "[B, en_T a]"] assms(1) by simp
  ultimately show ?thesis
    using row_products [OF assms(1)] by (auto simp: list_all_iff encoder_products_def Let_def)
qed

lemma encoder_rows:
  assumes "\<And>j. j < B * en_T a \<Longrightarrow> en_inp a ! j < V"
    and "disjoint_sets [region (en_out a) (B * en_T a * en_C a),
      region (en_wte a) (V * en_C a) \<union> region (en_wpe a) (en_T a * en_C a)]"
  shows "row_wise (B * en_T a) (encoder_row F a) (block (en_out a) (en_C a))
    (region (en_wte a) (V * en_C a) \<union> region (en_wpe a) (en_T a * en_C a))"
proof (rule row_wiseI)
  fix row assume row: "row < B * en_T a"
  then have T: "0 < en_T a" by (cases "en_T a") auto
  have ix: "row div en_T a * en_T a + row mod en_T a = row" by simp
  have o: "en_out a + row div en_T a * en_T a * en_C a + row mod en_T a * en_C a =
      en_out a + row * en_C a"
    using row_col [of row "en_T a" "en_C a"] by (simp add: add.assoc)
  show "safe (block (en_out a) (en_C a) row)
     (region (en_wte a) (V * en_C a) \<union> region (en_wpe a) (en_T a * en_C a)) (encoder_row F a row)"
    unfolding encoder_row_def Let_def ix o
    by (intro safe_rules) (use row T assms(1) in \<open>auto intro: block_I region_table\<close>)
  show "block (en_out a) (en_C a) row \<inter>
      (region (en_wte a) (V * en_C a) \<union> region (en_wpe a) (en_T a * en_C a)) = {}"
    using assms(2) disjoint_mono [OF _ block_region [OF row] order_refl] by simp
qed (rule block_disjoint)

subsection \<open>Layer normalisation\<close>

record layernorm_arg =
  ln_out :: nat
  ln_mean :: nat
  ln_rstd :: nat
  ln_inp :: nat
  ln_weight :: nat
  ln_bias :: nat
  ln_T :: nat
  ln_C :: nat

definition layernorm_row :: "'f float_ops \<Rightarrow> layernorm_arg \<Rightarrow> nat \<Rightarrow> ('f, unit) prog" where
  "layernorm_row F a row =
     (let eps = flit F 1 (-5);
          b = row div ln_T a; t = row mod ln_T a;
          x = ln_inp a + b * ln_T a * ln_C a + t * ln_C a;
          out_bt = ln_out a + b * ln_T a * ln_C a + t * ln_C a in
      bnd (for_loop 0 (ln_C a) (\<lambda>i m. bnd (load (x + i)) (\<lambda>xi. Ret (fadd F m xi))) (fzero F)) (\<lambda>m.
      let m = fdiv F m (fint F (ln_C a)) in
      bnd (for_loop 0 (ln_C a) (\<lambda>i v. bnd (load (x + i)) (\<lambda>xi.
             let xshift = fsub F xi m in Ret (fadd F v (fmul F xshift xshift)))) (fzero F)) (\<lambda>v.
      let v = fdiv F v (fint F (ln_C a));
          s = fdiv F (fone F) (fsqrt F (fadd F v eps)) in
      bnd (for_each 0 (ln_C a) (\<lambda>i.
             bnd (load (x + i)) (\<lambda>xi. bnd (load (ln_weight a + i)) (\<lambda>w.
             bnd (load (ln_bias a + i)) (\<lambda>bi.
               let n = fmul F s (fsub F xi m); o' = fadd F (fmul F n w) bi in
               store (out_bt + i) o'))))) (\<lambda>_.
      bnd (store (ln_mean a + (b * ln_T a + t)) m) (\<lambda>_.
      store (ln_rstd a + (b * ln_T a + t)) s)))))"

definition layernorm_range :: "'f float_ops \<Rightarrow> layernorm_arg \<Rightarrow> 'f range_fn" where
  "layernorm_range F a b e = for_each b e (layernorm_row F a)"

definition layernorm_products :: "layernorm_arg \<Rightarrow> nat \<Rightarrow> nat list list" where
  "layernorm_products a row =
     (let b = row div ln_T a; t = row mod ln_T a in
      [[b, ln_T a, ln_C a], [t, ln_C a], [b, ln_T a]])"

definition layernorm_forward where
  "layernorm_forward F wc sched out mean rstd inp weight bias B T C mc =
     (let arg = \<lparr>ln_out = out, ln_mean = mean, ln_rstd = rstd, ln_inp = inp, ln_weight = weight,
                 ln_bias = bias, ln_T = T, ln_C = C\<rparr> in
      int_checked ([B, T] # concat (map (layernorm_products arg) [0..<B * T]))
        (parallel_for wc 0 (B * T) (layernorm_range F arg) sched mc))"

lemma layernorm_ints:
  assumes "mul_fits [B, ln_T a, ln_C a]"
  shows "list_all mul_fits ([B, ln_T a] # concat (map (layernorm_products a) [0..<B * ln_T a]))"
  using row_products [OF assms] mul_fits_init [of "[B, ln_T a]"] assms
  by (auto simp: list_all_iff layernorm_products_def Let_def)

definition layernorm_area :: "layernorm_arg \<Rightarrow> nat \<Rightarrow> nat set" where
  "layernorm_area a r = block (ln_out a) (ln_C a) r \<union> {ln_mean a + r} \<union> {ln_rstd a + r}"

definition layernorm_reads :: "layernorm_arg \<Rightarrow> nat \<Rightarrow> nat set" where
  "layernorm_reads a n =
     region (ln_inp a) (n * ln_C a) \<union> region (ln_weight a) (ln_C a) \<union> region (ln_bias a) (ln_C a)"

lemma layernorm_rows:
  assumes "disjoint_sets [region (ln_out a) (n * ln_C a), region (ln_mean a) n, region (ln_rstd a) n,
    layernorm_reads a n]"
  shows "row_wise n (layernorm_row F a) (layernorm_area a) (layernorm_reads a n)"
proof (rule row_wiseI)
  fix row assume row: "row < n"
  have ix: "row div ln_T a * ln_T a + row mod ln_T a = row" by simp
  have o: "p + row div ln_T a * ln_T a * ln_C a + row mod ln_T a * ln_C a = p + row * ln_C a" for p
    using row_col [of row "ln_T a" "ln_C a"] by (simp add: add.assoc)
  show "safe (layernorm_area a row) (layernorm_reads a n) (layernorm_row F a row)"
    unfolding layernorm_row_def Let_def ix o layernorm_area_def layernorm_reads_def
    by (intro safe_rules) (use row in \<open>auto intro: block_I region_I region_table\<close>)
  have sub: "block (ln_out a) (ln_C a) r \<subseteq> region (ln_out a) (n * ln_C a)"
    "ln_mean a + r \<in> region (ln_mean a) n" "ln_rstd a + r \<in> region (ln_rstd a) n" if "r < n" for r
    using that by (auto intro: block_region [THEN subsetD] region_I)
  show "layernorm_area a row \<inter> layernorm_reads a n = {}"
    using assms sub [OF row] unfolding layernorm_area_def by auto
  fix row' assume row': "row' < n" "row \<noteq> row'"
  show "layernorm_area a row \<inter> layernorm_area a row' = {}"
    using assms sub [OF row] sub [OF row'(1)] block_disjoint [OF row'(2), of "ln_out a" "ln_C a"] row'(2)
    unfolding layernorm_area_def by auto
qed

subsection \<open>Matrix multiplication\<close>

text \<open>The bias may be null.\<close>

record matmul_arg =
  mm_out :: nat
  mm_inp :: nat
  mm_weight :: nat
  mm_bias :: "nat option"
  mm_T :: nat
  mm_C :: nat
  mm_OC :: nat

definition matmul_row :: "'f float_ops \<Rightarrow> matmul_arg \<Rightarrow> nat \<Rightarrow> ('f, unit) prog" where
  "matmul_row F a idx =
     (let row = idx div mm_OC a; o' = idx mod mm_OC a;
          out_bt = mm_out a + row * mm_OC a;
          inp_bt = mm_inp a + row * mm_C a;
          wrow = mm_weight a + o' * mm_C a in
      bnd (case mm_bias a of Some bias \<Rightarrow> load (bias + o') | None \<Rightarrow> Ret (fzero F)) (\<lambda>val0.
      bnd (for_loop 0 (mm_C a) (\<lambda>i val.
             bnd (load (inp_bt + i)) (\<lambda>x. bnd (load (wrow + i)) (\<lambda>w.
               Ret (fadd F val (fmul F x w))))) val0) (\<lambda>val.
      store (out_bt + o') val)))"

definition matmul_range :: "'f float_ops \<Rightarrow> matmul_arg \<Rightarrow> 'f range_fn" where
  "matmul_range F a b e = for_each b e (matmul_row F a)"

definition matmul_products :: "matmul_arg \<Rightarrow> nat \<Rightarrow> nat list list" where
  "matmul_products a idx =
     (let row = idx div mm_OC a; o' = idx mod mm_OC a in
      [[row, mm_OC a], [row, mm_C a], [o', mm_C a]])"

definition matmul_forward where
  "matmul_forward F wc sched out inp weight bias B T C OC mc =
     (let arg = \<lparr>mm_out = out, mm_inp = inp, mm_weight = weight, mm_bias = bias,
                 mm_T = T, mm_C = C, mm_OC = OC\<rparr> in
      int_checked ([B, T, OC] # concat (map (matmul_products arg) [0..<B * T * OC]))
        (parallel_for wc 0 (B * T * OC) (matmul_range F arg) sched mc))"

lemma matmul_ints:
  assumes "mul_fits [B, T, mm_OC a]" "mul_fits [B, T, mm_C a]" "mul_fits [mm_OC a, mm_C a]"
  shows "list_all mul_fits ([B, T, mm_OC a] # concat (map (matmul_products a) [0..<B * T * mm_OC a]))"
proof -
  note m = assms(1,2) [THEN mul_fits_merge]
  have "mul_fits [idx div mm_OC a, mm_OC a] \<and> mul_fits [idx div mm_OC a, mm_C a] \<and>
      mul_fits [idx mod mm_OC a, mm_C a]" if idx: "idx < B * T * mm_OC a" for idx
  proof (intro conjI)
    have OC: "0 < mm_OC a" using idx by (cases "mm_OC a") auto
    have row: "idx div mm_OC a \<le> B * T" using idx by (simp add: less_mult_imp_div_less less_imp_le)
    show "mul_fits [idx div mm_OC a, mm_OC a]" by (rule mul_fits_mono [OF m(1)]) (simp add: row)
    show "mul_fits [idx div mm_OC a, mm_C a]" by (rule mul_fits_mono [OF m(2)]) (simp add: row)
    show "mul_fits [idx mod mm_OC a, mm_C a]"
      by (rule mul_fits_mono [OF assms(3)]) (use OC in \<open>simp add: less_imp_le\<close>)
  qed
  with assms(1) show ?thesis by (auto simp: list_all_iff matmul_products_def Let_def)
qed

definition matmul_reads :: "matmul_arg \<Rightarrow> nat \<Rightarrow> nat set" where
  "matmul_reads a n =
     region (mm_inp a) (n * mm_C a) \<union> region (mm_weight a) (mm_OC a * mm_C a) \<union>
     (case mm_bias a of Some bias \<Rightarrow> region bias (mm_OC a) | None \<Rightarrow> {})"

lemma matmul_rows:
  assumes "disjoint_sets [region (mm_out a) (n * mm_OC a), matmul_reads a n]"
  shows "row_wise (n * mm_OC a) (matmul_row F a) (\<lambda>r. {mm_out a + r}) (matmul_reads a n)"
proof (rule row_wiseI)
  fix idx assume idx: "idx < n * mm_OC a"
  then have OC: "0 < mm_OC a" by (cases "mm_OC a") auto
  have row: "idx div mm_OC a < n" using idx by (simp add: less_mult_imp_div_less)
  have o: "idx mod mm_OC a < mm_OC a" using OC by simp
  have out: "mm_out a + idx div mm_OC a * mm_OC a + idx mod mm_OC a = mm_out a + idx"
    by (simp add: add.assoc)
  show "safe {mm_out a + idx} (matmul_reads a n) (matmul_row F a idx)"
    unfolding matmul_row_def Let_def out matmul_reads_def
    by (intro safe_rules) (use row o in \<open>auto intro: region_I region_table safe_rules split: option.split\<close>)
  show "{mm_out a + idx} \<inter> matmul_reads a n = {}"
    using assms region_I [OF idx, of "mm_out a"] by auto
qed auto

subsection \<open>GELU and residual\<close>

record gelu_arg =
  ge_out :: nat
  ge_inp :: nat

definition gelu_row :: "'f float_ops \<Rightarrow> gelu_arg \<Rightarrow> nat \<Rightarrow> ('f, unit) prog" where
  "gelu_row F a i =
     bnd (load (ge_inp a + i)) (\<lambda>x.
       let cube = fmul F (fmul F (fmul F (flit F 44715 (-6)) x) x) x in
       store (ge_out a + i)
         (fmul F (fmul F (flit F 5 (-1)) x)
            (fadd F (fone F) (ftanh F (fmul F (fsqrt F (two_over_pi F)) (fadd F x cube))))))"

definition gelu_range :: "'f float_ops \<Rightarrow> gelu_arg \<Rightarrow> 'f range_fn" where
  "gelu_range F a b e = for_each b e (gelu_row F a)"

definition gelu_forward where
  "gelu_forward F wc sched out inp N mc =
     parallel_for wc 0 N (gelu_range F \<lparr>ge_out = out, ge_inp = inp\<rparr>) sched mc"

lemma gelu_rows:
  assumes "disjoint_sets [region (ge_out a) n, region (ge_inp a) n]"
  shows "row_wise n (gelu_row F a) (\<lambda>r. {ge_out a + r}) (region (ge_inp a) n)"
proof (rule row_wiseI)
  fix i assume i: "i < n"
  show "safe {ge_out a + i} (region (ge_inp a) n) (gelu_row F a i)"
    unfolding gelu_row_def Let_def by (intro safe_rules) (use i in \<open>auto intro: region_I\<close>)
  show "{ge_out a + i} \<inter> region (ge_inp a) n = {}"
    using assms region_I [OF i, of "ge_out a"] by auto
qed auto

record residual_arg =
  re_out :: nat
  re_inp1 :: nat
  re_inp2 :: nat

definition residual_row :: "'f float_ops \<Rightarrow> residual_arg \<Rightarrow> nat \<Rightarrow> ('f, unit) prog" where
  "residual_row F a i =
     bnd (load (re_inp1 a + i)) (\<lambda>x. bnd (load (re_inp2 a + i)) (\<lambda>y.
       store (re_out a + i) (fadd F x y)))"

definition residual_range :: "'f float_ops \<Rightarrow> residual_arg \<Rightarrow> 'f range_fn" where
  "residual_range F a b e = for_each b e (residual_row F a)"

definition residual_forward where
  "residual_forward F wc sched out inp1 inp2 N mc =
     parallel_for wc 0 N (residual_range F \<lparr>re_out = out, re_inp1 = inp1, re_inp2 = inp2\<rparr>) sched mc"

lemma residual_rows:
  assumes "disjoint_sets [region (re_out a) n, region (re_inp1 a) n \<union> region (re_inp2 a) n]"
  shows "row_wise n (residual_row F a) (\<lambda>r. {re_out a + r})
    (region (re_inp1 a) n \<union> region (re_inp2 a) n)"
proof (rule row_wiseI)
  fix i assume i: "i < n"
  show "safe {re_out a + i} (region (re_inp1 a) n \<union> region (re_inp2 a) n) (residual_row F a i)"
    unfolding residual_row_def by (intro safe_rules) (use i in \<open>auto intro: region_I\<close>)
  show "{re_out a + i} \<inter> (region (re_inp1 a) n \<union> region (re_inp2 a) n) = {}"
    using assms region_I [OF i, of "re_out a"] by auto
qed auto

subsection \<open>Softmax\<close>

record softmax_arg =
  sm_probs :: nat
  sm_logits :: nat
  sm_T :: nat
  sm_V :: nat

definition softmax_row :: "'f float_ops \<Rightarrow> softmax_arg \<Rightarrow> nat \<Rightarrow> ('f, unit) prog" where
  "softmax_row F a row =
     (let b = row div sm_T a; t = row mod sm_T a;
          logits_bt = sm_logits a + b * sm_T a * sm_V a + t * sm_V a;
          probs_bt = sm_probs a + b * sm_T a * sm_V a + t * sm_V a in
      bnd (for_loop 0 (sm_V a) (\<lambda>i maxval. bnd (load (logits_bt + i)) (\<lambda>x.
             Ret (if fgt F x maxval then x else maxval))) (flit F (-10000) 0)) (\<lambda>maxval.
      bnd (for_loop 0 (sm_V a) (\<lambda>i sum'.
             bnd (load (logits_bt + i)) (\<lambda>x.
             bnd (store (probs_bt + i) (fexp F (fsub F x maxval))) (\<lambda>_.
             bnd (load (probs_bt + i)) (\<lambda>p. Ret (fadd F sum' p))))) (fzero F)) (\<lambda>sum'.
      for_each 0 (sm_V a) (\<lambda>i. bnd (load (probs_bt + i)) (\<lambda>p.
        store (probs_bt + i) (fdiv F p sum'))))))"

definition softmax_range :: "'f float_ops \<Rightarrow> softmax_arg \<Rightarrow> 'f range_fn" where
  "softmax_range F a b e = for_each b e (softmax_row F a)"

definition softmax_products :: "softmax_arg \<Rightarrow> nat \<Rightarrow> nat list list" where
  "softmax_products a row =
     (let b = row div sm_T a; t = row mod sm_T a in [[b, sm_T a, sm_V a], [t, sm_V a]])"

definition softmax_forward where
  "softmax_forward F wc sched probs logits B T V mc =
     (let arg = \<lparr>sm_probs = probs, sm_logits = logits, sm_T = T, sm_V = V\<rparr> in
      int_checked ([B, T] # concat (map (softmax_products arg) [0..<B * T]))
        (parallel_for wc 0 (B * T) (softmax_range F arg) sched mc))"

lemma softmax_ints:
  assumes "mul_fits [B, sm_T a, sm_V a]"
  shows "list_all mul_fits ([B, sm_T a] # concat (map (softmax_products a) [0..<B * sm_T a]))"
  using row_products [OF assms] mul_fits_init [of "[B, sm_T a]"] assms
  by (auto simp: list_all_iff softmax_products_def Let_def)

lemma softmax_rows:
  assumes "disjoint_sets [region (sm_probs a) (n * sm_V a), region (sm_logits a) (n * sm_V a)]"
  shows "row_wise n (softmax_row F a) (block (sm_probs a) (sm_V a)) (region (sm_logits a) (n * sm_V a))"
proof (rule row_wiseI)
  fix row assume row: "row < n"
  have o: "p + row div sm_T a * sm_T a * sm_V a + row mod sm_T a * sm_V a = p + row * sm_V a" for p
    using row_col [of row "sm_T a" "sm_V a"] by (simp add: add.assoc)
  show "safe (block (sm_probs a) (sm_V a) row) (region (sm_logits a) (n * sm_V a)) (softmax_row F a row)"
    unfolding softmax_row_def Let_def o
    by (intro safe_rules) (use row in \<open>auto intro: block_I region_table\<close>)
  show "block (sm_probs a) (sm_V a) row \<inter> region (sm_logits a) (n * sm_V a) = {}"
    using assms disjoint_mono [OF _ block_region [OF row] order_refl] by simp
qed (rule block_disjoint)

end
