(* ===== verification/GptAttention.thy ===== *)
theory GptAttention
  imports GptLayers
begin

text \<open>
  The attention layer of \<open>gpt.c\<close>: one definition per inner loop of \<open>attention_range\<close>, the loop body
  for one unit (batch, position, head) and the forward function.  A unit loads from the positions
  up to its own only, and different units store into different cells; a unit stores every cell of
  its results before it loads it.
\<close>

record attention_arg =
  at_out :: nat
  at_preatt :: nat
  at_att :: nat
  at_inp :: nat
  at_T :: nat
  at_C :: nat
  at_NH :: nat

definition at_hs :: "attention_arg \<Rightarrow> nat" where
  "at_hs a = at_C a div at_NH a"

subsection \<open>The inner loops\<close>

text \<open>Scores of the positions up to \<open>t\<close>, and the largest of them.  \<open>kbase\<close> is the address of the first
  key, \<open>C3\<close> the length of a row of \<open>inp\<close>.\<close>

definition att_scores where
  "att_scores F query_t kbase C3 hs scale preatt_bth t =
     for_loop 0 (t + 1) (\<lambda>t2 maxval.
       let key_t2 = kbase + t2 * C3 in
       bnd (for_loop 0 hs (\<lambda>i val. bnd (load (query_t + i)) (\<lambda>q. bnd (load (key_t2 + i)) (\<lambda>k.
              Ret (fadd F val (fmul F q k))))) (fzero F)) (\<lambda>val.
       let val = fmul F val scale in
       bnd (store (preatt_bth + t2) val) (\<lambda>_.
       Ret (if fgt F val maxval then val else maxval)))) (flit F (-10000) 0)"

definition att_exps where
  "att_exps F preatt_bth att_bth maxval t =
     for_loop 0 (t + 1) (\<lambda>t2 expsum.
       bnd (load (preatt_bth + t2)) (\<lambda>p.
       let expv = fexp F (fsub F p maxval); expsum = fadd F expsum expv in
       bnd (store (att_bth + t2) expv) (\<lambda>_. Ret expsum))) (fzero F)"

definition att_norm where
  "att_norm F att_bth expsum_inv t T =
     for_each 0 T (\<lambda>t2.
       if t2 \<le> t
       then bnd (load (att_bth + t2)) (\<lambda>v. store (att_bth + t2) (fmul F v expsum_inv))
       else store (att_bth + t2) (fzero F))"

definition att_mix where
  "att_mix F out_bth att_bth vbase C3 hs t =
     bnd (for_each 0 hs (\<lambda>i. store (out_bth + i) (fzero F))) (\<lambda>_.
     for_each 0 (t + 1) (\<lambda>t2.
       let value_t2 = vbase + t2 * C3 in
       bnd (load (att_bth + t2)) (\<lambda>att_btht2.
       for_each 0 hs (\<lambda>i.
         bnd (load (value_t2 + i)) (\<lambda>v. bnd (load (out_bth + i)) (\<lambda>o'.
           store (out_bth + i) (fadd F o' (fmul F att_btht2 v))))))))"

subsection \<open>The layer\<close>

definition attention_unit :: "'f float_ops \<Rightarrow> attention_arg \<Rightarrow> nat \<Rightarrow> ('f, unit) prog" where
  "attention_unit F a unit' =
     (let T = at_T a; C = at_C a; NH = at_NH a;
          C3 = C * 3; hs = at_hs a;
          scale = fdiv F (fone F) (fsqrt F (fint F hs));
          b = unit' div (T * NH); rem = unit' mod (T * NH);
          t = rem div NH; h = rem mod NH;
          query_t = at_inp a + b * T * C3 + t * C3 + h * hs;
          preatt_bth = at_preatt a + b * NH * T * T + h * T * T + t * T;
          att_bth = at_att a + b * NH * T * T + h * T * T + t * T;
          out_bth = at_out a + b * T * C + t * C + h * hs in
      bnd (att_scores F query_t (at_inp a + b * T * C3 + h * hs + C) C3 hs scale preatt_bth t)
        (\<lambda>maxval.
      bnd (att_exps F preatt_bth att_bth maxval t) (\<lambda>expsum.
      let expsum_inv = (if feq F expsum (fzero F) then fzero F else fdiv F (fone F) expsum) in
      bnd (att_norm F att_bth expsum_inv t T) (\<lambda>_.
      att_mix F out_bth att_bth (at_inp a + b * T * C3 + h * hs + C * 2) C3 hs t))))"

definition attention_range :: "'f float_ops \<Rightarrow> attention_arg \<Rightarrow> 'f range_fn" where
  "attention_range F a b e = for_each b e (attention_unit F a)"

text \<open>The products that the body computes for one unit, with the factors \<open>C3\<close> and \<open>hs\<close>.  Those of the
  inner loops, \<open>t2 * C3\<close> for \<open>t2\<close> up to \<open>t\<close>, are at most \<open>t * C3\<close>.\<close>

definition attention_products :: "attention_arg \<Rightarrow> nat \<Rightarrow> nat list list" where
  "attention_products a unit' =
     (let T = at_T a; C = at_C a; NH = at_NH a; C3 = C * 3; hs = at_hs a;
          b = unit' div (T * NH); rem = unit' mod (T * NH);
          t = rem div NH; h = rem mod NH in
      [[C, 3], [T, NH], [b, T, C3], [t, C3], [h, hs], [b, NH, T, T], [h, T, T], [t, T],
       [C, 2], [b, T, C], [t, C]])"

definition attention_forward where
  "attention_forward F wc sched out preatt att inp B T C NH mc =
     (let arg = \<lparr>at_out = out, at_preatt = preatt, at_att = att, at_inp = inp,
                 at_T = T, at_C = C, at_NH = NH\<rparr> in
      int_checked ([B, T, NH] # concat (map (attention_products arg) [0..<B * T * NH]))
        (parallel_for wc 0 (B * T * NH) (attention_range F arg) sched mc))"

subsection \<open>Its footprint\<close>

text \<open>Batch, position and head of a unit, and the cells that are its own.\<close>

definition unit_b :: "attention_arg \<Rightarrow> nat \<Rightarrow> nat" where
  "unit_b a u = u div (at_T a * at_NH a)"

definition unit_t :: "attention_arg \<Rightarrow> nat \<Rightarrow> nat" where
  "unit_t a u = u mod (at_T a * at_NH a) div at_NH a"

definition unit_h :: "attention_arg \<Rightarrow> nat \<Rightarrow> nat" where
  "unit_h a u = u mod (at_T a * at_NH a) mod at_NH a"

definition unit_line :: "attention_arg \<Rightarrow> nat \<Rightarrow> nat" where
  "unit_line a u = (unit_b a u * at_NH a + unit_h a u) * at_T a + unit_t a u"

definition unit_out :: "attention_arg \<Rightarrow> nat \<Rightarrow> nat set" where
  "unit_out a u =
     block (at_out a + (unit_b a u * at_T a + unit_t a u) * at_C a) (at_hs a) (unit_h a u)"

definition attention_area :: "attention_arg \<Rightarrow> nat \<Rightarrow> nat set" where
  "attention_area a u =
     unit_out a u \<union> block (at_preatt a) (at_T a) (unit_line a u) \<union>
     block (at_att a) (at_T a) (unit_line a u)"

text \<open>The rows of \<open>inp\<close> of the same batch up to the position of the unit.\<close>

definition causal_reads :: "attention_arg \<Rightarrow> nat \<Rightarrow> nat set" where
  "causal_reads a u =
     region (at_inp a + unit_b a u * at_T a * (at_C a * 3)) ((unit_t a u + 1) * (at_C a * 3))"

lemma unit_bounds:
  assumes "u < B * at_T a * at_NH a"
  shows "0 < at_T a" "0 < at_NH a" "unit_b a u < B" "unit_t a u < at_T a" "unit_h a u < at_NH a"
proof -
  have pos: "0 < B * at_T a * at_NH a" using assms by linarith
  then show "0 < at_T a" "0 < at_NH a" by simp_all
  then have "u mod (at_T a * at_NH a) < at_T a * at_NH a" by simp
  then show "unit_t a u < at_T a" by (simp add: unit_t_def less_mult_imp_div_less)
  show "unit_h a u < at_NH a" using \<open>0 < at_NH a\<close> by (simp add: unit_h_def)
  show "unit_b a u < B"
    using assms by (simp add: unit_b_def less_mult_imp_div_less mult.assoc)
qed

lemma unit_split:
  "u = (unit_b a u * at_T a + unit_t a u) * at_NH a + unit_h a u"
proof -
  have "u = u div (at_T a * at_NH a) * (at_T a * at_NH a) + u mod (at_T a * at_NH a)"
    by (rule div_mult_mod_eq [symmetric])
  moreover have "u mod (at_T a * at_NH a) = unit_t a u * at_NH a + unit_h a u"
    by (simp add: unit_t_def unit_h_def)
  ultimately show ?thesis by (simp add: unit_b_def algebra_simps)
qed

lemma head_fits: "h < NH \<Longrightarrow> h * (C div NH) + C div NH \<le> (C :: nat)"
proof -
  assume "h < NH"
  then have "(h + 1) * (C div NH) \<le> NH * (C div NH)" by (intro mult_le_mono1) simp
  also have "\<dots> \<le> C" by simp
  finally show ?thesis by simp
qed

lemma head_cell:
  assumes "h < NH" "i < C div NH" "t2 \<le> t" "off \<le> C * 2"
  shows "t2 * (C * 3) + h * (C div NH) + off + i < (t + 1) * (C * 3 :: nat)"
proof -
  have "h * (C div NH) + off + i < C * 3" using head_fits [OF assms(1), of C] assms(2,4) by linarith
  moreover have "t2 * (C * 3) \<le> t * (C * 3)" using assms(3) by simp
  ultimately show ?thesis unfolding add_mult_distrib by linarith
qed

lemma line_offset: "b * NH * T * T + h * T * T + t * T = ((b * NH + h) * T + t) * (T :: nat)"
  by (simp add: algebra_simps)

lemma attention_ints:
  assumes "mul_fits [B, at_T a, at_NH a]" "mul_fits [B, at_T a, at_C a * 3]"
    "mul_fits [B, at_NH a, at_T a, at_T a]" "mul_fits [at_C a, 3]"
  shows "list_all mul_fits ([B, at_T a, at_NH a] #
    concat (map (attention_products a) [0..<B * at_T a * at_NH a]))"
proof -
  note m = assms(1-3) [THEN mul_fits_merge]
  have "list_all mul_fits (attention_products a u)" if u: "u < B * at_T a * at_NH a" for u
  proof -
    note bd = unit_bounds [OF u]
    have "0 < B" using u by (cases B) auto
    have T: "at_T a \<le> B * at_T a" and t: "unit_t a u \<le> B * at_T a"
      and h: "unit_h a u \<le> B * at_NH a" and tn: "unit_t a u \<le> B * at_NH a * at_T a"
    proof -
      show "at_T a \<le> B * at_T a" using \<open>0 < B\<close> by simp
      with bd(4) show "unit_t a u \<le> B * at_T a" by linarith
      have "at_NH a \<le> B * at_NH a" using \<open>0 < B\<close> by simp
      with bd(5) show "unit_h a u \<le> B * at_NH a" by linarith
      have "at_T a \<le> B * at_NH a * at_T a" using \<open>0 < B\<close> bd(2) by simp
      with bd(4) show "unit_t a u \<le> B * at_NH a * at_T a" by linarith
    qed
    have "mul_fits [unit_b a u, at_T a, at_C a * 3]" "mul_fits [unit_b a u, at_T a, at_C a]"
      by (rule mul_fits_mono [OF assms(2)]; use bd(3) in simp)+
    moreover have "mul_fits [unit_t a u, at_C a * 3]" "mul_fits [unit_t a u, at_C a]"
      by (rule mul_fits_mono [OF m(2)]; use t in simp)+
    moreover have "mul_fits [at_T a, at_NH a]" by (rule mul_fits_mono [OF m(1)]) (simp add: T)
    moreover have "mul_fits [unit_b a u, at_NH a, at_T a, at_T a]"
      by (rule mul_fits_mono [OF assms(3)]) (use bd(3) in simp)
    moreover have "mul_fits [unit_h a u, at_T a, at_T a]" by (rule mul_fits_mono [OF m(3)]) (simp add: h)
    moreover have "mul_fits [unit_t a u, at_T a]"
      by (rule mul_fits_mono [OF mul_fits_merge [OF m(3)]]) (simp add: tn)
    moreover have "mul_fits [at_C a, 2]" by (rule mul_fits_mono [OF assms(4)]) simp
    moreover have "mul_fits [unit_h a u, at_hs a]"
    proof -
      have "unit_h a u * at_hs a \<le> at_C a" using head_fits [OF bd(5), of "at_C a"] by (simp add: at_hs_def)
      moreover have "unit_h a u \<le> INT_MAX" "at_C a \<le> INT_MAX"
        using \<open>mul_fits [unit_h a u, at_T a, at_T a]\<close> assms(4) by (simp_all add: mul_fits_def)
      ultimately show ?thesis by (simp add: mul_fits_def INT_MAX_def)
    qed
    ultimately show ?thesis
      using assms(4) unfolding attention_products_def Let_def unit_b_def [symmetric] unit_t_def [symmetric]
        unit_h_def [symmetric] by simp
  qed
  with assms(1) show ?thesis by (auto simp: list_all_iff)
qed

lemma causal_cell:
  assumes "unit_h a u < at_NH a" "i < at_hs a" "t2 \<le> unit_t a u" "off \<le> at_C a * 2"
  shows "at_inp a + unit_b a u * at_T a * (at_C a * 3) + unit_h a u * at_hs a + off + t2 * (at_C a * 3) + i
     \<in> causal_reads a u"
proof -
  have "at_inp a + unit_b a u * at_T a * (at_C a * 3) + unit_h a u * at_hs a + off + t2 * (at_C a * 3) + i
      = (at_inp a + unit_b a u * at_T a * (at_C a * 3)) +
        (t2 * (at_C a * 3) + unit_h a u * at_hs a + off + i)"
    by simp
  with head_cell [of "unit_h a u" "at_NH a" i "at_C a" t2 "unit_t a u" off] assms show ?thesis
    unfolding causal_reads_def at_hs_def by (metis region_I)
qed

lemma safe_att_scores:
  assumes "\<And>i. i < hs \<Longrightarrow> query_t + i \<in> W \<union> R"
    and "\<And>i t2. i < hs \<Longrightarrow> t2 \<le> t \<Longrightarrow> kbase + t2 * C3 + i \<in> W \<union> R"
    and "\<And>t2. t2 \<le> t \<Longrightarrow> preatt_bth + t2 \<in> W"
  shows "safe W R (att_scores F query_t kbase C3 hs scale preatt_bth t)"
  unfolding att_scores_def Let_def by (intro safe_rules assms) auto

lemma safe_att_exps:
  assumes "\<And>t2. t2 \<le> t \<Longrightarrow> preatt_bth + t2 \<in> W" "\<And>t2. t2 \<le> t \<Longrightarrow> att_bth + t2 \<in> W"
  shows "safe W R (att_exps F preatt_bth att_bth maxval t)"
  unfolding att_exps_def Let_def by (intro safe_rules UnI1 assms) auto

lemma safe_att_norm:
  assumes "\<And>t2. t2 < T \<Longrightarrow> att_bth + t2 \<in> W"
  shows "safe W R (att_norm F att_bth expsum_inv t T)"
  unfolding att_norm_def by (intro safe_rules UnI1 assms) auto

lemma safe_att_mix:
  assumes "\<And>i. i < hs \<Longrightarrow> out_bth + i \<in> W" "\<And>t2. t2 \<le> t \<Longrightarrow> att_bth + t2 \<in> W"
    and "\<And>i t2. i < hs \<Longrightarrow> t2 \<le> t \<Longrightarrow> vbase + t2 * C3 + i \<in> W \<union> R"
  shows "safe W R (att_mix F out_bth att_bth vbase C3 hs t)"
  unfolding att_mix_def Let_def by (intro safe_rules) (use assms in auto)

lemma attention_unit_safe:
  assumes "u < B * at_T a * at_NH a"
  shows "safe (attention_area a u) (causal_reads a u) (attention_unit F a u)"
proof -
  note bd = unit_bounds [OF assms]
  have line: "q + unit_b a u * at_NH a * at_T a * at_T a + unit_h a u * at_T a * at_T a + unit_t a u * at_T a =
      q + unit_line a u * at_T a" for q
    using line_offset [of "unit_b a u"] by (simp add: unit_line_def add.assoc)
  have own: "q + unit_line a u * at_T a + i \<in> attention_area a u"
    if "q = at_preatt a \<or> q = at_att a" "i < at_T a" for q i
    using that block_I unfolding attention_area_def by auto
  have outc: "at_out a + unit_b a u * at_T a * at_C a + unit_t a u * at_C a + unit_h a u * at_hs a + i
      \<in> attention_area a u" if "i < at_hs a" for i
    using block_I [OF that, of "at_out a + (unit_b a u * at_T a + unit_t a u) * at_C a" "unit_h a u"]
    unfolding attention_area_def unit_out_def by (simp add: algebra_simps)
  have q: "at_inp a + unit_b a u * at_T a * (at_C a * 3) + unit_t a u * (at_C a * 3) + unit_h a u * at_hs a + i
      \<in> causal_reads a u" if "i < at_hs a" for i
    using causal_cell [of a u i "unit_t a u" 0] that bd(5) by (simp add: add_ac)
  note kv = causal_cell [OF bd(5)]
  show ?thesis
    unfolding attention_unit_def Let_def unit_b_def [symmetric] unit_t_def [symmetric]
      unit_h_def [symmetric] line
    by (intro safe_bnd safe_att_scores safe_att_exps safe_att_norm safe_att_mix)
      (use bd(4) in \<open>auto intro!: own outc q kv\<close>)
qed

lemma causal_reads_sub:
  assumes "u < B * at_T a * at_NH a"
  shows "causal_reads a u \<subseteq> region (at_inp a) (B * at_T a * (at_C a * 3))"
proof -
  note bd = unit_bounds [OF assms]
  have "unit_b a u * at_T a + (unit_t a u + 1) \<le> (unit_b a u + 1) * at_T a" using bd(4) by simp
  also have "\<dots> \<le> B * at_T a" using bd(3) by (intro mult_le_mono1) simp
  finally have "(unit_b a u * at_T a + (unit_t a u + 1)) * (at_C a * 3) \<le> B * at_T a * (at_C a * 3)"
    by (rule mult_le_mono1)
  then show ?thesis by (auto simp: causal_reads_def region_def algebra_simps)
qed

lemma unit_line_lt:
  assumes "u < B * at_T a * at_NH a"
  shows "unit_line a u < B * at_NH a * at_T a"
  unfolding unit_line_def by (intro cell_lt unit_bounds(3-5) [OF assms])

lemma unit_inj:
  assumes "u < B * at_T a * at_NH a" "v < B * at_T a * at_NH a" "u \<noteq> v"
  shows "unit_line a u \<noteq> unit_line a v"
    "unit_b a u * at_T a + unit_t a u \<noteq> unit_b a v * at_T a + unit_t a v \<or> unit_h a u \<noteq> unit_h a v"
proof -
  have uniq: "x = x' \<and> y = y'" if "x * w + y = x' * w + y'" "y < w" "y' < w" for x y x' y' w :: nat
  proof -
    from that(2,3) have "(x * w + y) div w = x" "(x' * w + y') div w = x'" by simp_all
    with that(1) show ?thesis by simp
  qed
  note bu = unit_bounds [OF assms(1)] and bv = unit_bounds [OF assms(2)]
  have "u = v" if "unit_b a u = unit_b a v" "unit_t a u = unit_t a v" "unit_h a u = unit_h a v"
    using unit_split [of u a] unit_split [of v a] that by simp
  then show "unit_line a u \<noteq> unit_line a v"
    using uniq bu bv assms(3) unfolding unit_line_def by blast
  show "unit_b a u * at_T a + unit_t a u \<noteq> unit_b a v * at_T a + unit_t a v \<or> unit_h a u \<noteq> unit_h a v"
    using unit_split [of u a] unit_split [of v a] assms(3) by metis
qed

lemma unit_out_sub:
  assumes "u < B * at_T a * at_NH a"
  shows "unit_out a u \<subseteq> block (at_out a) (at_C a) (unit_b a u * at_T a + unit_t a u)"
    "unit_out a u \<subseteq> region (at_out a) (B * at_T a * at_C a)"
proof -
  note bd = unit_bounds [OF assms]
  show *: "unit_out a u \<subseteq> block (at_out a) (at_C a) (unit_b a u * at_T a + unit_t a u)"
    using head_fits [OF bd(5), of "at_C a"]
    by (auto simp: unit_out_def block_def region_def at_hs_def)
  show "unit_out a u \<subseteq> region (at_out a) (B * at_T a * at_C a)"
    using * block_region [OF cell_lt [OF bd(3,4)]] by blast
qed

lemma unit_out_disjoint:
  assumes "u < B * at_T a * at_NH a" "v < B * at_T a * at_NH a" "u \<noteq> v"
  shows "unit_out a u \<inter> unit_out a v = {}"
proof (cases "unit_b a u * at_T a + unit_t a u = unit_b a v * at_T a + unit_t a v")
  case True
  with unit_inj(2) [OF assms] show ?thesis by (simp add: unit_out_def block_disjoint)
next
  case False
  show ?thesis by (rule disjoint_mono [OF block_disjoint [OF False]]) (rule unit_out_sub assms)+
qed

lemma attention_rows:
  assumes "disjoint_sets [region (at_out a) (B * at_T a * at_C a),
    region (at_preatt a) (B * at_NH a * at_T a * at_T a),
    region (at_att a) (B * at_NH a * at_T a * at_T a), region (at_inp a) (B * at_T a * (at_C a * 3))]"
  shows "row_wise (B * at_T a * at_NH a) (attention_unit F a) (attention_area a)
    (region (at_inp a) (B * at_T a * (at_C a * 3)))"
proof (rule row_wiseI)
  have lines: "block q (at_T a) (unit_line a u) \<subseteq> region q (B * at_NH a * at_T a * at_T a)"
    if "u < B * at_T a * at_NH a" for q u
    by (rule block_region) (rule unit_line_lt [OF that])
  fix u assume u: "u < B * at_T a * at_NH a"
  show "safe (attention_area a u) (region (at_inp a) (B * at_T a * (at_C a * 3))) (attention_unit F a u)"
    using safe_mono [OF attention_unit_safe [OF u] order_refl] causal_reads_sub [OF u] by blast
  show "attention_area a u \<inter> region (at_inp a) (B * at_T a * (at_C a * 3)) = {}"
    using assms lines [OF u, of "at_preatt a"] lines [OF u, of "at_att a"] unit_out_sub(2) [OF u]
    unfolding attention_area_def by auto
  fix v assume v: "v < B * at_T a * at_NH a" "u \<noteq> v"
  have "block q (at_T a) (unit_line a u) \<inter> block q (at_T a) (unit_line a v) = {}" for q
    by (rule block_disjoint [OF unit_inj(1) [OF u v]])
  then show "attention_area a u \<inter> attention_area a v = {}"
    using assms lines [OF u, of "at_preatt a"] lines [OF u, of "at_att a"] unit_out_sub(2) [OF u]
      lines [OF v(1), of "at_preatt a"] lines [OF v(1), of "at_att a"] unit_out_sub(2) [OF v(1)]
      unit_out_disjoint [OF u v]
    unfolding attention_area_def by (auto simp: disjoint_iff)
qed

subsection \<open>What a unit stores before it loads\<close>

text \<open>The cells that a unit fills: its output, its row of weights, and its scores up to its position.
  It loads none of them before it has stored it, so nothing remains of what they held.\<close>

definition attention_results :: "attention_arg \<Rightarrow> nat \<Rightarrow> nat set" where
  "attention_results a u =
     unit_out a u \<union> block (at_att a) (at_T a) (unit_line a u) \<union>
     region (at_preatt a + unit_line a u * at_T a) (unit_t a u + 1)"

lemma attention_results_area:
  assumes "u < B * at_T a * at_NH a" "c \<in> attention_results a u"
  shows "c \<in> attention_area a u"
  using assms(2) unit_bounds(4) [OF assms(1)]
  by (auto simp: attention_results_def attention_area_def block_def region_def)

lemma region_image: "region p n = (\<Union>i\<in>{0..<n}. {p + i})"
  by (auto simp: region_def) (metis atLeastLessThan_iff le_add_diff_inverse less_diff_conv2 zero_le add.commute)

lemma inits_att_scores:
  assumes "\<And>i. i < hs \<Longrightarrow> query_t + i \<in> R" "\<And>i t2. i < hs \<Longrightarrow> t2 \<le> t \<Longrightarrow> kbase + t2 * C3 + i \<in> R"
  shows "inits R (region preatt_bth (t + 1)) D (att_scores F query_t kbase C3 hs scale preatt_bth t)"
  unfolding att_scores_def Let_def
proof (rule inits_for_loop [where G = "\<lambda>i. {preatt_bth + i}"])
  fix t2 s assume t2: "t2 < t + 1"
  show "inits R {preatt_bth + t2} (D \<union> (\<Union>j\<in>{0..<t2}. {preatt_bth + j}))
     (bnd (for_loop 0 hs (\<lambda>i val. bnd (load (query_t + i)) (\<lambda>q.
          bnd (load (kbase + t2 * C3 + i)) (\<lambda>k. Ret (fadd F val (fmul F q k))))) (fzero F))
       (\<lambda>val. bnd (store (preatt_bth + t2) (fmul F val scale)) (\<lambda>_.
          Ret (if fgt F (fmul F val scale) s then fmul F val scale else s))))"
    by (intro inits_bnd_pure inits_for_loop [where G = "\<lambda>i. {}"] inits_bnd_load inits_bnd_store)
      (use t2 assms in auto)
qed (simp add: region_image)

lemma inits_att_exps:
  assumes "region preatt_bth (t + 1) \<subseteq> D"
  shows "inits R (region att_bth (t + 1)) D (att_exps F preatt_bth att_bth maxval t)"
  unfolding att_exps_def Let_def
  by (rule inits_for_loop [where G = "\<lambda>i. {att_bth + i}"], intro inits_bnd_load inits_bnd_store)
    (use assms in \<open>auto simp: region_image\<close>)

lemma inits_att_norm:
  assumes "region att_bth (t + 1) \<subseteq> D"
  shows "inits R (region att_bth T) D (att_norm F att_bth expsum_inv t T)"
  unfolding att_norm_def
proof (rule inits_for_each [where G = "\<lambda>i. {att_bth + i}"])
  fix t2
  show "inits R {att_bth + t2} (D \<union> (\<Union>j\<in>{0..<t2}. {att_bth + j}))
     (if t2 \<le> t
      then bnd (load (att_bth + t2)) (\<lambda>v. store (att_bth + t2) (fmul F v expsum_inv))
      else store (att_bth + t2) (fzero F))"
    using assms by (auto simp: region_image intro!: inits_bnd_load inits_store)
qed (simp add: region_image)

lemma inits_att_mix:
  assumes "region att_bth (t + 1) \<subseteq> D" "\<And>i t2. i < hs \<Longrightarrow> t2 \<le> t \<Longrightarrow> vbase + t2 * C3 + i \<in> R"
    and "E \<subseteq> D \<union> region out_bth hs"
  shows "inits R E D (att_mix F out_bth att_bth vbase C3 hs t)"
  unfolding att_mix_def Let_def
proof (rule inits_bnd [where ?E1.0 = "region out_bth hs"])
  show "inits R (region out_bth hs) D (for_each 0 hs (\<lambda>i. store (out_bth + i) (fzero F)))"
    by (rule inits_for_each [where G = "\<lambda>i. {out_bth + i}"]) (auto simp: region_image intro: inits_store)
  show "inits R E (D \<union> region out_bth hs) (for_each 0 (t + 1) (\<lambda>t2. bnd (load (att_bth + t2)) (\<lambda>att_btht2.
       for_each 0 hs (\<lambda>i. bnd (load (vbase + t2 * C3 + i)) (\<lambda>v. bnd (load (out_bth + i)) (\<lambda>o'.
         store (out_bth + i) (fadd F o' (fmul F att_btht2 v))))))))"
    by (intro inits_for_each [where G = "\<lambda>i. {}"] inits_bnd_load inits_store)
      (use assms in \<open>auto simp: region_image\<close>)
qed

lemma attention_unit_inits:
  assumes "u < B * at_T a * at_NH a"
  shows "inits (causal_reads a u) (attention_results a u) {} (attention_unit F a u)"
proof -
  note bd = unit_bounds [OF assms]
  have line: "q + unit_b a u * at_NH a * at_T a * at_T a + unit_h a u * at_T a * at_T a + unit_t a u * at_T a =
      q + unit_line a u * at_T a" for q
    using line_offset [of "unit_b a u"] by (simp add: unit_line_def add.assoc)
  have q: "at_inp a + unit_b a u * at_T a * (at_C a * 3) + unit_t a u * (at_C a * 3) + unit_h a u * at_hs a + i
      \<in> causal_reads a u" if "i < at_hs a" for i
    using causal_cell [of a u i "unit_t a u" 0] that bd(5) by (simp add: add_ac)
  note kv = causal_cell [OF bd(5)]
  have sub: "region q (unit_t a u + 1) \<subseteq> region q (at_T a)" for q
    using bd(4) by (auto simp: region_def)
  have out: "unit_out a u = region (at_out a + unit_b a u * at_T a * at_C a + unit_t a u * at_C a + unit_h a u * at_hs a) (at_hs a)"
    by (simp add: unit_out_def block_def algebra_simps)
  show ?thesis
    unfolding attention_unit_def Let_def unit_b_def [symmetric] unit_t_def [symmetric]
      unit_h_def [symmetric] line
    by (rule inits_bnd [OF inits_att_scores], simp add: q, rule kv, assumption+, simp,
        rule inits_bnd [OF inits_att_exps], simp, rule inits_bnd [OF inits_att_norm], simp,
        rule inits_att_mix)
      (use kv sub in \<open>auto simp: attention_results_def block_def out\<close>)
qed

end
