(* ===== verification/GptModel.thy ===== *)
theory GptModel
  imports GptAttention Prelude
begin

text \<open>
  The model of \<open>gpt.c\<close>: its configuration, the tensors and how they are laid out in the two blocks
  that hold the parameters and the activations, and \<open>gpt2_forward\<close>, the sequence of layer calls.
  The tensors are apart and every call stays in them, so the whole forward pass is independent of
  the number of workers and of their schedule.
\<close>

subsection \<open>Configuration and tensors\<close>

record GPT2Config =
  max_seq_len :: nat
  vocab_size :: nat
  num_layers :: nat
  num_heads :: nat
  channels :: nat

record ParameterTensors =
  wte :: nat
  wpe :: nat
  ln1w :: nat
  ln1b :: nat
  qkvw :: nat
  qkvb :: nat
  attprojw :: nat
  attprojb :: nat
  ln2w :: nat
  ln2b :: nat
  fcw :: nat
  fcb :: nat
  fcprojw :: nat
  fcprojb :: nat
  lnfw :: nat
  lnfb :: nat

record ActivationTensors =
  encoded :: nat
  ln1 :: nat
  ln1_mean :: nat
  ln1_rstd :: nat
  qkv :: nat
  atty :: nat
  preatt :: nat
  att :: nat
  attproj :: nat
  residual2 :: nat
  ln2 :: nat
  ln2_mean :: nat
  ln2_rstd :: nat
  fch :: nat
  fch_gelu :: nat
  fcproj :: nat
  residual3 :: nat
  lnf :: nat
  lnf_mean :: nat
  lnf_rstd :: nat
  logits :: nat
  probs :: nat
  losses :: nat

definition param_sizes :: "GPT2Config \<Rightarrow> nat list" where
  "param_sizes cfg =
     (let maxT = max_seq_len cfg; V = vocab_size cfg; L = num_layers cfg; C = channels cfg in
      [V * C, maxT * C, L * C, L * C, L * (3 * C) * C, L * (3 * C), L * C * C, L * C,
       L * C, L * C, L * (4 * C) * C, L * (4 * C), L * C * (4 * C), L * C, C, C])"

text \<open>The sizes of the activation tensors are products of \<open>int\<close>s, multiplied from the left.\<close>

definition act_factors :: "GPT2Config \<Rightarrow> nat \<Rightarrow> nat \<Rightarrow> nat list list" where
  "act_factors cfg B T =
     (let V = vocab_size cfg; L = num_layers cfg; NH = num_heads cfg; C = channels cfg in
      [[B, T, C], [L, B, T, C], [L, B, T], [L, B, T], [L, B, T, 3, C], [L, B, T, C],
       [L, B, NH, T, T], [L, B, NH, T, T], [L, B, T, C], [L, B, T, C], [L, B, T, C],
       [L, B, T], [L, B, T], [L, B, T, 4, C], [L, B, T, 4, C], [L, B, T, C], [L, B, T, C],
       [B, T, C], [B, T], [B, T], [B, T, V], [B, T, V], [B, T]])"

definition act_sizes :: "GPT2Config \<Rightarrow> nat \<Rightarrow> nat \<Rightarrow> nat list" where
  "act_sizes cfg B T = map prod_list (act_factors cfg B T)"

lemma act_sizes_eq:
  "act_sizes cfg B T =
     (let V = vocab_size cfg; L = num_layers cfg; NH = num_heads cfg; C = channels cfg in
      [B * T * C, L * B * T * C, L * B * T, L * B * T, L * B * T * 3 * C, L * B * T * C,
       L * B * NH * T * T, L * B * NH * T * T, L * B * T * C, L * B * T * C, L * B * T * C,
       L * B * T, L * B * T, L * B * T * 4 * C, L * B * T * 4 * C, L * B * T * C, L * B * T * C,
       B * T * C, B * T, B * T, B * T * V, B * T * V, B * T])"
  by (simp add: act_sizes_def act_factors_def Let_def mult.assoc)

text \<open>The loop that assigns the tensors, from the address of the block.\<close>

primrec point_tensors :: "nat \<Rightarrow> nat list \<Rightarrow> nat list" where
  "point_tensors it [] = []"
| "point_tensors it (s # ss) = it # point_tensors (it + s) ss"

definition malloc_and_point_parameters :: "nat \<Rightarrow> nat list \<Rightarrow> ParameterTensors" where
  "malloc_and_point_parameters mem sizes =
     (let p = point_tensors mem sizes in
      \<lparr>wte = p ! 0, wpe = p ! 1, ln1w = p ! 2, ln1b = p ! 3, qkvw = p ! 4, qkvb = p ! 5,
       attprojw = p ! 6, attprojb = p ! 7, ln2w = p ! 8, ln2b = p ! 9, fcw = p ! 10, fcb = p ! 11,
       fcprojw = p ! 12, fcprojb = p ! 13, lnfw = p ! 14, lnfb = p ! 15\<rparr>)"

definition malloc_and_point_activations :: "nat \<Rightarrow> nat list \<Rightarrow> ActivationTensors" where
  "malloc_and_point_activations mem sizes =
     (let p = point_tensors mem sizes in
      \<lparr>encoded = p ! 0, ln1 = p ! 1, ln1_mean = p ! 2, ln1_rstd = p ! 3, qkv = p ! 4, atty = p ! 5,
       preatt = p ! 6, att = p ! 7, attproj = p ! 8, residual2 = p ! 9, ln2 = p ! 10,
       ln2_mean = p ! 11, ln2_rstd = p ! 12, fch = p ! 13, fch_gelu = p ! 14, fcproj = p ! 15,
       residual3 = p ! 16, lnf = p ! 17, lnf_mean = p ! 18, lnf_rstd = p ! 19, logits = p ! 20,
       probs = p ! 21, losses = p ! 22\<rparr>)"

subsection \<open>The forward pass\<close>

text \<open>A call of a layer: the number of workers, the schedule of its threads, the machine.\<close>

type_synonym 'f call = "nat \<Rightarrow> nat list \<Rightarrow> 'f machine \<Rightarrow> 'f machine outcome"

primrec run_calls :: "nat \<Rightarrow> (nat \<Rightarrow> nat list) \<Rightarrow> 'f call list \<Rightarrow> 'f machine \<Rightarrow> 'f machine outcome" where
  "run_calls wc sched [] mc = Done mc"
| "run_calls wc sched (c # cs) mc =
     (case c wc (sched (length cs)) mc of
        Done mc' \<Rightarrow> run_calls wc sched cs mc'
      | Assert_failed \<Rightarrow> Assert_failed
      | Undef \<Rightarrow> Undef)"

text \<open>A call whose arguments are computed with these products.\<close>

definition guarded :: "nat list list \<Rightarrow> 'f call \<Rightarrow> 'f call" where
  "guarded ps c wc s mc = int_checked ps (c wc s mc)"

text \<open>The stream that enters layer \<open>l\<close>, and the calls of the layer.\<close>

definition layer_in :: "ActivationTensors \<Rightarrow> nat \<Rightarrow> nat \<Rightarrow> nat \<Rightarrow> nat \<Rightarrow> nat" where
  "layer_in acts B T C l = (if l = 0 then encoded acts else residual3 acts + (l - 1) * B * T * C)"

text \<open>The products in the addresses and sizes of layer \<open>l\<close>.\<close>

definition layer_products :: "GPT2Config \<Rightarrow> nat \<Rightarrow> nat \<Rightarrow> nat \<Rightarrow> nat list list" where
  "layer_products cfg B T l =
     (let NH = num_heads cfg; C = channels cfg in
      (if l = 0 then [] else [[l - 1, B, T, C]]) @
      [[l, C], [l, 3, C, C], [l, 3, C], [l, C, C], [l, 4, C, C], [l, 4, C], [l, C, 4, C],
       [l, B, T, C], [l, B, T], [l, B, T, 3, C], [l, B, NH, T, T], [l, B, T, 4, C],
       [3, C], [B, T, C], [4, C], [B, T, 4, C]])"

definition layer_calls ::
  "'f float_ops \<Rightarrow> GPT2Config \<Rightarrow> ParameterTensors \<Rightarrow> ActivationTensors \<Rightarrow> nat \<Rightarrow> nat \<Rightarrow> nat \<Rightarrow> 'f call list"
where
  "layer_calls F cfg params acts B T l =
     (let NH = num_heads cfg; C = channels cfg;
          residual = layer_in acts B T C l;
          l_ln1w = ln1w params + l * C;
          l_ln1b = ln1b params + l * C;
          l_qkvw = qkvw params + l * 3 * C * C;
          l_qkvb = qkvb params + l * 3 * C;
          l_attprojw = attprojw params + l * C * C;
          l_attprojb = attprojb params + l * C;
          l_ln2w = ln2w params + l * C;
          l_ln2b = ln2b params + l * C;
          l_fcw = fcw params + l * 4 * C * C;
          l_fcb = fcb params + l * 4 * C;
          l_fcprojw = fcprojw params + l * C * 4 * C;
          l_fcprojb = fcprojb params + l * C;
          l_ln1 = ln1 acts + l * B * T * C;
          l_ln1_mean = ln1_mean acts + l * B * T;
          l_ln1_rstd = ln1_rstd acts + l * B * T;
          l_qkv = qkv acts + l * B * T * 3 * C;
          l_atty = atty acts + l * B * T * C;
          l_preatt = preatt acts + l * B * NH * T * T;
          l_att = att acts + l * B * NH * T * T;
          l_attproj = attproj acts + l * B * T * C;
          l_residual2 = residual2 acts + l * B * T * C;
          l_ln2 = ln2 acts + l * B * T * C;
          l_ln2_mean = ln2_mean acts + l * B * T;
          l_ln2_rstd = ln2_rstd acts + l * B * T;
          l_fch = fch acts + l * B * T * 4 * C;
          l_fch_gelu = fch_gelu acts + l * B * T * 4 * C;
          l_fcproj = fcproj acts + l * B * T * C;
          l_residual3 = residual3 acts + l * B * T * C in
      [guarded (layer_products cfg B T l)
         (\<lambda>wc s. layernorm_forward F wc s l_ln1 l_ln1_mean l_ln1_rstd residual l_ln1w l_ln1b B T C),
       \<lambda>wc s. matmul_forward F wc s l_qkv l_ln1 l_qkvw (Some l_qkvb) B T C (3 * C),
       \<lambda>wc s. attention_forward F wc s l_atty l_preatt l_att l_qkv B T C NH,
       \<lambda>wc s. matmul_forward F wc s l_attproj l_atty l_attprojw (Some l_attprojb) B T C C,
       \<lambda>wc s. residual_forward F wc s l_residual2 residual l_attproj (B * T * C),
       \<lambda>wc s. layernorm_forward F wc s l_ln2 l_ln2_mean l_ln2_rstd l_residual2 l_ln2w l_ln2b B T C,
       \<lambda>wc s. matmul_forward F wc s l_fch l_ln2 l_fcw (Some l_fcb) B T C (4 * C),
       \<lambda>wc s. gelu_forward F wc s l_fch_gelu l_fch (B * T * 4 * C),
       \<lambda>wc s. matmul_forward F wc s l_fcproj l_fch_gelu l_fcprojw (Some l_fcprojb) B T (4 * C) C,
       \<lambda>wc s. residual_forward F wc s l_residual3 l_residual2 l_fcproj (B * T * C)])"

text \<open>Without a layer the last residual would be before its tensor.\<close>

definition last_calls ::
  "'f float_ops \<Rightarrow> GPT2Config \<Rightarrow> ParameterTensors \<Rightarrow> ActivationTensors \<Rightarrow> nat \<Rightarrow> nat \<Rightarrow> 'f call list"
where
  "last_calls F cfg params acts B T =
     (let V = vocab_size cfg; C = channels cfg; L = num_layers cfg;
          residual = residual3 acts + (L - 1) * B * T * C in
      [\<lambda>wc s mc. if L = 0 then Undef
         else guarded [[L - 1, B, T, C]] (\<lambda>wc s. layernorm_forward F wc s (lnf acts) (lnf_mean acts)
           (lnf_rstd acts) residual (lnfw params) (lnfb params) B T C) wc s mc,
       \<lambda>wc s. matmul_forward F wc s (logits acts) (lnf acts) (wte params) None B T C V,
       \<lambda>wc s. softmax_forward F wc s (probs acts) (logits acts) B T V])"

definition gpt2_calls ::
  "'f float_ops \<Rightarrow> GPT2Config \<Rightarrow> ParameterTensors \<Rightarrow> ActivationTensors \<Rightarrow> nat list \<Rightarrow> nat \<Rightarrow> nat \<Rightarrow> 'f call list"
where
  "gpt2_calls F cfg params acts inputs B T =
     (\<lambda>wc s. encoder_forward F wc s (encoded acts) inputs (wte params) (wpe params) B T (channels cfg))
     # concat (map (layer_calls F cfg params acts B T) [0..<num_layers cfg])
     @ last_calls F cfg params acts B T"

text \<open>A count is an \<open>int\<close> that a \<open>size_t\<close> is converted to: the lowest 32 bits.\<close>

definition int_count :: "nat \<Rightarrow> int" where
  "int_count n = sint (word_of_nat n :: 32 word)"

text \<open>The structure \<open>GPT2\<close>, without the arrays of sizes, which are functions of the configuration,
  and the pointers into the gradients, which are never set.  A null pointer is \<open>None\<close>.\<close>

record GPT2 =
  config :: GPT2Config
  params :: ParameterTensors
  params_memory :: nat
  num_parameters :: int
  grads_memory :: "nat option"
  m_memory :: "nat option"
  v_memory :: "nat option"
  acts :: ActivationTensors
  acts_memory :: "nat option"
  num_activations :: int
  grads_acts_memory :: "nat option"
  batch_size :: nat
  seq_len :: nat
  inputs :: "nat list"
  inputs_memory :: "nat option"
  targets :: "nat option"

text \<open>\<open>gpt2_forward\<close>; \<open>mem\<close> and \<open>imem\<close> are the addresses that \<open>malloc\<close> returns for the activations
  and for the copy of the inputs.\<close>

definition gpt2_forward ::
  "'f float_ops \<Rightarrow> nat \<Rightarrow> (nat \<Rightarrow> nat list) \<Rightarrow> nat \<Rightarrow> nat \<Rightarrow> GPT2 \<Rightarrow> nat list \<Rightarrow> nat \<Rightarrow> nat \<Rightarrow> 'f machine
   \<Rightarrow> (GPT2 \<times> 'f machine) outcome" where
  "gpt2_forward F wc sched mem imem model inp B T mc =
     int_checked (act_factors (config model) B T)
     (let sizes = act_sizes (config model) B T;
          model' = model\<lparr>acts := malloc_and_point_activations mem sizes, acts_memory := Some mem,
                         num_activations := int_count (sum_list sizes), batch_size := B, seq_len := T,
                         inputs := take (B * T) inp, inputs_memory := Some imem\<rparr> in
      case run_calls wc sched (gpt2_calls F (config model) (params model) (acts model') inp B T) mc of
        Done mc' \<Rightarrow> Done (model', mc')
      | Assert_failed \<Rightarrow> Assert_failed
      | Undef \<Rightarrow> Undef)"

text \<open>\<open>gpt2_zero_grad\<close>, where a negative count is a size that no block has, and \<open>gpt2_free\<close>, which
  gives back the blocks of a model; \<open>heap\<close> is the set of the blocks in use, and freeing anything else is
  an error.\<close>

definition zero_block :: "'f float_ops \<Rightarrow> nat option \<Rightarrow> int \<Rightarrow> 'f mem \<Rightarrow> 'f mem outcome" where
  "zero_block F p n m =
     (case p of
        None \<Rightarrow> Done m
      | Some q \<Rightarrow> if n < 0 then Undef else Done (\<lambda>a. if q \<le> a \<and> a < q + nat n then fzero F else m a))"

definition gpt2_zero_grad :: "'f float_ops \<Rightarrow> GPT2 \<Rightarrow> 'f mem \<Rightarrow> 'f mem outcome" where
  "gpt2_zero_grad F model m =
     (case zero_block F (grads_memory model) (num_parameters model) m of
        Done m \<Rightarrow> zero_block F (grads_acts_memory model) (num_activations model) m
      | r \<Rightarrow> r)"

definition free_block :: "nat option \<Rightarrow> nat set \<Rightarrow> nat set option" where
  "free_block p heap =
     (case p of None \<Rightarrow> Some heap
      | Some q \<Rightarrow> if q \<in> heap then Some (heap - {q}) else None)"

primrec free_blocks :: "nat option list \<Rightarrow> nat set \<Rightarrow> nat set option" where
  "free_blocks [] heap = Some heap"
| "free_blocks (p # ps) heap =
     (case free_block p heap of None \<Rightarrow> None | Some heap' \<Rightarrow> free_blocks ps heap')"

definition gpt2_free :: "GPT2 \<Rightarrow> nat set \<Rightarrow> nat set option" where
  "gpt2_free model heap =
     free_blocks [Some (params_memory model), grads_memory model, m_memory model, v_memory model,
       acts_memory model, grads_acts_memory model, inputs_memory model, targets model] heap"

text \<open>The blocks of a model that was built and run: freeing it gives back exactly these.\<close>

definition model_blocks :: "GPT2 \<Rightarrow> nat set" where
  "model_blocks model = insert (params_memory model) (set_option (acts_memory model) \<union> set_option (inputs_memory model))"

lemma gpt2_free_all:
  assumes "grads_memory model = None" "m_memory model = None" "v_memory model = None"
    "grads_acts_memory model = None" "targets model = None"
    and "acts_memory model = Some a" "inputs_memory model = Some i"
    and "params_memory model \<noteq> a" "params_memory model \<noteq> i" "a \<noteq> i"
  shows "gpt2_free model (model_blocks model) = Some {}"
  using assms by (auto simp: gpt2_free_def model_blocks_def free_block_def)

lemma gpt2_zero_grad_none:
  "grads_memory model = None \<Longrightarrow> grads_acts_memory model = None \<Longrightarrow> gpt2_zero_grad F model m = Done m"
  by (simp add: gpt2_zero_grad_def zero_block_def)

subsection \<open>The layout of the tensors\<close>

lemma length_point_tensors [simp]: "length (point_tensors it ss) = length ss"
  by (induction ss arbitrary: it) auto

lemma point_tensors_nth:
  "i < length ss \<Longrightarrow> point_tensors it ss ! i = it + sum_list (take i ss)"
proof (induction ss arbitrary: it i)
  case (Cons s ss)
  then show ?case by (cases i) auto
qed simp

text \<open>The cells of tensor \<open>i\<close>.\<close>

definition tens :: "nat \<Rightarrow> nat list \<Rightarrow> nat \<Rightarrow> nat set" where
  "tens it ss i = (if i < length ss then region (point_tensors it ss ! i) (ss ! i) else {})"

lemma sum_take_Suc: "i < length ss \<Longrightarrow> sum_list (take (Suc i) ss) = sum_list (take i ss) + (ss ! i :: nat)"
  by (simp add: take_Suc_conv_app_nth)

lemma sum_take_mono: "i \<le> j \<Longrightarrow> sum_list (take i ss) \<le> sum_list (take j (ss :: nat list))"
proof -
  assume "i \<le> j"
  then have "take j ss = take i ss @ take (j - i) (drop i ss)" by (metis le_add_diff_inverse take_add)
  then show ?thesis by simp
qed

lemma tens_disjoint: "i \<noteq> j \<Longrightarrow> tens it ss i \<inter> tens it ss j = {}"
proof -
  have *: "tens it ss i \<inter> tens it ss j = {}" if "i < j" for i j
    using sum_take_mono [of "Suc i" j ss] sum_take_Suc [of i ss] that
    by (auto simp: tens_def region_def point_tensors_nth)
  assume "i \<noteq> j"
  then show ?thesis using * [of i j] * [of j i] by (cases "i < j") auto
qed

lemma tens_sub: "tens it ss i \<subseteq> region it (sum_list ss)"
  using sum_take_mono [of "Suc i" "length ss" ss] sum_take_Suc [of i ss]
  by (auto simp: tens_def region_def point_tensors_nth)

text \<open>The tensors cover the block exactly: each cell belongs to one of them.\<close>

lemma tens_cover: "a \<in> region it (sum_list ss) \<Longrightarrow> \<exists>i < length ss. a \<in> tens it ss i"
proof (induction ss arbitrary: it)
  case Nil
  then show ?case by (simp add: region_def)
next
  case (Cons s ss)
  show ?case
  proof (cases "a < it + s")
    case True
    with Cons.prems show ?thesis by (intro exI [of _ 0]) (simp add: tens_def region_def)
  next
    case False
    with Cons.prems have "a \<in> region (it + s) (sum_list ss)" by (simp add: region_def)
    from Cons.IH [OF this] obtain i where "i < length ss" "a \<in> tens (it + s) ss i" by blast
    then show ?thesis by (intro exI [of _ "Suc i"]) (simp add: tens_def)
  qed
qed

end
