(* ===== verification/GptForward.thy ===== *)
theory GptForward
  imports GptModel
begin

text \<open>
  The forward pass: every call of a layer is independent of the number of workers and of their
  schedule, and stays inside the two blocks of tensors; so is the whole pass, when the sizes of the
  tensors fit in an \<open>int\<close>.
\<close>

subsection \<open>Calls that do not depend on the schedule\<close>

definition call_ok :: "nat set \<Rightarrow> nat set \<Rightarrow> 'f call \<Rightarrow> bool" where
  "call_ok W R c \<longleftrightarrow>
     (\<exists>p :: ('f, unit) prog. safe W R p \<and>
        (\<forall>wc sched ts m. all_dead ts \<and> length ts + 3 \<le> MAX_THREADS \<longrightarrow>
           (\<exists>ts'. c wc sched (ts, m) = Done (ts @ ts', exec p m) \<and> length ts' \<le> 3 \<and>
                  all_dead (ts @ ts'))))"

lemma call_okE:
  fixes c :: "'f call"
  assumes "call_ok W R c"
  obtains p :: "('f, unit) prog" where "safe W R p"
    "\<And>wc sched ts m. all_dead ts \<Longrightarrow> length ts + 3 \<le> MAX_THREADS \<Longrightarrow>
       \<exists>ts'. c wc sched (ts, m) = Done (ts @ ts', exec p m) \<and> length ts' \<le> 3 \<and> all_dead (ts @ ts')"
  using assms unfolding call_ok_def by blast

lemma row_wise_call:
  fixes c :: "'f call"
  assumes rw: "row_wise n body Wf Rf" and W: "\<And>r. r < n \<Longrightarrow> Wf r \<subseteq> W" and R: "Rf \<subseteq> W \<union> R"
    and c: "\<And>wc sched mc. c wc sched mc = int_checked ps (parallel_for wc 0 n (\<lambda>b e. for_each b e body) sched mc)"
    and ints: "list_all mul_fits ps" "n + 3 \<le> INT_MAX"
  shows "call_ok W R c"
  unfolding call_ok_def
proof (intro exI [of _ "for_each 0 n body"] conjI allI impI)
  show "safe W R (for_each 0 n body)"
    by (rule safe_mono [OF row_wise_safe [OF rw]]) (use W R in auto)
  fix wc sched and ts :: "(nat \<Rightarrow> ('f, unit) prog) thread list" and m :: "'f mem"
  assume a: "all_dead ts \<and> length ts + 3 \<le> MAX_THREADS"
  then have "length ts + spawned wc n \<le> MAX_THREADS" using spawned_le [of wc n] by linarith
  from parallel_for_rows [OF rw conjunct1 [OF a] this slices_fit_any [OF _ ints(2)], of sched m] obtain ts' where
    "parallel_for wc 0 n (\<lambda>b e. for_each b e body) sched (ts, m) =
       Done (ts @ ts', exec (for_each 0 n body) m)"
    "length ts' = spawned wc n" "all_dead (ts @ ts')" by blast
  with spawned_le [of wc n] show "\<exists>ts'. c wc sched (ts, m) =
      Done (ts @ ts', exec (for_each 0 n body) m) \<and> length ts' \<le> 3 \<and> all_dead (ts @ ts')"
    unfolding c int_checked_fits [OF ints(1)] by (intro exI [of _ ts']) simp
qed

lemma call_ok_guarded: "list_all mul_fits ps \<Longrightarrow> call_ok W R c \<Longrightarrow> call_ok W R (guarded ps c)"
  by (simp add: call_ok_def guarded_def int_checked_fits)

lemma run_calls_ok:
  fixes cs :: "'f call list"
  assumes "list_all (call_ok W R) cs"
  obtains p :: "('f, unit) prog" where "safe W R p"
    "\<And>wc sched ts m. all_dead ts \<Longrightarrow> length ts + 3 * length cs \<le> MAX_THREADS \<Longrightarrow>
       \<exists>ts'. run_calls wc sched cs (ts, m) = Done (ts @ ts', exec p m) \<and>
             length ts' \<le> 3 * length cs \<and> all_dead (ts @ ts')"
  using assms
proof (induction cs arbitrary: thesis)
  case Nil
  show ?case by (rule Nil(1) [of "Ret ()"]) (auto simp: exec_def)
next
  case (Cons c cs)
  from Cons.prems(2) have "call_ok W R c" by simp
  then obtain p :: "('f, unit) prog" where p: "safe W R p"
    "\<And>wc sched ts m. all_dead ts \<Longrightarrow> length ts + 3 \<le> MAX_THREADS \<Longrightarrow>
       \<exists>ts'. c wc sched (ts, m) = Done (ts @ ts', exec p m) \<and> length ts' \<le> 3 \<and> all_dead (ts @ ts')"
    using call_okE by blast
  from Cons.prems(2) have "list_all (call_ok W R) cs" by simp
  from Cons.IH [OF _ this] obtain q :: "('f, unit) prog" where q: "safe W R q"
    "\<And>wc sched ts m. all_dead ts \<Longrightarrow> length ts + 3 * length cs \<le> MAX_THREADS \<Longrightarrow>
       \<exists>ts'. run_calls wc sched cs (ts, m) = Done (ts @ ts', exec q m) \<and>
             length ts' \<le> 3 * length cs \<and> all_dead (ts @ ts')"
    by blast
  show ?case
  proof (rule Cons.prems(1) [of "bnd p (\<lambda>_. q)"])
    show "safe W R (bnd p (\<lambda>_. q))" by (intro safe_bnd p q)
    fix wc sched and ts :: "(nat \<Rightarrow> ('f, unit) prog) thread list" and m :: "'f mem"
    assume a: "all_dead ts" "length ts + 3 * length (c # cs) \<le> MAX_THREADS"
    then have "length ts + 3 \<le> MAX_THREADS" by simp
    from p(2) [OF a(1) this, of wc "sched (length cs)" m] obtain t1 where
      t1: "c wc (sched (length cs)) (ts, m) = Done (ts @ t1, exec p m)" "length t1 \<le> 3"
        "all_dead (ts @ t1)" by blast
    then have "length (ts @ t1) + 3 * length cs \<le> MAX_THREADS" using a(2) by simp
    from q(2) [OF t1(3) this, of wc sched "exec p m"] obtain t2 where
      t2: "run_calls wc sched cs (ts @ t1, exec p m) = Done ((ts @ t1) @ t2, exec q (exec p m))"
        "length t2 \<le> 3 * length cs" "all_dead ((ts @ t1) @ t2)" by blast
    have "exec (bnd p (\<lambda>_. q)) m = exec q (exec p m)"
      by (simp add: exec_def run_bnd split: prod.split)
    with t1 t2 show "\<exists>ts'. run_calls wc sched (c # cs) (ts, m) =
        Done (ts @ ts', exec (bnd p (\<lambda>_. q)) m) \<and> length ts' \<le> 3 * length (c # cs) \<and> all_dead (ts @ ts')"
      by (intro exI [of _ "t1 @ t2"]) simp
  qed
qed

subsection \<open>The layers on tensors that are apart\<close>

text \<open>Areas \<open>cls i\<close> that are apart: those below 23 are stored into, area 23 is only read.\<close>

definition tensor_layout :: "(nat \<Rightarrow> nat set) \<Rightarrow> nat set \<Rightarrow> nat set \<Rightarrow> bool" where
  "tensor_layout cls W R \<longleftrightarrow>
     (\<forall>i j. i \<noteq> j \<longrightarrow> cls i \<inter> cls j = {}) \<and> (\<forall>i < 23. cls i \<subseteq> W) \<and> cls 23 \<subseteq> R"

definition home :: "(nat \<Rightarrow> nat set) \<Rightarrow> nat set \<Rightarrow> nat set \<Rightarrow> bool" where
  "home cls I A \<longleftrightarrow> A \<subseteq> (\<Union>i\<in>I. cls i)"

lemma home_disjoint: "tensor_layout cls W R \<Longrightarrow> home cls I A \<Longrightarrow> home cls J B \<Longrightarrow> I \<inter> J = {} \<Longrightarrow> A \<inter> B = {}"
proof (rule equals0I)
  fix a assume l: "tensor_layout cls W R" "home cls I A" "home cls J B" "I \<inter> J = {}" "a \<in> A \<inter> B"
  from l(2,5) obtain i where "i \<in> I" "a \<in> cls i" unfolding home_def by blast
  moreover from l(3,5) obtain j where "j \<in> J" "a \<in> cls j" unfolding home_def by blast
  ultimately have "i \<in> I" "j \<in> J" "a \<in> cls i \<inter> cls j" by simp_all
  moreover from this l(4) have "i \<noteq> j" by blast
  ultimately show False using l(1) unfolding tensor_layout_def by blast
qed

lemma home_Un: "home cls I A \<Longrightarrow> home cls J B \<Longrightarrow> home cls (I \<union> J) (A \<union> B)"
  unfolding home_def by auto

lemma home_out: "tensor_layout cls W R \<Longrightarrow> home cls {i} A \<Longrightarrow> i < 23 \<Longrightarrow> A \<subseteq> W"
  unfolding tensor_layout_def home_def by blast

lemma home_in: "tensor_layout cls W R \<Longrightarrow> home cls I A \<Longrightarrow> I \<subseteq> {..23} \<Longrightarrow> A \<subseteq> W \<union> R"
proof
  fix a assume l: "tensor_layout cls W R" "home cls I A" "I \<subseteq> {..23}" "a \<in> A"
  then obtain i where "i \<le> 23" "a \<in> cls i" unfolding home_def by auto
  moreover from this have "i = 23 \<or> i < 23" by auto
  ultimately show "a \<in> W \<union> R" using l(1) unfolding tensor_layout_def by blast
qed

lemma range_fns:
  "encoder_range F a1 = (\<lambda>b e. for_each b e (encoder_row F a1))"
  "layernorm_range F a2 = (\<lambda>b e. for_each b e (layernorm_row F a2))"
  "matmul_range F a3 = (\<lambda>b e. for_each b e (matmul_row F a3))"
  "attention_range F a4 = (\<lambda>b e. for_each b e (attention_unit F a4))"
  "gelu_range F a5 = (\<lambda>b e. for_each b e (gelu_row F a5))"
  "residual_range F a6 = (\<lambda>b e. for_each b e (residual_row F a6))"
  "softmax_range F a7 = (\<lambda>b e. for_each b e (softmax_row F a7))"
  by (simp_all add: fun_eq_iff encoder_range_def layernorm_range_def matmul_range_def
      attention_range_def gelu_range_def residual_range_def softmax_range_def)

lemma encoder_call:
  assumes l: "tensor_layout cls W R"
    and h: "home cls {i} (region out (B * T * C))"
      "home cls {23} (region w (V * C))" "home cls {23} (region p (T * C))"
    and "i < 23" and inp: "\<And>j. j < B * T \<Longrightarrow> inp ! j < V"
    and ints: "mul_fits [B, T, C]" "mul_fits [V, C]" "B * T + 3 \<le> INT_MAX"
  shows "call_ok W R (\<lambda>wc s. encoder_forward F wc s out inp w p B T C)"
proof -
  define a where "a = \<lparr>en_out = out, en_inp = inp, en_wte = w, en_wpe = p, en_T = T, en_C = C\<rparr>"
  have sel: "en_out a = out" "en_inp a = inp" "en_wte a = w" "en_wpe a = p" "en_T a = T" "en_C a = C"
    by (simp_all add: a_def)
  note hr = home_Un [OF h(2,3)]
  have "row_wise (B * T) (encoder_row F a) (block out C) (region w (V * C) \<union> region p (T * C))"
    using encoder_rows [of B a V] inp home_disjoint [OF l h(1) hr] \<open>i < 23\<close> by (simp add: sel)
  then show ?thesis
  proof (rule row_wise_call)
    show "\<And>r. r < B * T \<Longrightarrow> block out C r \<subseteq> W"
      using block_region home_out [OF l h(1) \<open>i < 23\<close>] by blast
    show "region w (V * C) \<union> region p (T * C) \<subseteq> W \<union> R" by (rule home_in [OF l hr]) simp
    show "list_all mul_fits ([B, T] # concat (map (encoder_products a) [0..<B * T]))"
      using encoder_ints [of B a V] ints(1,2) inp by (simp add: sel)
  qed (simp_all add: encoder_forward_def range_fns a_def Let_def ints(3))
qed

lemma layernorm_call:
  assumes l: "tensor_layout cls W R"
    and h: "home cls {i1} (region out (B * T * C))" "home cls {i2} (region mean (B * T))"
      "home cls {i3} (region rstd (B * T))" "home cls J (region inp (B * T * C))"
      "home cls {23} (region w C)" "home cls {23} (region b C)"
    and i: "i1 < 23" "i2 < 23" "i3 < 23" "distinct [i1, i2, i3]" "J \<subseteq> {..23} - {i1, i2, i3}"
    and ints: "mul_fits [B, T, C]" "B * T + 3 \<le> INT_MAX"
  shows "call_ok W R (\<lambda>wc s. layernorm_forward F wc s out mean rstd inp w b B T C)"
proof -
  define a where "a = \<lparr>ln_out = out, ln_mean = mean, ln_rstd = rstd, ln_inp = inp, ln_weight = w,
                 ln_bias = b, ln_T = T, ln_C = C\<rparr>"
  have sel: "ln_out a = out" "ln_mean a = mean" "ln_rstd a = rstd" "ln_inp a = inp"
    "ln_weight a = w" "ln_bias a = b" "ln_T a = T" "ln_C a = C"
    by (simp_all add: a_def)
  have hr: "home cls (J \<union> {23} \<union> {23}) (layernorm_reads a (B * T))"
    unfolding layernorm_reads_def sel by (intro home_Un h)
  note dj = home_disjoint [OF l h(1) h(2)] home_disjoint [OF l h(1) h(3)] home_disjoint [OF l h(2) h(3)]
    home_disjoint [OF l h(1) hr] home_disjoint [OF l h(2) hr] home_disjoint [OF l h(3) hr]
  have "({i1} \<inter> (J \<union> {23} \<union> {23}) = {}) \<and> ({i2} \<inter> (J \<union> {23} \<union> {23}) = {}) \<and>
      ({i3} \<inter> (J \<union> {23} \<union> {23}) = {})"
    using i by auto
  note dj = dj(1-3) this [THEN conjunct1, THEN dj(4)] this [THEN conjunct2, THEN conjunct1, THEN dj(5)]
    this [THEN conjunct2, THEN conjunct2, THEN dj(6)]
  have "row_wise (B * T) (layernorm_row F a) (layernorm_area a) (layernorm_reads a (B * T))"
    by (rule layernorm_rows) (use dj i in \<open>simp add: sel\<close>)
  then show ?thesis
  proof (rule row_wise_call)
    fix r assume "r < B * T"
    then have "block out C r \<subseteq> W" "mean + r \<in> W" "rstd + r \<in> W"
      using block_region [of r "B * T" out C] home_out [OF l h(1) i(1)] home_out [OF l h(2) i(2)]
        home_out [OF l h(3) i(3)] region_I by blast+
    then show "layernorm_area a r \<subseteq> W" by (simp add: layernorm_area_def sel)
  next
    show "layernorm_reads a (B * T) \<subseteq> W \<union> R" by (rule home_in [OF l hr]) (use i(5) in auto)
  next
    show "list_all mul_fits ([B, T] # concat (map (layernorm_products a) [0..<B * T]))"
      using layernorm_ints [of B a] ints(1) by (simp add: sel)
  qed (simp_all add: layernorm_forward_def range_fns a_def Let_def ints(2))
qed

lemma matmul_call:
  assumes l: "tensor_layout cls W R"
    and h: "home cls {i} (region out (B * T * OC))" "home cls {j} (region inp (B * T * C))"
      "home cls {23} (region w (OC * C))"
    and hb: "\<And>q. b = Some q \<Longrightarrow> home cls {23} (region q OC)"
    and i: "i < 23" "j < 23" "i \<noteq> j"
    and ints: "mul_fits [B, T, OC]" "mul_fits [B, T, C]" "mul_fits [OC, C]" "B * T * OC + 3 \<le> INT_MAX"
  shows "call_ok W R (\<lambda>wc s. matmul_forward F wc s out inp w b B T C OC)"
proof -
  define a where "a = \<lparr>mm_out = out, mm_inp = inp, mm_weight = w, mm_bias = b,
                 mm_T = T, mm_C = C, mm_OC = OC\<rparr>"
  have sel: "mm_out a = out" "mm_inp a = inp" "mm_weight a = w" "mm_bias a = b" "mm_C a = C" "mm_OC a = OC"
    by (simp_all add: a_def)
  have "home cls {23} (case b of Some q \<Rightarrow> region q OC | None \<Rightarrow> {})"
    using hb by (auto simp: home_def split: option.split)
  then have hr: "home cls ({j} \<union> {23} \<union> {23}) (matmul_reads a (B * T))"
    unfolding matmul_reads_def sel by (intro home_Un h)
  have "row_wise (B * T * OC) (matmul_row F a) (\<lambda>r. {out + r}) (matmul_reads a (B * T))"
    using matmul_rows [of a "B * T" F] home_disjoint [OF l h(1) hr] i by (simp add: sel)
  then show ?thesis
  proof (rule row_wise_call)
    show "\<And>r. r < B * T * OC \<Longrightarrow> {out + r} \<subseteq> W"
      using region_I home_out [OF l h(1) i(1)] by blast
    show "matmul_reads a (B * T) \<subseteq> W \<union> R" by (rule home_in [OF l hr]) (use i(2) in auto)
    show "list_all mul_fits ([B, T, OC] # concat (map (matmul_products a) [0..<B * T * OC]))"
      using matmul_ints [of B T a] ints(1-3) by (simp add: sel)
  qed (simp_all add: matmul_forward_def range_fns a_def Let_def ints(4))
qed

lemma attention_call:
  assumes l: "tensor_layout cls W R"
    and h: "home cls {i1} (region out (B * T * C))" "home cls {i2} (region pre (B * NH * T * T))"
      "home cls {i3} (region at' (B * NH * T * T))" "home cls {j} (region inp (B * T * (C * 3)))"
    and i: "i1 < 23" "i2 < 23" "i3 < 23" "j < 23" "distinct [i1, i2, i3, j]"
    and ints: "mul_fits [B, T, NH]" "mul_fits [B, T, C * 3]" "mul_fits [B, NH, T, T]" "mul_fits [C, 3]"
      "B * T * NH + 3 \<le> INT_MAX"
  shows "call_ok W R (\<lambda>wc s. attention_forward F wc s out pre at' inp B T C NH)"
proof -
  define a where "a = \<lparr>at_out = out, at_preatt = pre, at_att = at', at_inp = inp,
                 at_T = T, at_C = C, at_NH = NH\<rparr>"
  have sel: "at_out a = out" "at_preatt a = pre" "at_att a = at'" "at_inp a = inp"
    "at_T a = T" "at_C a = C" "at_NH a = NH"
    by (simp_all add: a_def)
  note dj = home_disjoint [OF l h(1) h(2)] home_disjoint [OF l h(1) h(3)] home_disjoint [OF l h(2) h(3)]
    home_disjoint [OF l h(1) h(4)] home_disjoint [OF l h(2) h(4)] home_disjoint [OF l h(3) h(4)]
  have "row_wise (B * at_T a * at_NH a) (attention_unit F a) (attention_area a)
    (region (at_inp a) (B * at_T a * (at_C a * 3)))"
    by (rule attention_rows) (use dj i in \<open>auto simp: sel\<close>)
  then show ?thesis
  proof (rule row_wise_call)
    fix u assume u: "u < B * at_T a * at_NH a"
    have "block q (at_T a) (unit_line a u) \<subseteq> region q (B * at_NH a * at_T a * at_T a)" for q
      by (rule block_region) (rule unit_line_lt [OF u])
    from this [of pre] this [of at'] unit_out_sub(2) [OF u] home_out [OF l h(1) i(1)]
      home_out [OF l h(2) i(2)] home_out [OF l h(3) i(3)]
    show "attention_area a u \<subseteq> W" unfolding attention_area_def sel by blast
  next
    show "region (at_inp a) (B * at_T a * (at_C a * 3)) \<subseteq> W \<union> R"
      unfolding sel by (rule home_in [OF l h(4)]) (use i(4) in auto)
  next
    show "list_all mul_fits ([B, T, NH] # concat (map (attention_products a) [0..<B * T * NH]))"
      using attention_ints [of B a] ints(1-4) by (simp add: sel)
  qed (simp_all add: attention_forward_def range_fns a_def Let_def ints(5))
qed

lemma gelu_call:
  assumes l: "tensor_layout cls W R"
    and h: "home cls {i} (region out n)" "home cls {j} (region inp n)"
    and i: "i < 23" "j < 23" "i \<noteq> j" and ints: "n + 3 \<le> INT_MAX"
  shows "call_ok W R (\<lambda>wc s. gelu_forward F wc s out inp n)"
proof -
  have "row_wise n (gelu_row F \<lparr>ge_out = out, ge_inp = inp\<rparr>) (\<lambda>r. {out + r}) (region inp n)"
    using gelu_rows [of "\<lparr>ge_out = out, ge_inp = inp\<rparr>" n F] home_disjoint [OF l h] i by simp
  then show ?thesis
  proof (rule row_wise_call)
    show "\<And>r. r < n \<Longrightarrow> {out + r} \<subseteq> W" using region_I home_out [OF l h(1) i(1)] by blast
    show "region inp n \<subseteq> W \<union> R" by (rule home_in [OF l h(2)]) (use i(2) in auto)
    show "list_all mul_fits []" by simp
  qed (simp_all add: gelu_forward_def range_fns int_checked_def ints)
qed

lemma residual_call:
  assumes l: "tensor_layout cls W R"
    and h: "home cls {i} (region out n)" "home cls J (region x n)" "home cls {j} (region y n)"
    and i: "i < 23" "j < 23" "J \<subseteq> {..23} - {i}" "i \<noteq> j" and ints: "n + 3 \<le> INT_MAX"
  shows "call_ok W R (\<lambda>wc s. residual_forward F wc s out x y n)"
proof -
  let ?a = "\<lparr>re_out = out, re_inp1 = x, re_inp2 = y\<rparr>"
  note hr = home_Un [OF h(2,3)]
  have "row_wise n (residual_row F ?a) (\<lambda>r. {out + r}) (region x n \<union> region y n)"
    using residual_rows [of ?a n F] home_disjoint [OF l h(1) hr] i by auto
  then show ?thesis
  proof (rule row_wise_call)
    show "\<And>r. r < n \<Longrightarrow> {out + r} \<subseteq> W" using region_I home_out [OF l h(1) i(1)] by blast
    show "region x n \<union> region y n \<subseteq> W \<union> R" by (rule home_in [OF l hr]) (use i in auto)
    show "list_all mul_fits []" by simp
  qed (simp_all add: residual_forward_def range_fns int_checked_def ints)
qed

lemma softmax_call:
  assumes l: "tensor_layout cls W R"
    and h: "home cls {i} (region pr (B * T * V))" "home cls {j} (region lg (B * T * V))"
    and i: "i < 23" "j < 23" "i \<noteq> j"
    and ints: "mul_fits [B, T, V]" "B * T + 3 \<le> INT_MAX"
  shows "call_ok W R (\<lambda>wc s. softmax_forward F wc s pr lg B T V)"
proof -
  let ?a = "\<lparr>sm_probs = pr, sm_logits = lg, sm_T = T, sm_V = V\<rparr>"
  have "row_wise (B * T) (softmax_row F ?a) (block pr V) (region lg (B * T * V))"
    using softmax_rows [of ?a "B * T" F] home_disjoint [OF l h] i by simp
  then show ?thesis
  proof (rule row_wise_call)
    show "\<And>r. r < B * T \<Longrightarrow> block pr V r \<subseteq> W"
      using block_region home_out [OF l h(1) i(1)] by blast
    show "region lg (B * T * V) \<subseteq> W \<union> R" by (rule home_in [OF l h(2)]) (use i(2) in auto)
    show "list_all mul_fits ([B, T] # concat (map (softmax_products ?a) [0..<B * T]))"
      using softmax_ints [of B ?a] ints(1) by simp
  qed (simp_all add: softmax_forward_def range_fns Let_def ints(2))
qed

subsection \<open>The layers on the tensors of the model\<close>

definition act_block :: "GPT2Config \<Rightarrow> nat \<Rightarrow> nat \<Rightarrow> nat \<Rightarrow> nat set" where
  "act_block cfg B T A = region A (sum_list (act_sizes cfg B T))"

definition param_block :: "GPT2Config \<Rightarrow> nat \<Rightarrow> nat set" where
  "param_block cfg P = region P (sum_list (param_sizes cfg))"

definition areas :: "GPT2Config \<Rightarrow> nat \<Rightarrow> nat \<Rightarrow> nat \<Rightarrow> nat \<Rightarrow> nat \<Rightarrow> nat set" where
  "areas cfg B T A P i =
     (if i < 23 then tens A (act_sizes cfg B T) i else if i = 23 then param_block cfg P else {})"

lemma length_sizes [simp]: "length (act_sizes cfg B T) = 23" "length (param_sizes cfg) = 16"
  by (simp_all add: act_sizes_eq param_sizes_def Let_def)

lemma layout_areas:
  assumes "act_block cfg B T A \<inter> param_block cfg P = {}"
  shows "tensor_layout (areas cfg B T A P) (act_block cfg B T A) (param_block cfg P)"
proof -
  have sub: "tens A (act_sizes cfg B T) i \<subseteq> act_block cfg B T A" for i
    unfolding act_block_def by (rule tens_sub)
  have "areas cfg B T A P i \<inter> areas cfg B T A P j = {}" if "i \<noteq> j" for i j
    using tens_disjoint [OF that, of A "act_sizes cfg B T"] sub [of i] sub [of j] assms that
    by (auto simp: areas_def disjoint_iff)
  with sub show ?thesis unfolding tensor_layout_def areas_def by auto
qed

lemma act_home:
  assumes "i < 23" "act_sizes cfg B T ! i = L * w" "l < L" "q = l * w"
  shows "home (areas cfg B T A P) {i} (region (point_tensors A (act_sizes cfg B T) ! i + q) w)"
  using block_region [OF assms(3), of "point_tensors A (act_sizes cfg B T) ! i" w] assms
  by (simp add: home_def areas_def tens_def block_def)

lemma act_home1:
  "i < 23 \<Longrightarrow> act_sizes cfg B T ! i = w \<Longrightarrow>
   home (areas cfg B T A P) {i} (region (point_tensors A (act_sizes cfg B T) ! i) w)"
  by (simp add: home_def areas_def tens_def)

lemma param_home:
  assumes "i < 16" "param_sizes cfg ! i = L * w" "l < L" "q = l * w"
  shows "home (areas cfg B T A P) {23} (region (point_tensors P (param_sizes cfg) ! i + q) w)"
  using block_region [OF assms(3), of "point_tensors P (param_sizes cfg) ! i" w]
    tens_sub [of P "param_sizes cfg" i] assms
  by (auto simp: home_def areas_def tens_def block_def param_block_def)

lemma param_home1:
  "i < 16 \<Longrightarrow> w \<le> param_sizes cfg ! i \<Longrightarrow>
   home (areas cfg B T A P) {23} (region (point_tensors P (param_sizes cfg) ! i) w)"
  using tens_sub [of P "param_sizes cfg" i]
  by (auto simp: home_def areas_def tens_def param_block_def region_def)

lemma tensor_sel:
  "encoded (malloc_and_point_activations q ss) = point_tensors q ss ! 0"
  "ln1 (malloc_and_point_activations q ss) = point_tensors q ss ! 1"
  "ln1_mean (malloc_and_point_activations q ss) = point_tensors q ss ! 2"
  "ln1_rstd (malloc_and_point_activations q ss) = point_tensors q ss ! 3"
  "qkv (malloc_and_point_activations q ss) = point_tensors q ss ! 4"
  "atty (malloc_and_point_activations q ss) = point_tensors q ss ! 5"
  "preatt (malloc_and_point_activations q ss) = point_tensors q ss ! 6"
  "att (malloc_and_point_activations q ss) = point_tensors q ss ! 7"
  "attproj (malloc_and_point_activations q ss) = point_tensors q ss ! 8"
  "residual2 (malloc_and_point_activations q ss) = point_tensors q ss ! 9"
  "ln2 (malloc_and_point_activations q ss) = point_tensors q ss ! 10"
  "ln2_mean (malloc_and_point_activations q ss) = point_tensors q ss ! 11"
  "ln2_rstd (malloc_and_point_activations q ss) = point_tensors q ss ! 12"
  "fch (malloc_and_point_activations q ss) = point_tensors q ss ! 13"
  "fch_gelu (malloc_and_point_activations q ss) = point_tensors q ss ! 14"
  "fcproj (malloc_and_point_activations q ss) = point_tensors q ss ! 15"
  "residual3 (malloc_and_point_activations q ss) = point_tensors q ss ! 16"
  "lnf (malloc_and_point_activations q ss) = point_tensors q ss ! 17"
  "lnf_mean (malloc_and_point_activations q ss) = point_tensors q ss ! 18"
  "lnf_rstd (malloc_and_point_activations q ss) = point_tensors q ss ! 19"
  "logits (malloc_and_point_activations q ss) = point_tensors q ss ! 20"
  "probs (malloc_and_point_activations q ss) = point_tensors q ss ! 21"
  "losses (malloc_and_point_activations q ss) = point_tensors q ss ! 22"
  "wte (malloc_and_point_parameters q ss) = point_tensors q ss ! 0"
  "wpe (malloc_and_point_parameters q ss) = point_tensors q ss ! 1"
  "ln1w (malloc_and_point_parameters q ss) = point_tensors q ss ! 2"
  "ln1b (malloc_and_point_parameters q ss) = point_tensors q ss ! 3"
  "qkvw (malloc_and_point_parameters q ss) = point_tensors q ss ! 4"
  "qkvb (malloc_and_point_parameters q ss) = point_tensors q ss ! 5"
  "attprojw (malloc_and_point_parameters q ss) = point_tensors q ss ! 6"
  "attprojb (malloc_and_point_parameters q ss) = point_tensors q ss ! 7"
  "ln2w (malloc_and_point_parameters q ss) = point_tensors q ss ! 8"
  "ln2b (malloc_and_point_parameters q ss) = point_tensors q ss ! 9"
  "fcw (malloc_and_point_parameters q ss) = point_tensors q ss ! 10"
  "fcb (malloc_and_point_parameters q ss) = point_tensors q ss ! 11"
  "fcprojw (malloc_and_point_parameters q ss) = point_tensors q ss ! 12"
  "fcprojb (malloc_and_point_parameters q ss) = point_tensors q ss ! 13"
  "lnfw (malloc_and_point_parameters q ss) = point_tensors q ss ! 14"
  "lnfb (malloc_and_point_parameters q ss) = point_tensors q ss ! 15"
  by (simp_all add: malloc_and_point_activations_def malloc_and_point_parameters_def Let_def)

lemma layer_in_home:
  assumes "l < num_layers cfg"
  shows "home (areas cfg B T A P) {0, 16}
    (region (layer_in (malloc_and_point_activations A (act_sizes cfg B T)) B T (channels cfg) l)
       (B * T * channels cfg))"
proof (cases "l = 0")
  case True
  have "home (areas cfg B T A P) {0}
      (region (point_tensors A (act_sizes cfg B T) ! 0) (B * T * channels cfg))"
    by (rule act_home1) (simp_all add: act_sizes_eq Let_def)
  with True show ?thesis
    by (auto simp: layer_in_def tensor_sel home_def)
next
  case False
  have "home (areas cfg B T A P) {16}
      (region (point_tensors A (act_sizes cfg B T) ! 16 + (l - 1) * B * T * channels cfg)
        (B * T * channels cfg))"
    by (rule act_home [where L = "num_layers cfg" and l = "l - 1"])
      (use assms in \<open>simp_all add: act_sizes_eq Let_def mult_ac\<close>)
  with False show ?thesis
    by (auto simp: layer_in_def tensor_sel home_def)
qed

text \<open>The sizes of the tensors of a pass fit in an \<open>int\<close>, with room for what \<open>parallel_for\<close> adds to them.\<close>

definition ints_fit :: "GPT2Config \<Rightarrow> nat \<Rightarrow> nat \<Rightarrow> bool" where
  "ints_fit cfg B T \<longleftrightarrow>
     0 < num_layers cfg \<and> 0 < B \<and> 0 < T \<and> num_layers cfg * B * T * 4 \<le> INT_MAX \<and>
     4 * channels cfg \<le> INT_MAX \<and>
     list_all (\<lambda>s. s \<le> INT_MAX) (param_sizes cfg) \<and> list_all (\<lambda>s. s + 3 \<le> INT_MAX) (act_sizes cfg B T)"

lemma mul_fits_snoc: "mul_fits (xs @ [c]) \<longleftrightarrow> mul_fits xs \<and> prod_list xs * c \<le> INT_MAX"
proof -
  have "fits_from p (xs @ [c]) \<longleftrightarrow> fits_from p xs \<and> p * prod_list xs * c \<le> INT_MAX" for p
    by (induction xs arbitrary: p) (auto simp: mult.assoc)
  then show ?thesis by (simp add: mul_fits_def)
qed

lemma mul_fits_drop: "mul_fits (x # xs) \<Longrightarrow> 0 < x \<Longrightarrow> mul_fits xs"
  unfolding mul_fits_def by (auto intro: fits_from_mono list.rel_refl)

lemma mul_fits_join2: "mul_fits [x, y, a, b] \<Longrightarrow> mul_fits [x, y, a * b]"
  by (simp add: mul_fits_def mult.assoc)

lemma param_products:
  assumes "ints_fit cfg B T"
  defines "L \<equiv> num_layers cfg" and "C \<equiv> channels cfg"
  shows "mul_fits [L, C]" "mul_fits [L, 3, C, C]" "mul_fits [L, C, C]" "mul_fits [L, 4, C, C]"
    "mul_fits [L, C, 4, C]" "mul_fits [4, C]" "mul_fits [vocab_size cfg * C]"
proof -
  have L: "0 < L" "L * B * T * 4 \<le> INT_MAX" "0 < B" "0 < T" "4 * C \<le> INT_MAX"
    using assms by (simp_all add: ints_fit_def)
  have "L * 4 \<le> L * B * T * 4" using L by simp
  then have L4: "L * 4 \<le> INT_MAX" using L(2) by linarith
  have p: "L * C \<le> INT_MAX" "L * (3 * C) * C \<le> INT_MAX" "L * (3 * C) \<le> INT_MAX" "L * C * C \<le> INT_MAX"
    "L * (4 * C) * C \<le> INT_MAX" "L * (4 * C) \<le> INT_MAX" "L * C * (4 * C) \<le> INT_MAX"
    "vocab_size cfg * C \<le> INT_MAX"
    using assms by (simp_all add: ints_fit_def param_sizes_def Let_def)
  have one: "1 \<le> INT_MAX" "4 \<le> INT_MAX" by (simp_all add: INT_MAX_def)
  from L4 have L': "L \<le> INT_MAX" "L * 3 \<le> INT_MAX" by simp_all
  have "L * C * 4 \<le> INT_MAX" using p(6) by (simp add: mult_ac)
  with p L4 L' L(5) one show "mul_fits [L, C]" "mul_fits [L, 3, C, C]" "mul_fits [L, C, C]" "mul_fits [L, 4, C, C]"
    "mul_fits [L, C, 4, C]" "mul_fits [4, C]" "mul_fits [vocab_size cfg * C]"
    by (simp_all add: mul_fits_def mult.assoc)
qed

lemma act_products:
  assumes "ints_fit cfg B T"
  shows "list_all mul_fits (act_factors cfg B T)"
proof -
  let ?L = "num_layers cfg" and ?NH = "num_heads cfg" and ?C = "channels cfg" and ?V = "vocab_size cfg"
  have p: "0 < ?L" "0 < B" "0 < T" and LBT: "?L * B * T * 4 \<le> INT_MAX"
    and s: "B * T * ?C \<le> INT_MAX" "?L * B * T * ?C \<le> INT_MAX" "?L * B * T * 3 * ?C \<le> INT_MAX"
      "?L * B * ?NH * T * T \<le> INT_MAX" "?L * B * T * 4 * ?C \<le> INT_MAX" "B * T * ?V \<le> INT_MAX"
    using assms by (simp_all add: ints_fit_def act_sizes_eq Let_def)
  have one: "1 \<le> INT_MAX" by (simp add: INT_MAX_def)
  from LBT have a: "?L * B * T \<le> INT_MAX" "?L * B * T * 3 \<le> INT_MAX" by simp_all
  have "?L * B \<le> ?L * B * T" "?L \<le> ?L * B" "B \<le> B * T" "B * T \<le> ?L * (B * T)" using p by simp_all
  with a have b: "?L * B \<le> INT_MAX" "?L \<le> INT_MAX" "B * T \<le> INT_MAX" "B \<le> INT_MAX"
    unfolding mult.assoc by linarith+
  have "?L * B * ?NH \<le> ?L * B * ?NH * T" "?L * B * ?NH * T \<le> ?L * B * ?NH * T * T" using p by simp_all
  with s(4) have c: "?L * B * ?NH \<le> INT_MAX" "?L * B * ?NH * T \<le> INT_MAX" by linarith+
  show ?thesis
    using a b c s LBT one by (simp add: act_factors_def Let_def mul_fits_def)
qed

text \<open>What the calls of a pass need of these sizes.\<close>

lemma call_products:
  assumes "ints_fit cfg B T"
  defines "C \<equiv> channels cfg" and "NH \<equiv> num_heads cfg" and "V \<equiv> vocab_size cfg"
  shows "mul_fits [B, T, C]" "mul_fits [B, T, 3 * C]" "mul_fits [B, T, 4 * C]" "mul_fits [B, T, NH]"
    "mul_fits [B, NH, T, T]" "mul_fits [B, T, V]" "mul_fits [C, 3]" "mul_fits [3 * C, C]" "mul_fits [C, C]"
    "mul_fits [4 * C, C]" "mul_fits [C, 4 * C]" "mul_fits [V, C]" "mul_fits [B, T, 4, C]" "mul_fits [3, C]"
    "B * T + 3 \<le> INT_MAX" "B * T * C + 3 \<le> INT_MAX" "B * T * (3 * C) + 3 \<le> INT_MAX"
    "B * T * NH + 3 \<le> INT_MAX" "B * T * (4 * C) + 3 \<le> INT_MAX" "B * T * 4 * C + 3 \<le> INT_MAX"
    "B * T * V + 3 \<le> INT_MAX"
proof -
  let ?L = "num_layers cfg"
  note ap = act_products [OF assms(1)] and pp = param_products [OF assms(1), folded C_def]
  have p: "0 < ?L" "0 < B" "0 < T" "4 * C \<le> INT_MAX"
    and s: "B * T + 3 \<le> INT_MAX" "B * T * C + 3 \<le> INT_MAX" "?L * (B * T * (3 * C)) + 3 \<le> INT_MAX"
      "?L * (B * NH * T * T) + 3 \<le> INT_MAX" "?L * (B * T * (4 * C)) + 3 \<le> INT_MAX" "B * T * V + 3 \<le> INT_MAX"
    using assms by (simp_all add: ints_fit_def act_sizes_eq Let_def mult_ac)
  have drop: "x + 3 \<le> INT_MAX" if "?L * x + 3 \<le> INT_MAX" for x
    using that p(1) by (metis One_nat_def Suc_leI add_le_mono1 le_trans mult_1 mult_le_mono1)
  note s3 = drop [OF s(3)] and s4 = drop [OF s(4)] and s5 = drop [OF s(5)]
  have "B * NH * T \<le> B * NH * T * T" using p by simp
  with s4 have "B * NH * T + 3 \<le> INT_MAX" by linarith
  then have nh: "B * T * NH + 3 \<le> INT_MAX" by (simp add: mult_ac)
  show "B * T + 3 \<le> INT_MAX" "B * T * C + 3 \<le> INT_MAX" "B * T * (3 * C) + 3 \<le> INT_MAX"
    "B * T * NH + 3 \<le> INT_MAX" "B * T * (4 * C) + 3 \<le> INT_MAX" "B * T * 4 * C + 3 \<le> INT_MAX"
    "B * T * V + 3 \<le> INT_MAX"
    using s s3 s5 nh by (simp_all add: mult.assoc)
  have f: "mul_fits [B, T, C]" "mul_fits [?L, B, T, 3, C]" "mul_fits [?L, B, T, 4, C]"
    "mul_fits [?L, B, NH, T, T]" "mul_fits [B, T, V]"
    using ap by (simp_all add: act_factors_def Let_def C_def NH_def V_def)
  show "mul_fits [B, T, C]" "mul_fits [B, T, V]" by (rule f)+
  show "mul_fits [B, T, 3 * C]" by (rule mul_fits_join2 [OF mul_fits_drop [OF f(2) p(1)]])
  show "mul_fits [B, T, 4 * C]" by (rule mul_fits_join2 [OF mul_fits_drop [OF f(3) p(1)]])
  show "mul_fits [B, T, 4, C]" by (rule mul_fits_drop [OF f(3) p(1)])
  show "mul_fits [B, NH, T, T]" by (rule mul_fits_drop [OF f(4) p(1)])
  show "mul_fits [B, T, NH]"
    using mul_fits_snoc [of "[B, T]" NH] mul_fits_init [of "[B, T]" "[C]"] f(1) nh by simp
  show "mul_fits [3 * C, C]" "mul_fits [4 * C, C]" "mul_fits [C, 4 * C]"
    using mul_fits_drop [OF pp(2) p(1)] mul_fits_drop [OF pp(4) p(1)]
      mul_fits_join2 [OF pp(5)] p(1) by (simp_all add: mul_fits_merge mul_fits_drop)
  show "mul_fits [C, C]" by (rule mul_fits_drop [OF pp(3) p(1)])
  show "mul_fits [C, 3]" "mul_fits [3, C]" using p(4) by (simp_all add: mul_fits_def INT_MAX_def)
  have "V \<le> B * T * V" using p by simp
  with s(6) have "V \<le> INT_MAX" by linarith
  with pp(7) show "mul_fits [V, C]" by (simp add: mul_fits_def V_def)
qed

lemma layer_ints:
  assumes "ints_fit cfg B T" "l < num_layers cfg"
  shows "list_all mul_fits (layer_products cfg B T l)"
proof -
  note ap = act_products [OF assms(1)] and pp = param_products [OF assms(1)] and cp = call_products [OF assms(1)]
  have f: "mul_fits [num_layers cfg, B, T, channels cfg]" "mul_fits [num_layers cfg, B, T]"
    "mul_fits [num_layers cfg, B, T, 3, channels cfg]" "mul_fits [num_layers cfg, B, num_heads cfg, T, T]"
    "mul_fits [num_layers cfg, B, T, 4, channels cfg]"
    using ap by (simp_all add: act_factors_def Let_def)
  have le: "mul_fits (k # xs)" if "mul_fits (num_layers cfg # xs)" "k \<le> num_layers cfg" for k xs
    by (rule mul_fits_mono [OF that(1)]) (simp add: that(2) list.rel_refl)
  have "mul_fits [l, 3, channels cfg]" "mul_fits [l, 4, channels cfg]"
    using le [OF pp(2), of l] le [OF pp(4), of l] assms(2) mul_fits_init [of "[l, 3, channels cfg]"]
      mul_fits_init [of "[l, 4, channels cfg]"] by simp_all
  then show ?thesis
    using f [THEN le] pp(1-5) [THEN le] pp(6) cp(1,13,14) assms(2) by (simp add: layer_products_def Let_def)
qed

lemma layer_calls_ok:
  assumes l: "l < num_layers cfg" and ints: "ints_fit cfg B T"
    and dj: "act_block cfg B T A \<inter> param_block cfg P = {}"
  shows "list_all (call_ok (act_block cfg B T A) (param_block cfg P))
    (layer_calls F cfg (malloc_and_point_parameters P (param_sizes cfg))
      (malloc_and_point_activations A (act_sizes cfg B T)) B T l)"
proof -
  let ?C = "channels cfg" and ?NH = "num_heads cfg"
  note lay = layout_areas [OF dj]
  note ah = act_home [where cfg = cfg and B = B and T = T and A = A and P = P, OF _ _ l]
  note ph = param_home [where cfg = cfg and B = B and T = T and A = A and P = P, OF _ _ l]
  note sz = act_sizes_eq param_sizes_def Let_def
  let ?a = "\<lambda>i. point_tensors A (act_sizes cfg B T) ! i"
  let ?p = "\<lambda>i. point_tensors P (param_sizes cfg) ! i"
  let ?h = "home (areas cfg B T A P)"
  have a: "?h {1} (region (?a 1 + l * B * T * ?C) (B * T * ?C))"
    "?h {2} (region (?a 2 + l * B * T) (B * T))"
    "?h {3} (region (?a 3 + l * B * T) (B * T))"
    "?h {4} (region (?a 4 + l * B * T * 3 * ?C) (B * T * (3 * ?C)))"
    "?h {4} (region (?a 4 + l * B * T * 3 * ?C) (B * T * (?C * 3)))"
    "?h {5} (region (?a 5 + l * B * T * ?C) (B * T * ?C))"
    "?h {6} (region (?a 6 + l * B * ?NH * T * T) (B * ?NH * T * T))"
    "?h {7} (region (?a 7 + l * B * ?NH * T * T) (B * ?NH * T * T))"
    "?h {8} (region (?a 8 + l * B * T * ?C) (B * T * ?C))"
    "?h {9} (region (?a 9 + l * B * T * ?C) (B * T * ?C))"
    "?h {10} (region (?a 10 + l * B * T * ?C) (B * T * ?C))"
    "?h {11} (region (?a 11 + l * B * T) (B * T))"
    "?h {12} (region (?a 12 + l * B * T) (B * T))"
    "?h {13} (region (?a 13 + l * B * T * 4 * ?C) (B * T * (4 * ?C)))"
    "?h {13} (region (?a 13 + l * B * T * 4 * ?C) (B * T * 4 * ?C))"
    "?h {14} (region (?a 14 + l * B * T * 4 * ?C) (B * T * (4 * ?C)))"
    "?h {14} (region (?a 14 + l * B * T * 4 * ?C) (B * T * 4 * ?C))"
    "?h {15} (region (?a 15 + l * B * T * ?C) (B * T * ?C))"
    "?h {16} (region (?a 16 + l * B * T * ?C) (B * T * ?C))"
    by (rule ah; simp add: sz mult_ac)+
  have p: "?h {23} (region (?p 2 + l * ?C) ?C)" "?h {23} (region (?p 3 + l * ?C) ?C)"
    "?h {23} (region (?p 4 + l * 3 * ?C * ?C) (3 * ?C * ?C))"
    "?h {23} (region (?p 5 + l * 3 * ?C) (3 * ?C))"
    "?h {23} (region (?p 6 + l * ?C * ?C) (?C * ?C))" "?h {23} (region (?p 7 + l * ?C) ?C)"
    "?h {23} (region (?p 8 + l * ?C) ?C)" "?h {23} (region (?p 9 + l * ?C) ?C)"
    "?h {23} (region (?p 10 + l * 4 * ?C * ?C) (4 * ?C * ?C))"
    "?h {23} (region (?p 11 + l * 4 * ?C) (4 * ?C))"
    "?h {23} (region (?p 12 + l * ?C * 4 * ?C) (?C * (4 * ?C)))" "?h {23} (region (?p 13 + l * ?C) ?C)"
    by (rule ph; simp add: sz mult_ac)+
  note cp = call_products [OF ints]
  note res = layer_in_home [OF l, where B = B and T = T and A = A and P = P]
  show ?thesis
    unfolding layer_calls_def Let_def list.pred_inject tensor_sel
    by (intro conjI TrueI call_ok_guarded [OF layer_ints [OF ints l]]
        layernorm_call [OF lay a(1,2,3) res] matmul_call [OF lay a(4,1) p(3)]
        attention_call [OF lay a(6,7,8,5)] matmul_call [OF lay a(9,6) p(5)]
        residual_call [OF lay a(10) res a(9)] layernorm_call [OF lay a(11,12,13,10)]
        matmul_call [OF lay a(14,11) p(9)] gelu_call [OF lay a(17,15)]
        matmul_call [OF lay a(18,16) p(11)] residual_call [OF lay a(19,10,18)])
      (use p cp cp(2) [unfolded mult.commute [of 3]] in simp_all)
qed

definition fits :: "GPT2Config \<Rightarrow> nat list \<Rightarrow> nat \<Rightarrow> nat \<Rightarrow> bool" where
  "fits cfg inp B T \<longleftrightarrow>
     ints_fit cfg B T \<and> T \<le> max_seq_len cfg \<and> B * T \<le> length inp \<and>
     list_all (\<lambda>x. x < vocab_size cfg) (take (B * T) inp)"

lemma gpt2_calls_ok:
  assumes "fits cfg inp B T" and dj: "act_block cfg B T A \<inter> param_block cfg P = {}"
  shows "list_all (call_ok (act_block cfg B T A) (param_block cfg P))
    (gpt2_calls F cfg (malloc_and_point_parameters P (param_sizes cfg))
      (malloc_and_point_activations A (act_sizes cfg B T)) inp B T)"
proof -
  let ?C = "channels cfg" and ?V = "vocab_size cfg" and ?L = "num_layers cfg"
  let ?a = "\<lambda>i. point_tensors A (act_sizes cfg B T) ! i"
  let ?p = "\<lambda>i. point_tensors P (param_sizes cfg) ! i"
  let ?h = "home (areas cfg B T A P)"
  note lay = layout_areas [OF dj] and sz = act_sizes_eq param_sizes_def Let_def
  have ints: "ints_fit cfg B T" and L: "?L - 1 < ?L" and T: "T * ?C \<le> max_seq_len cfg * ?C"
    using assms(1) by (auto simp: fits_def ints_fit_def)
  note cp = call_products [OF ints]
  have tok: "inp ! j < ?V" if "j < B * T" for j
    using assms(1) that unfolding fits_def list_all_length by simp
  have a: "?h {0} (region (?a 0) (B * T * ?C))" "?h {17} (region (?a 17) (B * T * ?C))"
    "?h {18} (region (?a 18) (B * T))" "?h {19} (region (?a 19) (B * T))"
    "?h {20} (region (?a 20) (B * T * ?V))" "?h {21} (region (?a 21) (B * T * ?V))"
    by (rule act_home1; simp add: sz)+
  have r: "?h {16} (region (?a 16 + (?L - 1) * B * T * ?C) (B * T * ?C))"
    by (rule act_home [OF _ _ L]) (simp_all add: sz mult_ac)
  have p: "?h {23} (region (?p 0) (?V * ?C))" "?h {23} (region (?p 1) (T * ?C))"
    "?h {23} (region (?p 14) ?C)" "?h {23} (region (?p 15) ?C)"
    by (rule param_home1; use T in \<open>simp add: sz\<close>)+
  have "mul_fits [?L, B, T, ?C]"
    using act_products [OF ints] by (simp add: act_factors_def Let_def)
  then have last: "list_all mul_fits [[?L - 1, B, T, ?C]]"
    by (auto intro: mul_fits_mono)
  have "list_all (call_ok (act_block cfg B T A) (param_block cfg P))
      (last_calls F cfg (malloc_and_point_parameters P (param_sizes cfg))
        (malloc_and_point_activations A (act_sizes cfg B T)) B T)"
    unfolding last_calls_def Let_def list.pred_inject tensor_sel if_not_P [OF L [THEN gr_implies_not_zero]]
    by (intro conjI TrueI call_ok_guarded [OF last] layernorm_call [OF lay a(2,3,4) r p(3,4)]
        matmul_call [OF lay a(5,2) p(1)] softmax_call [OF lay a(6,5)]) (use cp in simp_all)
  moreover have "call_ok (act_block cfg B T A) (param_block cfg P)
      (\<lambda>wc s. encoder_forward F wc s (?a 0) inp (?p 0) (?p 1) B T ?C)"
    by (rule encoder_call [OF lay a(1) p(1,2) _ tok]) (use cp in simp_all)
  ultimately show ?thesis
    using layer_calls_ok [OF _ ints dj, where F = F]
    by (auto simp: gpt2_calls_def tensor_sel list_all_iff)
qed

lemma length_gpt2_calls: "length (gpt2_calls F cfg ps as inp B T) = 10 * num_layers cfg + 4"
  by (simp add: gpt2_calls_def last_calls_def layer_calls_def Let_def length_concat comp_def sum_list_triv)

text \<open>The threads that one forward pass may add to the table.\<close>

definition pass_threads :: "GPT2Config \<Rightarrow> nat" where
  "pass_threads cfg = 3 * (10 * num_layers cfg + 4)"

definition model_at :: "nat \<Rightarrow> GPT2 \<Rightarrow> bool" where
  "model_at P model \<longleftrightarrow>
     params model = malloc_and_point_parameters P (param_sizes (config model)) \<and> params_memory model = P"

text \<open>One memory for all numbers of workers and schedules, equal outside the activations.\<close>

lemma gpt2_forward_any:
  fixes F :: "'f float_ops"
  assumes "fits (config model) inp B T" "model_at P model"
    and "act_block (config model) B T A \<inter> param_block (config model) P = {}"
  obtains model' and p :: "('f, unit) prog" where
    "\<And>a m. a \<notin> act_block (config model) B T A \<Longrightarrow> exec p m a = m a"
    "\<And>wc sched ts m. all_dead ts \<Longrightarrow> length ts + pass_threads (config model) \<le> MAX_THREADS \<Longrightarrow>
       \<exists>ts'. gpt2_forward F wc sched A imem model inp B T (ts, m) = Done (model', ts @ ts', exec p m) \<and>
             length ts' \<le> pass_threads (config model) \<and> all_dead (ts @ ts')"
    "config model' = config model" "params model' = params model" "params_memory model' = P"
    "acts model' = malloc_and_point_activations A (act_sizes (config model) B T)"
proof -
  let ?cs = "gpt2_calls F (config model) (params model)
      (malloc_and_point_activations A (act_sizes (config model) B T)) inp B T"
  have "list_all (call_ok (act_block (config model) B T A) (param_block (config model) P)) ?cs"
    using gpt2_calls_ok [OF assms(1,3)] assms(2) by (simp add: model_at_def)
  from run_calls_ok [OF this] obtain p where p:
    "safe (act_block (config model) B T A) (param_block (config model) P) (p :: ('f, unit) prog)"
    "\<And>wc sched ts m. all_dead ts \<Longrightarrow> length ts + 3 * length ?cs \<le> MAX_THREADS \<Longrightarrow>
       \<exists>ts'. run_calls wc sched ?cs (ts, m) = Done (ts @ ts', exec p m) \<and>
             length ts' \<le> 3 * length ?cs \<and> all_dead (ts @ ts')" by blast
  let ?m = "model\<lparr>acts := malloc_and_point_activations A (act_sizes (config model) B T),
      acts_memory := Some A, num_activations := int_count (sum_list (act_sizes (config model) B T)),
      batch_size := B, seq_len := T, inputs := take (B * T) inp, inputs_memory := Some imem\<rparr>"
  show ?thesis
  proof (rule that [of p ?m])
    show "exec p m a = m a" if "a \<notin> act_block (config model) B T A" for a m
      using exec_frame [OF p(1)] that by blast
    fix wc sched and ts :: "(nat \<Rightarrow> ('f, unit) prog) thread list" and m :: "'f mem"
    assume "all_dead ts" "length ts + pass_threads (config model) \<le> MAX_THREADS"
    with p(2) [of ts wc sched m] show "\<exists>ts'. gpt2_forward F wc sched A imem model inp B T (ts, m) =
        Done (?m, ts @ ts', exec p m) \<and> length ts' \<le> pass_threads (config model) \<and> all_dead (ts @ ts')"
      using act_products [of "config model" B T] assms(1)
      by (auto simp: length_gpt2_calls pass_threads_def gpt2_forward_def fits_def int_checked_fits Let_def)
  qed (use assms(2) in \<open>simp_all add: model_at_def\<close>)
qed

end
