(* ===== verification/GptMain.thy ===== *)
theory GptMain
  imports GptForward Prelude
begin

text \<open>
  The program around the model in \<open>gpt.c\<close>: reading a checkpoint, the command line, sampling the
  next token, and \<open>main\<close>.  A run prints the same tokens for every \<open>GPT_WORKERS\<close> and every schedule,
  and never runs out of thread slots for models of up to 14 layers.
\<close>

subsection \<open>Reading a checkpoint\<close>

definition model_path :: "string option \<Rightarrow> bool \<Rightarrow> string" where
  "model_path env readable =
     (case env of
        Some e \<Rightarrow> if e \<noteq> [] then e
                 else if readable then ''gpt2_124M.bin''
                 else ''/Users/persoanima/Downloads/gpt2_124M.bin''
      | None \<Rightarrow> if readable then ''gpt2_124M.bin''
                else ''/Users/persoanima/Downloads/gpt2_124M.bin'')"

text \<open>Integer \<open>i\<close> of the header; what a short file does not fill keeps the value \<open>junk i\<close>.\<close>

definition header_int :: "(nat \<Rightarrow> int) \<Rightarrow> bytes \<Rightarrow> nat \<Rightarrow> int" where
  "header_int junk bs i = (if 4 * i + 4 \<le> length bs then sint (get32 bs (4 * i)) else junk i)"

definition header_config :: "(nat \<Rightarrow> int) \<Rightarrow> bytes \<Rightarrow> GPT2Config" where
  "header_config junk bs =
     \<lparr>max_seq_len = nat (header_int junk bs 2), vocab_size = nat (header_int junk bs 3),
      num_layers = nat (header_int junk bs 4), num_heads = nat (header_int junk bs 5),
      channels = nat (header_int junk bs 6)\<rparr>"

text \<open>The sizes are computed in \<open>int\<close>: a negative number or a product that does not fit is outside
  the language.\<close>

definition sizes_defined :: "(nat \<Rightarrow> int) \<Rightarrow> bytes \<Rightarrow> bool" where
  "sizes_defined junk bs \<longleftrightarrow>
     list_all (\<lambda>i. 0 \<le> header_int junk bs i) [2, 3, 4, 5, 6] \<and>
     4 * channels (header_config junk bs) \<le> INT_MAX \<and>
     list_all (\<lambda>s. s \<le> INT_MAX) (param_sizes (header_config junk bs))"

text \<open>\<open>fread\<close> of \<open>n\<close> floats behind the header into the block at \<open>P\<close>: those the file has.  \<open>fbits\<close> is the
  float with the given bits.\<close>

definition read_params :: "(u32 \<Rightarrow> 'f) \<Rightarrow> bytes \<Rightarrow> nat \<Rightarrow> nat \<Rightarrow> 'f mem \<Rightarrow> 'f mem" where
  "read_params fbits bs P n m =
     (let k = min n ((length bs - 1024) div 4) in
      (\<lambda>a. if P \<le> a \<and> a < P + k then fbits (get32 bs (1024 + 4 * (a - P))) else m a))"

datatype 'f built = Build_exit string | Build_undefined | Built GPT2 "'f mem"

definition gpt2_build_from_checkpoint ::
  "(u32 \<Rightarrow> 'f) \<Rightarrow> (nat \<Rightarrow> int) \<Rightarrow> nat \<Rightarrow> bytes option \<Rightarrow> 'f mem \<Rightarrow> 'f built" where
  "gpt2_build_from_checkpoint fbits junk P file m =
     (case file of
        None \<Rightarrow> Build_exit ''Error opening model file\<newline>''
      | Some bs \<Rightarrow>
          if header_int junk bs 0 \<noteq> 20240326 then Build_exit ''Bad magic model file''
          else if header_int junk bs 1 \<noteq> 1 then Build_exit ''Bad version in model file''
          else if \<not> sizes_defined junk bs then Build_undefined
          else
            (let cfg = header_config junk bs; sizes = param_sizes cfg in
             Built \<lparr>config = cfg, params = malloc_and_point_parameters P sizes, params_memory = P,
                    num_parameters = int_count (sum_list sizes), grads_memory = None, m_memory = None, v_memory = None,
                    acts = malloc_and_point_activations 0 (replicate 23 0), acts_memory = None,
                    num_activations = 0, grads_acts_memory = None, batch_size = 0, seq_len = 0, inputs = [],
                    inputs_memory = None, targets = None\<rparr>
               (read_params fbits bs P (sum_list sizes) m)))"

subsection \<open>Tokens\<close>

text \<open>\<open>parse_token\<close>.  When \<open>strtol\<close> sets \<open>errno\<close> its value is \<open>LONG_MIN\<close> or \<open>LONG_MAX\<close>, which the range
  test rejects as well.\<close>

definition parse_token :: "string \<Rightarrow> nat \<Rightarrow> nat option" where
  "parse_token s V =
     (case strtol s of (value, rest) \<Rightarrow>
        if rest \<noteq> [] \<or> value < 0 \<or> value \<ge> int V then None else Some (nat value))"

definition GPT2_EOT :: nat where "GPT2_EOT = 50256"

primrec parse_tokens :: "nat \<Rightarrow> string list \<Rightarrow> nat list \<Rightarrow> nat list option" where
  "parse_tokens V argv [] = Some []"
| "parse_tokens V argv (i # is) =
     (if i + 1 < length argv
      then (case parse_token (argv ! (i + 1)) V of
              None \<Rightarrow> None
            | Some x \<Rightarrow> (case parse_tokens V argv is of None \<Rightarrow> None | Some xs \<Rightarrow> Some (x # xs)))
      else (case parse_tokens V argv is of None \<Rightarrow> None | Some xs \<Rightarrow> Some (GPT2_EOT # xs)))"

primrec sample_loop :: "'f float_ops \<Rightarrow> 'f \<Rightarrow> (nat \<Rightarrow> 'f) \<Rightarrow> 'f \<Rightarrow> nat list \<Rightarrow> nat option" where
  "sample_loop F coin pr cdf [] = None"
| "sample_loop F coin pr cdf (i # is) =
     (let cdf = fadd F cdf (pr i) in
      if fgt F cdf coin then Some i else sample_loop F coin pr cdf is)"

definition sample_mult :: "'f float_ops \<Rightarrow> (nat \<Rightarrow> 'f) \<Rightarrow> nat \<Rightarrow> int" where
  "sample_mult F pr n =
     (case sample_loop F (flit F 5 (-1)) pr (fzero F) [0..<n] of
        Some i \<Rightarrow> int i | None \<Rightarrow> int n - 1)"

subsection \<open>\<open>main\<close>\<close>

text \<open>How a run ends, with what it has printed: \<open>exit\<close>, a failed assertion, undefined behaviour.\<close>

datatype run_end = Exit nat "string list" | Aborted "string list" | Undefined

text \<open>The loop that generates tokens \<open>t\<close>, whose product \<open>(t - 1) * V\<close> is less than the size of
  \<open>logits\<close>; \<open>A t\<close> and \<open>IA t\<close> are the addresses of the activations and of the copy of the inputs,
  \<open>sched t\<close> gives the schedules of the calls.\<close>

primrec gen_loop ::
  "'f float_ops \<Rightarrow> nat \<Rightarrow> (nat \<Rightarrow> nat \<Rightarrow> nat list) \<Rightarrow> (nat \<Rightarrow> nat) \<Rightarrow> (nat \<Rightarrow> nat) \<Rightarrow> nat list \<Rightarrow>
   GPT2 \<Rightarrow> nat list \<Rightarrow> 'f machine \<Rightarrow> string list \<Rightarrow> run_end" where
  "gen_loop F wc sched A IA [] model tokens mc out = Exit 0 out"
| "gen_loop F wc sched A IA (t # ts) model tokens mc out =
     (case gpt2_forward F wc (sched t) (A t) (IA t) model tokens 1 t mc of
        Assert_failed \<Rightarrow> Aborted out
      | Undef \<Rightarrow> Undefined
      | Done (model, mc) \<Rightarrow>
          let pr = probs (acts model) + (t - 1) * vocab_size (config model);
              next_token = sample_mult F (\<lambda>i. snd mc (pr + i)) (vocab_size (config model));
              tokens = tokens[t := nat next_token] in
          gen_loop F wc sched A IA ts model tokens mc (out @ [show_int next_token @ ''\<newline>'']))"

definition token_limit :: nat where "token_limit = 10"

definition gpt_main ::
  "'f float_ops \<Rightarrow> string option \<Rightarrow> 'f built \<Rightarrow> string list \<Rightarrow> (nat \<Rightarrow> nat \<Rightarrow> nat list) \<Rightarrow> (nat \<Rightarrow> nat) \<Rightarrow>
   (nat \<Rightarrow> nat) \<Rightarrow> run_end" where
  "gpt_main F env built argv sched A IA =
     (let wc = parse_worker_count env; argc = length argv in
      case built of
        Build_exit msg \<Rightarrow> Exit 1 [msg]
      | Build_undefined \<Rightarrow> Undefined
      | Built model m \<Rightarrow>
          if argc = 1 then Exit 1 [''Provide at least one token.\<newline>'']
          else if argc > token_limit then Exit 1 [''Tow many tokens.\<newline>'']
          else if argc = 0 then Undefined
          else
            (case parse_tokens (vocab_size (config model)) argv [0..<token_limit] of
               None \<Rightarrow> Exit 1 [''Invalid token.\<newline>'']
             | Some tokens \<Rightarrow>
                 gen_loop F wc sched A IA [argc - 1..<token_limit] model tokens ([], m) []))"

subsection \<open>Lemmas\<close>

lemma sample_loop_in: "sample_loop F coin pr cdf is = Some i \<Longrightarrow> i \<in> set is"
  by (induction "is" arbitrary: cdf) (auto simp: Let_def split: if_splits)

lemma sample_mult_range:
  assumes "0 < n"
  shows "0 \<le> sample_mult F pr n" "sample_mult F pr n < int n"
  using assms sample_loop_in [of F _ pr _ "[0..<n]"]
  by (fastforce simp: sample_mult_def split: option.split)+

lemma parse_token_range: "parse_token s V = Some x \<Longrightarrow> x < V"
  by (auto simp: parse_token_def split: prod.splits if_splits)

lemma parse_tokens_length: "parse_tokens V argv is = Some xs \<Longrightarrow> length xs = length is"
  by (induction "is" arbitrary: xs) (auto split: if_splits option.splits)

lemma parse_tokens_range:
  "parse_tokens V argv is = Some xs \<Longrightarrow> j < length is \<Longrightarrow> is ! j + 1 < length argv \<Longrightarrow> xs ! j < V"
proof (induction "is" arbitrary: xs j)
  case (Cons i "is")
  then show ?case
    by (cases j) (auto split: if_splits option.splits dest: parse_token_range)
qed simp

lemma gen_loop_any:
  fixes F :: "'f float_ops" and m :: "'f mem"
  assumes "model_at P model" and cfg: "config model = cfg"
    and apart: "\<And>t. act_block cfg 1 t (A t) \<inter> param_block cfg P = {}"
    and ints: "\<And>t. 0 < t \<Longrightarrow> t \<le> 9 \<Longrightarrow> ints_fit cfg 1 t"
    and ok: "0 < t" "9 \<le> max_seq_len cfg" "0 < vocab_size cfg"
    and tok: "length tokens = 10" "list_all (\<lambda>x. x < vocab_size cfg) (take t tokens)" and t: "t \<le> 10"
  shows "\<exists>out. length out = 10 - t \<and> list_all (\<lambda>x. 0 \<le> x \<and> x < int (vocab_size cfg)) out \<and>
    (\<forall>wc sched ts out0. all_dead ts \<and> length ts + (10 - t) * pass_threads cfg \<le> MAX_THREADS \<longrightarrow>
       gen_loop F wc sched A IA [t..<10] model tokens (ts, m) out0 =
       Exit 0 (out0 @ map (\<lambda>x. show_int x @ ''\<newline>'') out))"
  using assms
proof (induction "10 - t" arbitrary: t model tokens m)
  case 0
  then show ?case by (intro exI [of _ "[]"]) simp
next
  case (Suc k)
  then have t: "t < 10" by simp
  have "take (1 * t) tokens = take t tokens" by simp
  with Suc.prems t have fit: "fits (config model) tokens 1 t" by (simp add: fits_def)
  from gpt2_forward_any [where F = F and A = "A t" and imem = "IA t", OF fit Suc.prems(1)] Suc.prems(2,3) obtain model' p where
    p: "\<And>wc sched ts m. all_dead ts \<Longrightarrow> length ts + pass_threads cfg \<le> MAX_THREADS \<Longrightarrow>
       \<exists>ts'. gpt2_forward F wc sched (A t) (IA t) model tokens 1 t (ts, m) =
         Done (model', ts @ ts', exec (p :: ('f, unit) prog) m) \<and>
             length ts' \<le> pass_threads cfg \<and> all_dead (ts @ ts')"
    and m': "config model' = cfg" "params model' = params model" "params_memory model' = P"
    by metis
  define nx where "nx = sample_mult F
    (\<lambda>i. exec p m (probs (acts model') + (t - 1) * vocab_size cfg + i)) (vocab_size cfg)"
  have nx: "0 \<le> nx" "nx < int (vocab_size cfg)"
    using sample_mult_range Suc.prems(7) by (auto simp: nx_def)
  have at': "model_at P model'" using Suc.prems(1,2) m' by (simp add: model_at_def)
  have "list_all (\<lambda>x. x < vocab_size cfg) (take (Suc t) (tokens[t := nat nx]))"
    using Suc.prems(8,9) t nx by (simp add: take_Suc_conv_app_nth)
  moreover have "k = 10 - Suc t" "length (tokens[t := nat nx]) = 10" "Suc t \<le> 10"
    using Suc(2) Suc.prems(8) t by simp_all
  ultimately have "\<exists>out. length out = 10 - Suc t \<and>
      list_all (\<lambda>x. 0 \<le> x \<and> x < int (vocab_size cfg)) out \<and>
    (\<forall>wc sched ts out0. all_dead ts \<and> length ts + (10 - Suc t) * pass_threads cfg \<le> MAX_THREADS \<longrightarrow>
       gen_loop F wc sched A IA [Suc t..<10] model' (tokens[t := nat nx]) (ts, exec p m) out0 =
       Exit 0 (out0 @ map (\<lambda>x. show_int x @ ''\<newline>'') out))"
    using Suc(1) [of "Suc t", OF _ at' m'(1) Suc.prems(3,4) _ Suc.prems(6,7)] by blast
  then obtain out where out: "length out = 10 - Suc t" "list_all (\<lambda>x. 0 \<le> x \<and> x < int (vocab_size cfg)) out"
    "\<And>wc sched ts out0. all_dead ts \<Longrightarrow> length ts + (10 - Suc t) * pass_threads cfg \<le> MAX_THREADS \<Longrightarrow>
       gen_loop F wc sched A IA [Suc t..<10] model' (tokens[t := nat nx]) (ts, exec p m) out0 =
       Exit 0 (out0 @ map (\<lambda>x. show_int x @ ''\<newline>'') out)"
    by blast
  show ?case
  proof (intro exI [of _ "nx # out"] conjI allI impI)
    show "length (nx # out) = 10 - t" using out(1) t by simp
    show "list_all (\<lambda>x. 0 \<le> x \<and> x < int (vocab_size cfg)) (nx # out)" using out(2) nx by simp
    fix wc sched and ts :: "(nat \<Rightarrow> ('f, unit) prog) thread list" and out0
    assume a: "all_dead ts \<and> length ts + (10 - t) * pass_threads cfg \<le> MAX_THREADS"
    have "10 - t = Suc (10 - Suc t)" using t by simp
    with a have room: "length ts + pass_threads cfg + (10 - Suc t) * pass_threads cfg \<le> MAX_THREADS"
      by simp
    then have "length ts + pass_threads cfg \<le> MAX_THREADS" by simp
    from p [OF conjunct1 [OF a] this, of wc "sched t" m] obtain ts' where
      f: "gpt2_forward F wc (sched t) (A t) (IA t) model tokens 1 t (ts, m) = Done (model', ts @ ts', exec p m)"
        "length ts' \<le> pass_threads cfg" "all_dead (ts @ ts')" by blast
    have "length (ts @ ts') + (10 - Suc t) * pass_threads cfg \<le> MAX_THREADS" using f(2) room by simp
    from out(3) [OF f(3) this] f(1) t m'(1)
    show "gen_loop F wc sched A IA [t..<10] model tokens (ts, m) out0 =
        Exit 0 (out0 @ map (\<lambda>x. show_int x @ ''\<newline>'') (nx # out))"
      by (simp add: upt_conv_Cons nx_def Let_def)
  qed
qed

end
