(* ===== verification/GptCorrect.thy ===== *)
theory GptCorrect
  imports GptMain
begin

text \<open>
  The properties of \<open>gpt.c\<close>: its output does not depend on the threads, a parallel loop is the
  sequential loop, the tensors tile their blocks, attention is causal, matrix multiplication is
  the dot product, and what \<open>parse_token\<close> accepts.
\<close>

subsection \<open>What a loop leaves in the cells of one iteration\<close>

lemma exec_agree:
  assumes "safe W R p" "\<And>a. a \<in> W \<union> R \<Longrightarrow> m a = m' a" "a \<in> W"
  shows "exec p m a = exec p m' a"
  using assms unfolding exec_def
proof (induction p arbitrary: m m')
  case (Rd b k)
  from Rd.prems(1,2) have eq: "m b = m' b" and "safe W R (k (m b))" by auto
  then have "snd (run (k (m b)) m) a = snd (run (k (m b)) m') a"
    using Rd.IH [OF rangeI, of "m b" m m'] Rd.prems(2,3) by blast
  then show ?case by (simp only: run.simps eq)
next
  case (Wr b v p)
  from Wr.prems(1) have "safe W R p" by simp
  moreover have "(m(b := v)) c = (m'(b := v)) c" if "c \<in> W \<union> R" for c
    using Wr.prems(2) that by simp
  ultimately have "snd (run p (m(b := v))) a = snd (run p (m'(b := v))) a"
    using Wr.IH Wr.prems(3) by blast
  then show ?case by simp
qed simp

lemma exec_for_list_Cons:
  "exec (for_list (i # is) (\<lambda>i _. body i) ()) m = exec (for_list is (\<lambda>i _. body i) ()) (exec (body i) m)"
  by (simp add: exec_def run_bnd split: prod.split)

lemma for_list_frame:
  assumes rw: "row_wise n body W R" and "r < n" "set is \<subseteq> {..<n}" "r \<notin> set is" "a \<in> W r"
  shows "exec (for_list is (\<lambda>i _. body i) ()) m a = m a"
  using assms(3,4)
proof (induction "is" arbitrary: m)
  case (Cons i "is")
  then have i: "i < n" "i \<noteq> r" by auto
  with rw assms(2) have "safe (W i) R (body i)" "W i \<inter> W r = {}" unfolding row_wise_def by blast+
  with assms(5) have "exec (body i) m a = m a" using exec_frame by blast
  with Cons show ?case by (simp only: exec_for_list_Cons) simp
qed (simp add: exec_def)

lemma row_value:
  assumes rw: "row_wise n body W R" and "r < n" "a \<in> W r"
  shows "exec (for_each 0 n body) m a = exec (body r) m a"
proof -
  have "exec (for_list is (\<lambda>i _. body i) ()) m a = exec (body r) m a"
    if "distinct is" "set is \<subseteq> {..<n}" "r \<in> set is" for "is" m
    using that
  proof (induction "is" arbitrary: m)
    case (Cons i "is")
    show ?case
    proof (cases "i = r")
      case True
      with for_list_frame [OF rw assms(2) _ _ assms(3), of "is" "exec (body r) m"] Cons.prems show ?thesis
        by (simp only: exec_for_list_Cons) simp
    next
      case False
      then have "exec (for_list is (\<lambda>i _. body i) ()) (exec (body i) m) a = exec (body r) (exec (body i) m) a"
        using Cons.prems by (intro Cons.IH) auto
      then have "exec (for_list (i # is) (\<lambda>i _. body i) ()) m a = exec (body r) (exec (body i) m) a"
        by (simp only: exec_for_list_Cons)
      also have "\<dots> = exec (body r) m a"
      proof (rule exec_agree [OF _ _ assms(3)])
        show "safe (W r) R (body r)" using rw assms(2) unfolding row_wise_def by blast
        fix c assume c: "c \<in> W r \<union> R"
        have i: "i < n" using Cons.prems(2) by simp
        then have "safe (W i) R (body i)" "W i \<inter> R = {}" "W i \<inter> W r = {}"
          using rw assms(2) False unfolding row_wise_def by blast+
        with c have "safe (W i) R (body i)" "c \<notin> W i" by auto
        then show "exec (body i) m c = m c" using exec_frame by blast
      qed
      finally show ?thesis .
    qed
  qed simp
  from this [of "[0..<n]" m] assms(2) show ?thesis
    by (simp add: for_each_def for_loop_def lessThan_atLeast0)
qed

subsection \<open>Parallel loops\<close>

text \<open>A loop that overflows, whatever its body.\<close>

lemma parallel_for_overflow:
  assumes "INT_MAX < n + crew wc n - 1"
  shows "parallel_for wc 0 n fn sched (ts, m) = Undef"
proof -
  from assms have "0 < n" by (cases n) (auto simp: crew_def Let_def)
  with assms slices_fit0 [OF crew_range(1) [OF this, of wc], of n] show ?thesis
    by (simp add: parallel_for_def Let_def)
qed

text \<open>
  C4: A parallel loop whose iterations do not conflict gives, for every number of workers and every
  interleaving of the single loads and stores of the threads, the memory of the sequential loop;
  it adds fewer than four threads to the table, and all of them have ended.  The one exception is a
  loop so long that its length and the number of its threads, less one, exceed an \<open>int\<close>, which
  overflows.
\<close>
theorem parallel_for_sequential:
  assumes "row_wise n body W R" "all_dead ts" "length ts + 3 \<le> MAX_THREADS"
  shows "\<exists>ts'. parallel_for wc 0 n (\<lambda>b e. for_each b e body) sched (ts, m) =
      (if n + crew wc n - 1 \<le> INT_MAX then Done (ts @ ts', exec (for_each 0 n body) m) else Undef) \<and>
    length ts' \<le> 3 \<and> all_dead (ts @ ts')"
proof (cases "n + crew wc n - 1 \<le> INT_MAX")
  case True
  have "length ts + spawned wc n \<le> MAX_THREADS" using assms(3) spawned_le [of wc n] by linarith
  moreover have "slices_fit 0 n (crew wc n)" if "0 < n"
    using True slices_fit0 [OF crew_range(1) [OF that, of wc], of n] by simp
  ultimately obtain ts' where "parallel_for wc 0 n (\<lambda>b e. for_each b e body) sched (ts, m) =
      Done (ts @ ts', exec (for_each 0 n body) m)" "length ts' = spawned wc n" "all_dead (ts @ ts')"
    using parallel_for_rows [OF assms(1,2), of wc sched m] by blast
  with True spawned_le [of wc n] show ?thesis by (intro exI [of _ ts']) simp
next
  case False
  with assms(2) show ?thesis by (intro exI [of _ "[]"]) (simp add: parallel_for_overflow)
qed

definition int_ops :: "int float_ops" where
  "int_ops = \<lparr>fadd = (+), fsub = (-), fmul = (*), fdiv = (div), fgt = (>), feq = (=),
     flit = (\<lambda>m e. m), fsqrt = (\<lambda>x. x), fexp = (\<lambda>x. x), ftanh = (\<lambda>x. x), two_over_pi = 1\<rparr>"

lemma parallel_for_sequential_witness:
  "\<exists>ts'. parallel_for 3 0 5
      (\<lambda>b e. for_each b e (residual_row int_ops \<lparr>re_out = 10, re_inp1 = 0, re_inp2 = 5\<rparr>))
      [2, 0, 1, 1, 2] ([], int) =
    Done (ts', exec (for_each 0 5 (residual_row int_ops \<lparr>re_out = 10, re_inp1 = 0, re_inp2 = 5\<rparr>)) int) \<and>
    length ts' \<le> 3 \<and> all_dead ts'"
proof -
  have "row_wise 5 (residual_row int_ops \<lparr>re_out = 10, re_inp1 = 0, re_inp2 = 5\<rparr>) (\<lambda>r. {10 + r})
      (region 0 5 \<union> region 5 5)"
    using residual_rows [of "\<lparr>re_out = 10, re_inp1 = 0, re_inp2 = 5\<rparr>" 5 int_ops] by (fastforce simp: region_def)
  from parallel_for_sequential [OF this, of "[]" 3 "[2, 0, 1, 1, 2]" int] show ?thesis
    by (simp add: all_dead_def MAX_THREADS_def crew_def MAX_WORKERS_def INT_MAX_def)
qed

lemma run_load: "run (load a) m = (m a, m)"
  by (simp add: load_def)

lemma run_store: "run (store a v) m = ((), m(a := v))"
  by (simp add: store_def)

lemma run_dot:
  "run (for_list is (\<lambda>i val. bnd (load (x + i)) (\<lambda>u. bnd (load (y + i)) (\<lambda>v. Ret (g val u v)))) s) m =
   (foldl (\<lambda>val i. g val (m (x + i)) (m (y + i))) s is, m)"
  by (induction "is" arbitrary: s) (simp_all add: run_bnd run_load)

lemma matmul_value:
  assumes "c < mm_OC a"
  shows "exec (matmul_row F a (row * mm_OC a + c)) m (mm_out a + row * mm_OC a + c) =
    foldl (\<lambda>v i. fadd F v (fmul F (m (mm_inp a + row * mm_C a + i)) (m (mm_weight a + c * mm_C a + i))))
      (case mm_bias a of Some q \<Rightarrow> m (q + c) | None \<Rightarrow> fzero F) [0..<mm_C a]"
proof -
  have ix: "(row * mm_OC a + c) div mm_OC a = row" "(row * mm_OC a + c) mod mm_OC a = c"
    using assms by simp_all
  show ?thesis
    unfolding matmul_row_def Let_def ix exec_def for_loop_def
    by (cases "mm_bias a") (simp_all add: run_bnd run_load run_dot run_store)
qed

text \<open>
  C33: When the sizes of its output, input and weight fit in an \<open>int\<close>, the output with room for the
  three that the rounding of the span adds, \<open>matmul_forward\<close> computes every output as the dot product
  of an input row and a weight row, added to the bias or to zero in the order of the channels, for
  every number of workers and every schedule, and changes nothing else.
\<close>
theorem matmul_forward_correct:
  fixes F :: "'f float_ops" and m :: "'f mem"
  assumes "disjoint_sets [region out (B * T * OC),
      matmul_reads \<lparr>mm_out = out, mm_inp = inp, mm_weight = w, mm_bias = b, mm_T = T, mm_C = C, mm_OC = OC\<rparr> (B * T)]"
    and "all_dead ts" "length ts + 3 \<le> MAX_THREADS"
    and ints: "mul_fits [B, T, OC]" "mul_fits [B, T, C]" "mul_fits [OC, C]" "B * T * OC + 3 \<le> INT_MAX"
  shows "\<exists>ts' m'. matmul_forward F wc sched out inp w b B T C OC (ts, m) = Done (ts @ ts', m') \<and>
    (\<forall>row < B * T. \<forall>c < OC. m' (out + row * OC + c) =
       foldl (\<lambda>v i. fadd F v (fmul F (m (inp + row * C + i)) (m (w + c * C + i))))
         (case b of Some q \<Rightarrow> m (q + c) | None \<Rightarrow> fzero F) [0..<C]) \<and>
    (\<forall>a. a \<notin> region out (B * T * OC) \<longrightarrow> m' a = m a)"
proof -
  define a where "a = \<lparr>mm_out = out, mm_inp = inp, mm_weight = w, mm_bias = b, mm_T = T, mm_C = C, mm_OC = OC\<rparr>"
  have sel: "mm_out a = out" "mm_inp a = inp" "mm_weight a = w" "mm_bias a = b" "mm_C a = C" "mm_OC a = OC"
    by (simp_all add: a_def)
  have rw: "row_wise (B * T * OC) (matmul_row F a) (\<lambda>r. {out + r}) (matmul_reads a (B * T))"
    using matmul_rows [of a "B * T" F] assms(1) by (simp add: sel a_def [symmetric])
  have "length ts + spawned wc (B * T * OC) \<le> MAX_THREADS"
    using assms(3) spawned_le [of wc "B * T * OC"] by linarith
  from parallel_for_rows [OF rw assms(2) this slices_fit_any [OF _ ints(4)], of sched m] obtain ts' where
    "parallel_for wc 0 (B * T * OC) (\<lambda>b e. for_each b e (matmul_row F a)) sched (ts, m) =
      Done (ts @ ts', exec (for_each 0 (B * T * OC) (matmul_row F a)) m)" by blast
  moreover have "list_all mul_fits ([B, T, OC] # concat (map (matmul_products a) [0..<B * T * OC]))"
    using matmul_ints [of B T a] ints(1-3) by (simp add: sel)
  ultimately have run: "matmul_forward F wc sched out inp w b B T C OC (ts, m) =
      Done (ts @ ts', exec (for_each 0 (B * T * OC) (matmul_row F a)) m)"
    unfolding matmul_forward_def range_fns Let_def a_def [symmetric] by (simp only: int_checked_fits)
  have val: "exec (for_each 0 (B * T * OC) (matmul_row F a)) m (out + row * OC + c) =
       foldl (\<lambda>v i. fadd F v (fmul F (m (inp + row * C + i)) (m (w + c * C + i))))
         (case b of Some q \<Rightarrow> m (q + c) | None \<Rightarrow> fzero F) [0..<C]" if "row < B * T" "c < OC" for row c
    using row_value [OF rw cell_lt [OF that], of "out + (row * OC + c)" m] matmul_value [of c a F row m] that(2)
    by (simp add: sel add.assoc)
  have frame: "exec (for_each 0 (B * T * OC) (matmul_row F a)) m c = m c"
    if "c \<notin> region out (B * T * OC)" for c
    by (rule exec_frame [OF row_wise_safe [OF rw]]) (use that in \<open>auto simp: region_def\<close>)
  show ?thesis using run val frame by blast
qed

lemma matmul_forward_correct_witness:
  "\<exists>ts' m'. matmul_forward int_ops 2 [0, 1, 0] 100 0 10 (Some 30) 1 2 3 2 ([], int) = Done ([] @ ts', m') \<and>
     m' (100 + 1 * 2 + 1) = 31 + 3 * 13 + 4 * 14 + 5 * 15"
proof -
  have d: "disjoint_sets [region 100 (1 * 2 * 2), matmul_reads
      \<lparr>mm_out = 100, mm_inp = 0, mm_weight = 10, mm_bias = Some 30, mm_T = 2, mm_C = 3, mm_OC = 2\<rparr> (1 * 2)]"
    by (auto simp: matmul_reads_def region_def)
  from matmul_forward_correct [OF d, of "[]" int_ops 2 "[0, 1, 0]" int]
  obtain ts' m' where
    r: "matmul_forward int_ops 2 [0, 1, 0] 100 0 10 (Some 30) 1 2 3 2 ([], int) = Done ([] @ ts', m')"
    "\<forall>row < 1 * 2. \<forall>c < 2. m' (100 + row * 2 + c) =
       foldl (\<lambda>v i. fadd int_ops v (fmul int_ops (int (0 + row * 3 + i)) (int (10 + c * 3 + i))))
         (case Some 30 of Some q \<Rightarrow> int (q + c) | None \<Rightarrow> fzero int_ops) [0..<3]"
    by (auto simp: all_dead_def MAX_THREADS_def mul_fits_def INT_MAX_def)
  from r(2) have "m' (100 + 1 * 2 + 1) =
       foldl (\<lambda>v i. fadd int_ops v (fmul int_ops (int (0 + 1 * 3 + i)) (int (10 + 1 * 3 + i)))) 31 [0..<3]"
    by (auto dest!: spec [of _ 1])
  then have "m' (100 + 1 * 2 + 1) = 31 + 3 * 13 + 4 * 14 + 5 * 15"
    by (simp add: int_ops_def upt_conv_Cons)
  with r(1) show ?thesis by blast
qed

subsection \<open>Attention\<close>

text \<open>
  C34: Attention is causal: what a position and a head get (the output, the row of weights, the scores
  up to the position) depends only on the rows of the input up to that position.  Two memories that
  agree on these rows give the same results, whatever the later positions hold, whatever the cells of
  the results held before, and whoever computes them; the sizes of the tensors fit in an \<open>int\<close>.
\<close>
theorem attention_causal:
  fixes F :: "'f float_ops" and m m2 :: "'f mem"
  assumes arg: "a = \<lparr>at_out = out, at_preatt = pre, at_att = at', at_inp = inp, at_T = T, at_C = C, at_NH = NH\<rparr>"
    and dj: "disjoint_sets [region out (B * T * C), region pre (B * NH * T * T), region at' (B * NH * T * T),
      region inp (B * T * (C * 3))]"
    and ints: "mul_fits [B, T, NH]" "mul_fits [B, T, C * 3]" "mul_fits [B, NH, T, T]" "mul_fits [C, 3]"
      "B * T * NH + 3 \<le> INT_MAX"
    and ts: "all_dead ts" "length ts + 3 \<le> MAX_THREADS" "all_dead ts2" "length ts2 + 3 \<le> MAX_THREADS"
    and u: "u < B * T * NH"
    and agree: "\<forall>c \<in> causal_reads a u. m c = m2 c"
  shows "\<exists>ts' r ts2' r2.
    attention_forward F wc sched out pre at' inp B T C NH (ts, m) = Done (ts', r) \<and>
    attention_forward F wc2 sched2 out pre at' inp B T C NH (ts2, m2) = Done (ts2', r2) \<and>
    (\<forall>c \<in> attention_results a u. r c = r2 c)"
proof -
  have sel: "at_out a = out" "at_preatt a = pre" "at_att a = at'" "at_inp a = inp"
    "at_T a = T" "at_C a = C" "at_NH a = NH"
    by (simp_all add: arg)
  have u': "u < B * at_T a * at_NH a" using u by (simp add: sel)
  have rw: "row_wise (B * T * NH) (attention_unit F a) (attention_area a) (region inp (B * T * (C * 3)))"
    using attention_rows [of a B F] dj by (simp add: sel)
  have fits: "list_all mul_fits ([B, T, NH] # concat (map (attention_products a) [0..<B * T * NH]))"
    using attention_ints [of B a] ints(1-4) by (simp add: sel)
  have run: "\<exists>ts'. attention_forward F wc sched out pre at' inp B T C NH (ts, m) =
      Done (ts', exec (for_each 0 (B * T * NH) (attention_unit F a)) m)"
    if "all_dead ts" "length ts + 3 \<le> MAX_THREADS" for wc sched ts and m :: "'f mem"
  proof -
    have "length ts + spawned wc (B * T * NH) \<le> MAX_THREADS"
      using that(2) spawned_le [of wc "B * T * NH"] by linarith
    from parallel_for_rows [OF rw that(1) this slices_fit_any [OF _ ints(5)], of sched m] show ?thesis
      unfolding attention_forward_def range_fns Let_def arg [symmetric] int_checked_fits [OF fits] by metis
  qed
  have "exec (for_each 0 (B * T * NH) (attention_unit F a)) m c =
      exec (for_each 0 (B * T * NH) (attention_unit F a)) m2 c" if "c \<in> attention_results a u" for c
    using inits_agree [OF attention_unit_inits [OF u'], of m m2 F] agree that
      row_value [OF rw u attention_results_area [OF u' that]] by simp
  with run [OF ts(1,2)] run [OF ts(3,4)] show ?thesis by metis
qed

lemma attention_causal_witness:
  "\<exists>ts' r ts2' r2.
    attention_forward int_ops 4 [1, 0] 0 10 20 100 1 2 1 1 ([], int) = Done (ts', r) \<and>
    attention_forward int_ops 1 [] 0 10 20 100 1 2 1 1 ([], int(0 := 5, 20 := 9, 104 := 7)) = Done (ts2', r2) \<and>
    r 0 = r2 0 \<and> r 21 = r2 21"
proof -
  let ?a = "\<lparr>at_out = 0, at_preatt = 10, at_att = 20, at_inp = 100, at_T = 2, at_C = 1, at_NH = 1\<rparr>"
  have own: "attention_results ?a 0 = {0, 10, 20, 21}" "causal_reads ?a 0 = {100, 101, 102}"
    by (auto simp: attention_results_def unit_out_def unit_line_def unit_b_def unit_t_def unit_h_def
        at_hs_def block_def region_def causal_reads_def)
  have "\<exists>ts' r ts2' r2.
    attention_forward int_ops 4 [1, 0] 0 10 20 100 1 2 1 1 ([], int) = Done (ts', r) \<and>
    attention_forward int_ops 1 [] 0 10 20 100 1 2 1 1 ([], int(0 := 5, 20 := 9, 104 := 7)) = Done (ts2', r2) \<and>
    (\<forall>c \<in> attention_results ?a 0. r c = r2 c)"
    by (rule attention_causal [OF refl])
      (auto simp: own [simplified] region_def all_dead_def MAX_THREADS_def mul_fits_def INT_MAX_def)
  then show ?thesis unfolding own by blast
qed

subsection \<open>Tensors\<close>

text \<open>
  The parameter tensors and the activation tensors are laid out without gap or overlap: the areas
  of two tensors are apart, and together they are exactly the block that was allocated.
\<close>
theorem tensors_tile:
  "(\<Union>i<16. tens P (param_sizes cfg) i) = region P (sum_list (param_sizes cfg)) \<and>
   (\<Union>i<23. tens A (act_sizes cfg B T) i) = region A (sum_list (act_sizes cfg B T)) \<and>
   (\<forall>i j. i = j \<or> tens P (param_sizes cfg) i \<inter> tens P (param_sizes cfg) j = {} \<and>
                   tens A (act_sizes cfg B T) i \<inter> tens A (act_sizes cfg B T) j = {}) \<and>
   region (logits (malloc_and_point_activations A (act_sizes cfg B T))) (B * T * vocab_size cfg) =
     tens A (act_sizes cfg B T) 20 \<and>
   region (fcprojb (malloc_and_point_parameters P (param_sizes cfg))) (num_layers cfg * channels cfg) =
     tens P (param_sizes cfg) 13"
proof (intro conjI allI)
  show "(\<Union>i<16. tens P (param_sizes cfg) i) = region P (sum_list (param_sizes cfg))"
    using tens_cover [of _ P "param_sizes cfg"] by (intro equalityI UN_least tens_sub subsetI) force
  show "(\<Union>i<23. tens A (act_sizes cfg B T) i) = region A (sum_list (act_sizes cfg B T))"
    using tens_cover [of _ A "act_sizes cfg B T"] by (intro equalityI UN_least tens_sub subsetI) force
  show "i = j \<or> tens P (param_sizes cfg) i \<inter> tens P (param_sizes cfg) j = {} \<and>
                   tens A (act_sizes cfg B T) i \<inter> tens A (act_sizes cfg B T) j = {}" for i j
    using tens_disjoint by blast
  have "param_sizes cfg ! 13 = num_layers cfg * channels cfg"
    "act_sizes cfg B T ! 20 = B * T * vocab_size cfg"
    by (simp_all add: param_sizes_def act_sizes_eq Let_def)
  then show "region (logits (malloc_and_point_activations A (act_sizes cfg B T))) (B * T * vocab_size cfg) =
     tens A (act_sizes cfg B T) 20"
    "region (fcprojb (malloc_and_point_parameters P (param_sizes cfg))) (num_layers cfg * channels cfg) =
     tens P (param_sizes cfg) 13"
    by (simp_all add: tens_def tensor_sel)
qed

subsection \<open>The command line\<close>

text \<open>
  The decimal spelling of a token of the vocabulary is read as that token, one that is not in the
  vocabulary is refused; and the empty string, which spells no number, is taken for token 0.
\<close>
theorem parse_token_values:
  assumes "int x \<le> LONG_MAX" "0 < V"
  shows "parse_token (dec x) V = (if x < V then Some x else None) \<and> parse_token [] V = Some 0"
proof -
  from strtol_dec [OF assms(1), of "[]"] have "strtol (dec x) = (int x, [])" by simp
  moreover have "strtol [] = (0, [])" by (simp add: strtol_def Let_def)
  ultimately show ?thesis using assms(2) by (simp add: parse_token_def)
qed

lemma parse_token_values_witness:
  "parse_token (dec 15496) 50257 = (if 15496 < (50257::nat) then Some 15496 else None) \<and>
   parse_token [] 50257 = Some 0"
  by (rule parse_token_values) (simp_all add: LONG_MAX_def)

subsection \<open>The output\<close>

lemma built_model:
  assumes "gpt2_build_from_checkpoint fbits junk P file m = Built model m0"
  shows "model_at P model"
  using assms
  by (auto simp: gpt2_build_from_checkpoint_def model_at_def Let_def split: option.splits if_splits)

lemma act_sizes_mono: "t \<le> T \<Longrightarrow> list_all2 (\<le>) (act_sizes cfg B t) (act_sizes cfg B T)"
  by (simp add: act_sizes_eq Let_def mult_le_mono)

lemma pass_ints:
  assumes "gpt2_build_from_checkpoint fbits junk P file m = Built model m0"
    and L: "0 < num_layers (config model)" "num_layers (config model) \<le> 14"
    and acts: "list_all (\<lambda>s. s + 3 \<le> INT_MAX) (act_sizes (config model) 1 9)"
    and t: "0 < t" "t \<le> 9"
  shows "ints_fit (config model) 1 t"
proof -
  have "4 * channels (config model) \<le> INT_MAX" "list_all (\<lambda>s. s \<le> INT_MAX) (param_sizes (config model))"
    using assms(1) by (auto simp: gpt2_build_from_checkpoint_def sizes_defined_def Let_def
        split: option.splits if_splits)
  moreover have "list_all (\<lambda>s. s + 3 \<le> INT_MAX) (act_sizes (config model) 1 t)"
    using act_sizes_mono [OF t(2), of "config model" 1] acts
    by (fastforce simp: list_all_length list_all2_conv_all_nth)
  moreover have "num_layers (config model) * 1 * t * 4 \<le> INT_MAX"
  proof -
    have "num_layers (config model) * t \<le> 14 * 9" by (rule mult_le_mono [OF L(2) t(2)])
    moreover have "(504 :: nat) \<le> INT_MAX" by (simp add: INT_MAX_def)
    ultimately show ?thesis unfolding mult_1_right by linarith
  qed
  ultimately show ?thesis using L(1) t(1) by (simp add: ints_fit_def)
qed

text \<open>
  C3: With a checkpoint of 1 to 14 layers and at least nine positions, whose activation tensors for nine
  tokens have sizes that fit in an \<open>int\<close> (with room for three more), and one to nine tokens of its
  vocabulary on the command line, the program ends with status 0 and prints one line for each of the
  remaining positions, each a token of the vocabulary; the lines are the same for every value of
  \<open>GPT_WORKERS\<close> and every interleaving of the loads and stores of the threads, and no assertion of
  the thread table fails.
\<close>
theorem gpt_output:
  fixes F :: "'f float_ops"
  assumes built: "gpt2_build_from_checkpoint fbits junk P file m = Built model m0"
    and layers: "0 < num_layers (config model)" "num_layers (config model) \<le> 14"
    and "9 \<le> max_seq_len (config model)" "0 < vocab_size (config model)"
    and acts: "list_all (\<lambda>s. s + 3 \<le> INT_MAX) (act_sizes (config model) 1 9)"
    and heap: "\<forall>t. act_block (config model) 1 t (A t) \<inter> param_block (config model) P = {}"
    and argv: "2 \<le> length argv" "length argv \<le> 10"
    and tokens: "parse_tokens (vocab_size (config model)) argv [0..<10] = Some tokens"
  shows "\<exists>out. length out = 11 - length argv \<and>
    list_all (\<lambda>x. 0 \<le> x \<and> x < int (vocab_size (config model))) out \<and>
    (\<forall>env sched. gpt_main F env (gpt2_build_from_checkpoint fbits junk P file m) argv sched A IA =
       Exit 0 (map (\<lambda>x. show_int x @ ''\<newline>'') out))"
proof -
  let ?t = "length argv - 1" and ?cfg = "config model"
  have len: "length tokens = 10" using parse_tokens_length [OF tokens] by simp
  have "tokens ! j < vocab_size ?cfg" if "j < ?t" for j
    using parse_tokens_range [OF tokens, of j] that argv by simp
  then have tok: "list_all (\<lambda>x. x < vocab_size ?cfg) (take ?t tokens)"
    using len argv by (simp add: list_all_length)
  have "?t \<le> 10" using argv by simp
  have pos: "0 < ?t" using argv by simp
  from gen_loop_any [OF built_model [OF built] refl heap [rule_format] pass_ints [OF built layers acts]
        pos assms(4,5) len tok \<open>?t \<le> 10\<close>,
      where F = F and m = m0]
  obtain out where out: "length out = 10 - ?t" "list_all (\<lambda>x. 0 \<le> x \<and> x < int (vocab_size ?cfg)) out"
    "\<forall>wc sched ts out0. all_dead ts \<and> length ts + (10 - ?t) * pass_threads ?cfg \<le> MAX_THREADS \<longrightarrow>
       gen_loop F wc sched A IA [?t..<10] model tokens (ts, m0) out0 =
       Exit 0 (out0 @ map (\<lambda>x. show_int x @ ''\<newline>'') out)" by blast
  have "(10 - ?t) * pass_threads ?cfg \<le> 9 * pass_threads ?cfg"
    using argv by (intro mult_le_mono1) simp
  also have "\<dots> \<le> MAX_THREADS" using layers(2) by (simp add: pass_threads_def MAX_THREADS_def)
  finally have room: "all_dead [] \<and> length [] + (10 - ?t) * pass_threads ?cfg \<le> MAX_THREADS"
    by (simp add: all_dead_def)
  have ne: "argv \<noteq> []" using argv(1) by auto
  have "gpt_main F env (gpt2_build_from_checkpoint fbits junk P file m) argv sched A IA =
       Exit 0 (map (\<lambda>x. show_int x @ ''\<newline>'') out)" for env sched
    using ne out(3) [rule_format, OF room, of "parse_worker_count env" sched "[]"] argv tokens
    by (simp add: gpt_main_def built token_limit_def Let_def)
  with out(1,2) argv show ?thesis by (intro exI [of _ out]) auto
qed

text \<open>A checkpoint of one layer, one head, one channel, two tokens and nine positions.\<close>

definition tiny_file :: bytes where
  "tiny_file = le32 20240326 @ le32 1 @ le32 9 @ le32 2 @ le32 1 @ le32 1 @ le32 1 @ replicate 996 0"

lemma tiny_header:
  "header_int (\<lambda>_. 0) tiny_file 0 = 20240326" "header_int (\<lambda>_. 0) tiny_file 1 = 1"
  "header_int (\<lambda>_. 0) tiny_file 2 = 9" "header_int (\<lambda>_. 0) tiny_file 3 = 2"
  "header_int (\<lambda>_. 0) tiny_file 4 = 1" "header_int (\<lambda>_. 0) tiny_file 5 = 1"
  "header_int (\<lambda>_. 0) tiny_file 6 = 1"
  by (simp_all add: header_int_def tiny_file_def get32_def le32_def u32_of_def)

lemma tiny_config:
  "header_config (\<lambda>_. 0) tiny_file =
   \<lparr>max_seq_len = 9, vocab_size = 2, num_layers = 1, num_heads = 1, channels = 1\<rparr>"
  by (simp add: header_config_def tiny_header)

lemma gpt_output_witness:
  "\<exists>out. length out = 11 - 3 \<and> list_all (\<lambda>x. 0 \<le> x \<and> x < int 2) out \<and>
    (\<forall>env sched. gpt_main int_ops env
        (gpt2_build_from_checkpoint uint (\<lambda>_. 0) 0 (Some tiny_file) (\<lambda>_. 0))
        [''gpt'', ''1'', ''0''] sched (\<lambda>_. 1000) (\<lambda>_. 9000) =
       Exit 0 (map (\<lambda>x. show_int x @ ''\<newline>'') out))"
proof -
  define cfg where
    "cfg = \<lparr>max_seq_len = 9, vocab_size = 2, num_layers = 1, num_heads = 1, channels = 1\<rparr>"
  have "sizes_defined (\<lambda>_. 0) tiny_file"
    by (simp add: sizes_defined_def tiny_header tiny_config param_sizes_def INT_MAX_def)
  then obtain model m0 where b: "gpt2_build_from_checkpoint uint (\<lambda>_. 0) 0 (Some tiny_file) (\<lambda>_. 0) = Built model m0"
      "config model = cfg"
    by (simp add: gpt2_build_from_checkpoint_def tiny_header [unfolded One_nat_def] tiny_config Let_def cfg_def)
  have dj: "act_block cfg 1 t 1000 \<inter> param_block cfg 0 = {}" for t
    by (auto simp: act_block_def param_block_def region_def param_sizes_def cfg_def)
  have tok: "parse_tokens (vocab_size cfg) [''gpt'', ''1'', ''0''] [0..<10] = Some (1 # 0 # replicate 8 GPT2_EOT)"
    by (simp add: cfg_def upt_conv_Cons parse_token_def strtol_def is_digit_def is_space_def code_def
        digits_val_def digit_val_def LONG_MAX_def LONG_MIN_def Let_def numeral_eq_Suc)
  have "list_all (\<lambda>s. s + 3 \<le> INT_MAX) (act_sizes cfg 1 9)"
    by (simp add: act_sizes_eq cfg_def INT_MAX_def)
  with gpt_output [OF b(1), of "\<lambda>_. 1000" "[''gpt'', ''1'', ''0'']", OF _ _ _ _ _ _ _ _ tok [folded b(2)], where F = int_ops]
  show ?thesis using dj by (simp add: b(2)) (simp add: cfg_def)
qed

end
