(* ===== verification/ThreadSync.thy ===== *)
theory ThreadSync
  imports SpinLock
begin

text \<open>
  The spin lock of \<open>m6/thread-sync.h\<close>: unlike the one of \<open>m5\<close> it is taken by an exchange that writes
  the lock whether it was free or not, so a waiting thread must not take it from the holder.
\<close>

definition FREE :: int where "FREE = 0"
definition LOCKED :: int where "LOCKED = 1"

text \<open>One round of the loop of \<open>spin_lock\<close>: the new value of the lock, and whether the loop is left.\<close>

definition spin_round :: "int \<Rightarrow> int \<times> bool" where
  "spin_round l = (let status = l in (LOCKED, status = FREE))"

definition spin_unlock :: "int \<Rightarrow> int" where
  "spin_unlock l = FREE"

interpretation xchg: spin_lock spin_round spin_unlock "\<lambda>l. l = FREE"
  by unfold_locales (auto simp: spin_round_def spin_unlock_def FREE_def LOCKED_def)

theorem spin_lock_excludes:
  assumes "(lock_step spin_round spin_unlock N)\<^sup>*\<^sup>* (lock_start FREE) s"
    and "i < N" "j < N" "at s i = Holding" "at s j = Holding"
  shows "i = j \<and> lk s \<noteq> FREE"
  using xchg.excludes [OF xchg.reachable_inv [OF assms(1) refl]] xchg.held [OF xchg.reachable_inv [OF assms(1) refl]]
    assms(2-) by blast

theorem spin_lock_hands_over:
  assumes "i < N" "j < N" "at s i = Holding" "at s j = Spinning"
  shows "\<exists>s' s''. lock_step spin_round spin_unlock N s s' \<and> lock_step spin_round spin_unlock N s' s'' \<and>
    at s'' j = Holding \<and> at s'' i = Outside"
  by (rule xchg.hands_over [OF assms])

end
