(* ===== verification/Pstree.thy ===== *)
theory Pstree
  imports Stdio CText
begin

text \<open>
  \<open>pstree.c\<close>: the processes read from the status files, the tree of child indices, its order, and
  the printed forest.  The directory is the list of its entries and a map from paths to files; a
  printed line is its depth with the index of the process.  Printing is bounded by fuel, so that
  it is known when it returns.
\<close>

subsection \<open>Reading the processes\<close>

record process =
  pid :: int
  ppid :: int
  pname :: string
  children :: "nat list"
  child_cap :: nat

record process_list =
  items :: "process list"
  cap :: nat

definition is_pid_name :: "string \<Rightarrow> bool" where
  "is_pid_name s \<longleftrightarrow> s \<noteq> [] \<and> list_all is_digit s"

text \<open>Conversion of \<open>long\<close> to \<open>pid_t\<close>, and \<open>sscanf\<close> with \<open>%ld\<close>.\<close>

definition to_pid :: "int \<Rightarrow> int" where
  "to_pid v = (v + 2 ^ 31) mod 2 ^ 32 - 2 ^ 31"

definition scan_long :: "string \<Rightarrow> int option" where
  "scan_long s = (case strtol s of (v, r) \<Rightarrow> if r = s then None else Some v)"

record status_scan =
  scanned :: process
  has_name :: bool
  has_ppid :: bool

definition status_line :: "string \<Rightarrow> status_scan \<Rightarrow> status_scan" where
  "status_line line st =
     (if starts_with ''Name:'' line
      then (case scan_word 255 (drop 5 line) of
              Some (name, _) \<Rightarrow> st\<lparr>scanned := (scanned st)\<lparr>pname := name\<rparr>, has_name := True\<rparr>
            | None \<Rightarrow> st)
      else if starts_with ''PPid:'' line
      then (case scan_long (drop 5 line) of
              Some v \<Rightarrow> st\<lparr>scanned := (scanned st)\<lparr>ppid := to_pid v\<rparr>, has_ppid := True\<rparr>
            | None \<Rightarrow> st)
      else st)"

text \<open>The loop over the lines; a line is the string in the buffer, up to its first null character.\<close>

function status_lines :: "stream \<Rightarrow> status_scan \<Rightarrow> status_scan" where
  "status_lines s st =
     (case fgets 512 s of
        None \<Rightarrow> st
      | Some (line, s', _) \<Rightarrow> status_lines s' (status_line (takeWhile (\<lambda>c. c \<noteq> NUL) line) st))"
  by pat_completeness auto
termination by (relation "measure (\<lambda>(s, _). length (rest s))") (auto dest: fgets_shorter)

declare status_lines.simps [simp del]

definition read_status_file :: "stream option \<Rightarrow> process \<Rightarrow> process option" where
  "read_status_file file p =
     (case file of
        None \<Rightarrow> None
      | Some s \<Rightarrow>
          let st = status_lines s \<lparr>scanned = p, has_name = False, has_ppid = False\<rparr> in
          if has_name st \<and> has_ppid st then Some (scanned st) else None)"

text \<open>\<open>fs\<close> gives the file at a path.\<close>

definition read_process :: "(string \<Rightarrow> stream option) \<Rightarrow> string \<Rightarrow> process \<Rightarrow> process option" where
  "read_process fs proc_root p =
     (let path = proc_root @ ''/'' @ show_int (pid p) @ ''/status'' in
      if length path \<ge> 512 then None else read_status_file (fs path) p)"

text \<open>\<open>add_process\<close> and \<open>add_child\<close> grow their arrays; \<open>alloc n\<close> says whether an array of \<open>n\<close> elements
  can be allocated.\<close>

definition add_process :: "(nat \<Rightarrow> bool) \<Rightarrow> process_list \<Rightarrow> process \<Rightarrow> process_list option" where
  "add_process alloc list p =
     (if length (items list) = cap list
      then (let new_cap = (if cap list = 0 then 64 else cap list * 2) in
            if alloc new_cap then Some \<lparr>items = items list @ [p], cap = new_cap\<rparr> else None)
      else Some (list\<lparr>items := items list @ [p]\<rparr>))"

text \<open>The loop over the directory.\<close>

primrec read_entries ::
  "(nat \<Rightarrow> bool) \<Rightarrow> (string \<Rightarrow> stream option) \<Rightarrow> string \<Rightarrow> string list \<Rightarrow> process_list \<Rightarrow> process_list option"
where
  "read_entries alloc fs root [] list = Some list"
| "read_entries alloc fs root (name # names) list =
     (if \<not> is_pid_name name then read_entries alloc fs root names list
      else
        (let p = \<lparr>pid = to_pid (fst (strtol name)), ppid = 0, pname = [], children = [], child_cap = 0\<rparr> in
         case read_process fs root p of
           None \<Rightarrow> read_entries alloc fs root names list
         | Some p' \<Rightarrow>
             (case add_process alloc list p' of
                None \<Rightarrow> None
              | Some list' \<Rightarrow> read_entries alloc fs root names list')))"

subsection \<open>The tree\<close>

fun find_from :: "nat \<Rightarrow> process list \<Rightarrow> int \<Rightarrow> nat option" where
  "find_from i [] q = None"
| "find_from i (p # ps) q = (if pid p = q then Some i else find_from (i + 1) ps q)"

definition find_process_index :: "process list \<Rightarrow> int \<Rightarrow> nat option" where
  "find_process_index ps q = find_from 0 ps q"

definition add_child :: "(nat \<Rightarrow> bool) \<Rightarrow> process \<Rightarrow> nat \<Rightarrow> process option" where
  "add_child alloc parent i =
     (if length (children parent) = child_cap parent
      then (let new_cap = (if child_cap parent = 0 then 4 else child_cap parent * 2) in
            if alloc new_cap
            then Some (parent\<lparr>children := children parent @ [i], child_cap := new_cap\<rparr>) else None)
      else Some (parent\<lparr>children := children parent @ [i]\<rparr>))"

primrec build_loop :: "(nat \<Rightarrow> bool) \<Rightarrow> nat list \<Rightarrow> process list \<Rightarrow> process list option" where
  "build_loop alloc [] ps = Some ps"
| "build_loop alloc (i # is) ps =
     (case find_process_index ps (ppid (ps ! i)) of
        None \<Rightarrow> build_loop alloc is ps
      | Some j \<Rightarrow>
          (case add_child alloc (ps ! j) i of
             None \<Rightarrow> None
           | Some q \<Rightarrow> build_loop alloc is (ps[j := q])))"

definition build_tree :: "(nat \<Rightarrow> bool) \<Rightarrow> process list \<Rightarrow> process list option" where
  "build_tree alloc ps = build_loop alloc [0..<length ps] ps"

subsection \<open>Order\<close>

definition compare_by_pid :: "process \<Rightarrow> process \<Rightarrow> int" where
  "compare_by_pid a b = (if pid a > pid b then 1 else 0) - (if pid a < pid b then 1 else 0)"

definition compare_by_name :: "process \<Rightarrow> process \<Rightarrow> int" where
  "compare_by_name a b =
     (let name_cmp = strcmp (pname a) (pname b) in
      if name_cmp \<noteq> 0 then name_cmp
      else (if pid a > pid b then 1 else 0) - (if pid a < pid b then 1 else 0))"

definition comparison :: "bool \<Rightarrow> process \<Rightarrow> process \<Rightarrow> int" where
  "comparison numeric_sort = (if numeric_sort then compare_by_pid else compare_by_name)"

text \<open>\<open>qsort\<close>, as insertion sort.  The comparisons order processes of different pid strictly.\<close>

primrec insert_by :: "('a \<Rightarrow> 'a \<Rightarrow> int) \<Rightarrow> 'a \<Rightarrow> 'a list \<Rightarrow> 'a list" where
  "insert_by cmp x [] = [x]"
| "insert_by cmp x (y # ys) = (if cmp x y \<le> 0 then x # y # ys else y # insert_by cmp x ys)"

definition qsort_by :: "('a \<Rightarrow> 'a \<Rightarrow> int) \<Rightarrow> 'a list \<Rightarrow> 'a list" where
  "qsort_by cmp xs = foldr (insert_by cmp) xs []"

text \<open>Sorting the children of one process, then of all.  It is left out when the array of pointers
  cannot be allocated.\<close>

definition sort_children :: "(nat \<Rightarrow> bool) \<Rightarrow> bool \<Rightarrow> process list \<Rightarrow> process \<Rightarrow> process" where
  "sort_children alloc numeric_sort ps p =
     (if length (children p) < 2 then p
      else if \<not> alloc (length (children p)) then p
      else p\<lparr>children := qsort_by (\<lambda>a b. comparison numeric_sort (ps ! a) (ps ! b)) (children p)\<rparr>)"

definition sort_tree :: "(nat \<Rightarrow> bool) \<Rightarrow> bool \<Rightarrow> process list \<Rightarrow> process list" where
  "sort_tree alloc numeric_sort ps = map (sort_children alloc numeric_sort ps) ps"

subsection \<open>Printing\<close>

primrec collect :: "('a \<Rightarrow> 'b list option) \<Rightarrow> 'a list \<Rightarrow> 'b list option" where
  "collect f [] = Some []"
| "collect f (x # xs) =
     (case f x of
        None \<Rightarrow> None
      | Some ys \<Rightarrow> (case collect f xs of None \<Rightarrow> None | Some zs \<Rightarrow> Some (ys @ zs)))"

fun print_tree :: "nat \<Rightarrow> process list \<Rightarrow> nat \<Rightarrow> nat \<Rightarrow> (nat \<times> nat) list option" where
  "print_tree 0 ps i depth = None"
| "print_tree (Suc n) ps i depth =
     (case collect (\<lambda>c. print_tree n ps c (depth + 1)) (children (ps ! i)) of
        None \<Rightarrow> None
      | Some vs \<Rightarrow> Some ((depth, i) # vs))"

definition tree_line :: "bool \<Rightarrow> process list \<Rightarrow> nat \<times> nat \<Rightarrow> string" where
  "tree_line show_pids ps v =
     (case v of (depth, i) \<Rightarrow>
        concat (replicate depth ''  '') @ pname (ps ! i) @
        (if show_pids then ''('' @ show_int (pid (ps ! i)) @ '')'' else []) @ [NL])"

definition is_root :: "process list \<Rightarrow> nat \<Rightarrow> bool" where
  "is_root ps i \<longleftrightarrow> ppid (ps ! i) = 0 \<or> find_process_index ps (ppid (ps ! i)) = None"

definition sorted_roots :: "bool \<Rightarrow> process list \<Rightarrow> nat list" where
  "sorted_roots numeric_sort ps =
     qsort_by (\<lambda>a b. comparison numeric_sort (ps ! a) (ps ! b)) (filter (is_root ps) [0..<length ps])"

text \<open>\<open>print_forest\<close>: \<open>Some None\<close> when the array of the roots cannot be allocated, \<open>None\<close> when the fuel
  ends.\<close>

definition print_forest ::
  "nat \<Rightarrow> (nat \<Rightarrow> bool) \<Rightarrow> process list \<Rightarrow> bool \<Rightarrow> (nat \<times> nat) list option option" where
  "print_forest n alloc ps numeric_sort =
     (if \<not> alloc (length ps) \<and> length ps > 0 then Some None
      else (case collect (\<lambda>r. print_tree n ps r 0) (sorted_roots numeric_sort ps) of
              None \<Rightarrow> None | Some vs \<Rightarrow> Some (Some vs)))"

subsection \<open>\<open>main\<close>\<close>

text \<open>The options that \<open>getopt_long\<close> delivers, and whether arguments are left after them.\<close>

datatype pstree_opt = Opt_pids | Opt_numeric | Opt_version | Opt_unknown

record pstree_flags =
  show_pids :: bool
  numeric_sort :: bool
  show_version :: bool

fun parse_args :: "pstree_opt list \<Rightarrow> bool \<Rightarrow> pstree_flags \<Rightarrow> pstree_flags option" where
  "parse_args [] extra fl = (if extra then None else Some fl)"
| "parse_args (Opt_pids # os) extra fl = parse_args os extra (fl\<lparr>show_pids := True\<rparr>)"
| "parse_args (Opt_numeric # os) extra fl = parse_args os extra (fl\<lparr>numeric_sort := True\<rparr>)"
| "parse_args (Opt_version # os) extra fl = parse_args os extra (fl\<lparr>show_version := True\<rparr>)"
| "parse_args (Opt_unknown # os) extra fl = None"

definition proc_root :: "string option \<Rightarrow> string" where
  "proc_root env = (case env of Some e \<Rightarrow> if e = [] then ''/proc'' else e | None \<Rightarrow> ''/proc'')"

datatype pstree_end = Failure | Version | Tree "string list" | Out_of_fuel

definition pstree_main ::
  "nat \<Rightarrow> (nat \<Rightarrow> bool) \<Rightarrow> (string \<Rightarrow> string list option) \<Rightarrow> (string \<Rightarrow> stream option) \<Rightarrow> string option \<Rightarrow>
   pstree_opt list \<Rightarrow> bool \<Rightarrow> pstree_end" where
  "pstree_main n alloc opendir fs env os extra =
     (case parse_args os extra \<lparr>show_pids = False, numeric_sort = False, show_version = False\<rparr> of
        None \<Rightarrow> Failure
      | Some fl \<Rightarrow>
          if show_version fl then Version
          else
            (case opendir (proc_root env) of
               None \<Rightarrow> Failure
             | Some names \<Rightarrow>
                 (case read_entries alloc fs (proc_root env) names \<lparr>items = [], cap = 0\<rparr> of
                    None \<Rightarrow> Failure
                  | Some list \<Rightarrow>
                      (case build_tree alloc (items list) of
                         None \<Rightarrow> Failure
                       | Some ps \<Rightarrow>
                           let ps = sort_tree alloc (numeric_sort fl) ps in
                           (case print_forest n alloc ps (numeric_sort fl) of
                              None \<Rightarrow> Out_of_fuel
                            | Some None \<Rightarrow> Failure
                            | Some (Some vs) \<Rightarrow> Tree (map (tree_line (show_pids fl) ps) vs))))))"

end
