(* ===== verification/PstreeForest.thy ===== *)
theory PstreeForest
  imports Pstree "HOL-Library.Multiset"
begin

text \<open>
  What \<open>pstree.c\<close> prints: with a process table in which no process has pid 0 and no process is its
  own ancestor, every process once, at the depth of its ancestry, siblings in order.  With a
  process 0 whose parent is 0 the printing does not end.
\<close>

subsection \<open>Sorting\<close>

lemma mset_insert_by: "mset (insert_by cmp x ys) = add_mset x (mset ys)"
  by (induction ys) auto

lemma mset_qsort_by [simp]: "mset (qsort_by cmp xs) = mset xs"
  unfolding qsort_by_def by (induction xs) (simp_all add: mset_insert_by)

lemma set_qsort_by [simp]: "set (qsort_by cmp xs) = set xs"
  by (metis mset_qsort_by mset_eq_setD)

lemma distinct_qsort_by [simp]: "distinct (qsort_by cmp xs) = distinct xs"
  by (metis mset_qsort_by mset_eq_imp_distinct_iff)

definition in_order :: "('a \<Rightarrow> 'a \<Rightarrow> int) \<Rightarrow> 'a list \<Rightarrow> bool" where
  "in_order cmp xs \<longleftrightarrow> sorted_wrt (\<lambda>a b. cmp a b \<le> 0) xs"

lemma set_insert_by: "set (insert_by cmp x ys) = insert x (set ys)"
  by (induction ys) auto

lemma in_order_insert_by:
  assumes lin: "\<And>a b. cmp a b \<le> 0 \<or> cmp b a \<le> 0"
    and trans: "\<And>a b c. cmp a b \<le> 0 \<Longrightarrow> cmp b c \<le> 0 \<Longrightarrow> cmp a c \<le> 0"
  shows "in_order cmp ys \<Longrightarrow> in_order cmp (insert_by cmp x ys)"
proof (induction ys)
  case (Cons y ys)
  then show ?case
    using lin [of x y] trans [of x y] by (auto simp: in_order_def set_insert_by)
qed (simp add: in_order_def)

lemma in_order_qsort_by:
  assumes "\<And>a b. cmp a b \<le> 0 \<or> cmp b a \<le> 0"
    and "\<And>a b c. cmp a b \<le> 0 \<Longrightarrow> cmp b c \<le> 0 \<Longrightarrow> cmp a c \<le> 0"
  shows "in_order cmp (qsort_by cmp xs)"
proof (induction xs)
  case Nil
  show ?case by (simp add: in_order_def qsort_by_def)
next
  case (Cons x xs)
  from in_order_insert_by [OF assms this] show ?case by (simp add: qsort_by_def)
qed

lemma comparison_lin: "comparison ns a b \<le> 0 \<or> comparison ns b a \<le> 0"
  using strcmp_flip [of "pname a" "pname b"]
  by (auto simp: comparison_def compare_by_pid_def compare_by_name_def Let_def)

lemma comparison_trans:
  assumes "comparison ns a b \<le> 0" "comparison ns b c \<le> 0"
  shows "comparison ns a c \<le> 0"
proof (cases ns)
  case True
  with assms show ?thesis by (auto simp: comparison_def compare_by_pid_def split: if_splits)
next
  case False
  have t: "strcmp (pname a) (pname c) \<le> 0"
    using assms False strcmp_trans [of "pname a" "pname b" "pname c"]
    by (auto simp: comparison_def compare_by_name_def Let_def strcmp_zero split: if_splits)
  show ?thesis
  proof (cases "strcmp (pname a) (pname c) = 0")
    case True
    then have ac: "pname a = pname c" by (simp add: strcmp_zero)
    have "pname b = pname c"
    proof (rule ccontr)
      assume "pname b \<noteq> pname c"
      with ac assms False have "strcmp (pname c) (pname b) \<le> 0" "strcmp (pname b) (pname c) \<le> 0"
        "strcmp (pname b) (pname c) \<noteq> 0"
        by (auto simp: comparison_def compare_by_name_def Let_def strcmp_zero split: if_splits)
      with strcmp_flip [of "pname b" "pname c"] show False by simp
    qed
    with ac assms False show ?thesis
      by (auto simp: comparison_def compare_by_name_def Let_def strcmp_zero split: if_splits)
  next
    case neq: False
    with t False show ?thesis by (simp add: comparison_def compare_by_name_def Let_def)
  qed
qed

subsection \<open>The tree that is built\<close>

definition par :: "process list \<Rightarrow> nat \<Rightarrow> nat option" where
  "par ps i = find_process_index ps (ppid (ps ! i))"

text \<open>Same processes, up to their children.\<close>

definition same_procs :: "process list \<Rightarrow> process list \<Rightarrow> bool" where
  "same_procs ps qs \<longleftrightarrow>
     list_all2 (\<lambda>p q. pid p = pid q \<and> ppid p = ppid q \<and> pname p = pname q) ps qs"

lemma same_procs_refl: "same_procs ps ps"
  by (simp add: same_procs_def list_all2_refl)

lemma same_procs_trans: "same_procs ps qs \<Longrightarrow> same_procs qs rs \<Longrightarrow> same_procs ps rs"
  by (simp add: same_procs_def list_all2_conv_all_nth)

lemma same_procs_nth:
  "same_procs ps qs \<Longrightarrow> i < length ps \<Longrightarrow>
   pid (ps ! i) = pid (qs ! i) \<and> ppid (ps ! i) = ppid (qs ! i) \<and> pname (ps ! i) = pname (qs ! i)"
  unfolding same_procs_def list_all2_conv_all_nth by blast

lemma same_procs_length: "same_procs ps qs \<Longrightarrow> length ps = length qs"
  unfolding same_procs_def by (rule list_all2_lengthD)

lemma find_from_same:
  "list_all2 (\<lambda>p q. pid p = pid q \<and> ppid p = ppid q \<and> pname p = pname q) ps qs \<Longrightarrow>
   find_from i ps x = find_from i qs x"
  by (induction arbitrary: i rule: list_all2_induct) auto

lemma find_same: "same_procs ps qs \<Longrightarrow> find_process_index ps x = find_process_index qs x"
  by (simp add: find_process_index_def same_procs_def find_from_same)

lemma par_same: "same_procs ps qs \<Longrightarrow> i < length ps \<Longrightarrow> par ps i = par qs i"
  using same_procs_nth [of ps qs i] by (simp add: par_def find_same)

lemma find_from_Some: "find_from i ps x = Some j \<Longrightarrow> i \<le> j \<and> j < i + length ps \<and> pid (ps ! (j - i)) = x"
proof (induction i ps x rule: find_from.induct)
  case (2 i p ps q)
  show ?case
  proof (cases "pid p = q")
    case True
    with 2 show ?thesis by simp
  next
    case False
    with 2 have "i + 1 \<le> j" "j < i + 1 + length ps" "pid (ps ! (j - (i + 1))) = q" by auto
    moreover from this have "j - i = Suc (j - (i + 1))" by simp
    ultimately show ?thesis by simp
  qed
qed simp

lemma par_lt: "par ps i = Some j \<Longrightarrow> j < length ps"
  using find_from_Some [of 0] by (fastforce simp: par_def find_process_index_def)

lemma add_child_Some:
  "add_child alloc p i = Some q \<Longrightarrow>
   children q = children p @ [i] \<and> pid q = pid p \<and> ppid q = ppid p \<and> pname q = pname p"
  by (auto simp: add_child_def Let_def split: if_splits)

lemma build_loop_children:
  assumes "build_loop alloc is ps = Some qs" "set is \<subseteq> {..<length ps}"
  shows "same_procs ps qs \<and>
    (\<forall>j < length ps. children (qs ! j) = children (ps ! j) @ filter (\<lambda>i. par ps i = Some j) is)"
  using assms
proof (induction "is" arbitrary: ps)
  case Nil
  then show ?case by (simp add: same_procs_refl)
next
  case (Cons i "is")
  show ?case
  proof (cases "par ps i")
    case None
    with Cons show ?thesis by (simp add: par_def)
  next
    case (Some k)
    then have k: "k < length ps" by (rule par_lt)
    from Cons.prems(1) Some obtain q where q: "add_child alloc (ps ! k) i = Some q"
      "build_loop alloc is (ps[k := q]) = Some qs"
      by (auto simp: par_def split: option.splits)
    note qq = add_child_Some [OF q(1)]
    have s: "same_procs ps (ps[k := q])"
      unfolding same_procs_def list_all2_conv_all_nth using qq k by (auto simp: nth_list_update)
    from Cons.IH [OF q(2)] Cons.prems(2) have IH: "same_procs (ps[k := q]) qs"
      "\<forall>j < length ps. children (qs ! j) =
         children (ps[k := q] ! j) @ filter (\<lambda>i. par (ps[k := q]) i = Some j) is"
      by auto
    have "filter (\<lambda>i. par (ps[k := q]) i = Some j) is = filter (\<lambda>i. par ps i = Some j) is" for j
      using Cons.prems(2) par_same [OF s] by (intro filter_cong refl) auto
    with IH(2) qq Some show ?thesis
      using same_procs_trans [OF s IH(1)] by (auto simp: nth_list_update)
  qed
qed

text \<open>The tree that the rest works on: the children of a process are those whose parent it is.\<close>

definition tree_ok :: "process list \<Rightarrow> bool" where
  "tree_ok ps \<longleftrightarrow>
     (\<forall>j < length ps. mset (children (ps ! j)) = mset (filter (\<lambda>i. par ps i = Some j) [0..<length ps]))"

lemma build_tree_ok:
  assumes "build_tree alloc ps = Some qs" "list_all (\<lambda>p. children p = []) ps"
  shows "tree_ok qs" "same_procs ps qs"
proof -
  from assms(1) have b: "same_procs ps qs"
    "\<forall>j < length ps. children (qs ! j) = children (ps ! j) @ filter (\<lambda>i. par ps i = Some j) [0..<length ps]"
    using build_loop_children [of alloc "[0..<length ps]" ps qs]
    by (auto simp: build_tree_def lessThan_atLeast0)
  have "filter (\<lambda>i. par ps i = Some j) [0..<length ps] = filter (\<lambda>i. par qs i = Some j) [0..<length qs]" for j
    using par_same [OF b(1)] same_procs_length [OF b(1)] by (intro filter_cong) auto
  with b assms(2) show "tree_ok qs" "same_procs ps qs"
    by (auto simp: tree_ok_def list_all_length same_procs_length)
qed

lemma sort_tree_same: "same_procs ps (sort_tree alloc ns ps)"
  by (auto simp: same_procs_def sort_tree_def list_all2_conv_all_nth sort_children_def)

lemma sort_tree_ok:
  assumes "tree_ok ps"
  shows "tree_ok (sort_tree alloc ns ps)"
proof -
  let ?qs = "sort_tree alloc ns ps"
  note s = sort_tree_same [of ps alloc ns]
  have len: "length ?qs = length ps" by (simp add: sort_tree_def)
  have "mset (children (?qs ! j)) = mset (filter (\<lambda>i. par ?qs i = Some j) [0..<length ?qs])"
    if j: "j < length ps" for j
  proof -
    have "filter (\<lambda>i. par ?qs i = Some j) [0..<length ?qs] = filter (\<lambda>i. par ps i = Some j) [0..<length ps]"
      using par_same [OF s] len by (intro filter_cong) auto
    moreover have "mset (children (?qs ! j)) = mset (children (ps ! j))"
      using j by (simp add: sort_tree_def sort_children_def)
    ultimately show ?thesis using assms j by (simp add: tree_ok_def)
  qed
  then show ?thesis using len by (simp add: tree_ok_def)
qed

subsection \<open>Printing\<close>

definition edges :: "process list \<Rightarrow> (nat \<times> nat) set" where
  "edges ps = {(j, i). i < length ps \<and> par ps i = Some j}"

definition descendants :: "process list \<Rightarrow> nat \<Rightarrow> nat set" where
  "descendants ps i = {k. (i, k) \<in> (edges ps)\<^sup>*}"

definition ranked :: "process list \<Rightarrow> (nat \<Rightarrow> nat) \<Rightarrow> nat \<Rightarrow> bool" where
  "ranked ps rank n \<longleftrightarrow>
     (\<forall>i < length ps. rank i < n \<and> (\<forall>j. par ps i = Some j \<longrightarrow> rank j < rank i))"

lemma tree_children:
  assumes "tree_ok ps" "i < length ps"
  shows "distinct (children (ps ! i))" "c \<in> set (children (ps ! i)) \<longleftrightarrow> (i, c) \<in> edges ps"
proof -
  from assms have m: "mset (children (ps ! i)) = mset (filter (\<lambda>k. par ps k = Some i) [0..<length ps])"
    by (simp add: tree_ok_def)
  from mset_eq_imp_distinct_iff [OF m] show "distinct (children (ps ! i))" by simp
  from mset_eq_setD [OF m] show "c \<in> set (children (ps ! i)) \<longleftrightarrow> (i, c) \<in> edges ps"
    by (auto simp: edges_def)
qed

lemma edges_rank: "ranked ps rank n \<Longrightarrow> (j, i) \<in> edges ps \<Longrightarrow> rank j < rank i"
  by (auto simp: ranked_def edges_def)

lemma below_rank: "ranked ps rank n \<Longrightarrow> k \<in> descendants ps i \<Longrightarrow> k = i \<or> rank i < rank k"
  unfolding descendants_def mem_Collect_eq
  by (erule rtrancl_induct) (auto dest: edges_rank)

lemma one_parent: "(j, k) \<in> edges ps \<Longrightarrow> (j', k) \<in> edges ps \<Longrightarrow> j = j'"
  by (auto simp: edges_def)

lemma chain:
  assumes "(a, k) \<in> (edges ps)\<^sup>*" "(b, k) \<in> (edges ps)\<^sup>*"
  shows "(a, b) \<in> (edges ps)\<^sup>* \<or> (b, a) \<in> (edges ps)\<^sup>*"
  using assms
proof (induction arbitrary: b rule: rtrancl_induct)
  case base
  then show ?case by simp
next
  case (step j k)
  from step.prems show ?case
  proof (cases rule: rtranclE)
    case base
    with step show ?thesis by (meson rtrancl.rtrancl_into_rtrancl)
  next
    case (step j')
    with one_parent [OF this(2) \<open>(j, k) \<in> edges ps\<close>] step.IH show ?thesis
      using \<open>\<And>b. (b, j) \<in> (edges ps)\<^sup>* \<Longrightarrow> (a, b) \<in> (edges ps)\<^sup>* \<or> (b, a) \<in> (edges ps)\<^sup>*\<close> by blast
  qed
qed

lemma below_disjoint:
  assumes r: "ranked ps rank n" and c: "par ps c = par ps c'" "c \<noteq> c'"
    and lt: "c < length ps" "c' < length ps"
  shows "descendants ps c \<inter> descendants ps c' = {}"
proof (rule equals0I)
  have no: False if "(x, y) \<in> (edges ps)\<^sup>*" "par ps x = par ps y" "x \<noteq> y" "x < length ps" "y < length ps" for x y
  proof -
    from that(1,3) obtain z where z: "(x, z) \<in> (edges ps)\<^sup>*" "(z, y) \<in> edges ps"
      by (meson rtranclE)
    then have "par ps x = Some z" using that(2) by (simp add: edges_def)
    then have "rank z < rank x" using r that(4) by (auto simp: ranked_def)
    with below_rank [OF r, of z x] z(1) show False by (auto simp: descendants_def)
  qed
  fix k assume "k \<in> descendants ps c \<inter> descendants ps c'"
  then show False using chain [of c k ps c'] no [of c c'] no [of c' c] c lt by (auto simp: descendants_def)
qed

lemma below_children:
  assumes "tree_ok ps" "i < length ps"
  shows "descendants ps i = insert i (\<Union>c \<in> set (children (ps ! i)). descendants ps c)"
proof (rule set_eqI)
  fix k
  have "(i, k) \<in> (edges ps)\<^sup>* \<longleftrightarrow> k = i \<or> (\<exists>c. (i, c) \<in> edges ps \<and> (c, k) \<in> (edges ps)\<^sup>*)"
    by (auto elim: converse_rtranclE intro: converse_rtrancl_into_rtrancl)
  then show "k \<in> descendants ps i \<longleftrightarrow> k \<in> insert i (\<Union>c \<in> set (children (ps ! i)). descendants ps c)"
    using tree_children(2) [OF assms] by (auto simp: descendants_def)
qed

text \<open>The visits of a list of subtrees that are apart.\<close>

definition visits :: "process list \<Rightarrow> nat \<Rightarrow> nat \<Rightarrow> (nat \<times> nat) list \<Rightarrow> bool" where
  "visits ps i d vs \<longleftrightarrow> distinct (map snd vs) \<and> snd ` set vs = descendants ps i \<and>
     (\<forall>v \<in> set vs. d \<le> fst v \<and> (i, snd v) \<in> edges ps ^^ (fst v - d))"

lemma collect_visits:
  assumes "\<And>c. c \<in> set cs \<Longrightarrow> \<exists>vs. f c = Some vs \<and> visits ps c d vs"
    and "\<And>c c'. c \<in> set cs \<Longrightarrow> c' \<in> set cs \<Longrightarrow> c \<noteq> c' \<Longrightarrow> descendants ps c \<inter> descendants ps c' = {}" "distinct cs"
  shows "\<exists>vs. collect f cs = Some vs \<and> distinct (map snd vs) \<and> snd ` set vs = (\<Union>c\<in>set cs. descendants ps c) \<and>
     (\<forall>v \<in> set vs. d \<le> fst v \<and> (\<exists>c\<in>set cs. (c, snd v) \<in> edges ps ^^ (fst v - d)))"
  using assms
proof (induction cs)
  case (Cons c cs)
  obtain vs where vs: "f c = Some vs" "visits ps c d vs" using Cons.prems(1) [of c] by auto
  have "\<exists>ws. collect f cs = Some ws \<and> distinct (map snd ws) \<and> snd ` set ws = (\<Union>c\<in>set cs. descendants ps c) \<and>
     (\<forall>v \<in> set ws. d \<le> fst v \<and> (\<exists>c\<in>set cs. (c, snd v) \<in> edges ps ^^ (fst v - d)))"
    using Cons.prems by (intro Cons.IH) auto
  then obtain ws where ws: "collect f cs = Some ws" "distinct (map snd ws)"
    "snd ` set ws = (\<Union>c\<in>set cs. descendants ps c)"
    "\<forall>v \<in> set ws. d \<le> fst v \<and> (\<exists>c\<in>set cs. (c, snd v) \<in> edges ps ^^ (fst v - d))" by blast
  have "descendants ps c \<inter> (\<Union>c\<in>set cs. descendants ps c) = {}"
    using Cons.prems(2) [of c] Cons.prems(3) by auto
  with vs ws show ?case
    by (intro exI [of _ "vs @ ws"]) (auto simp: visits_def image_Un)
qed simp

lemma print_tree_visits:
  assumes tok: "tree_ok ps" and r: "ranked ps rank n" and "i < length ps" "n - rank i \<le> m"
  shows "\<exists>vs. print_tree m ps i d = Some vs \<and> visits ps i d vs"
  using assms(3,4)
proof (induction m arbitrary: i d)
  case 0
  then show ?case using r by (auto simp: ranked_def)
next
  case (Suc m)
  note ch = tree_children [OF tok Suc.prems(1)]
  have c: "c < length ps \<and> par ps c = Some i \<and> n - rank c \<le> m" if "c \<in> set (children (ps ! i))" for c
  proof -
    from that ch(2) have "(i, c) \<in> edges ps" by blast
    then show ?thesis using edges_rank [OF r] r Suc.prems(2) by (fastforce simp: edges_def ranked_def)
  qed
  have "\<exists>vs. collect (\<lambda>c. print_tree m ps c (d + 1)) (children (ps ! i)) = Some vs \<and> distinct (map snd vs) \<and>
      snd ` set vs = (\<Union>c\<in>set (children (ps ! i)). descendants ps c) \<and>
     (\<forall>v \<in> set vs. d + 1 \<le> fst v \<and> (\<exists>c\<in>set (children (ps ! i)). (c, snd v) \<in> edges ps ^^ (fst v - (d + 1))))"
    using c ch(1) below_disjoint [OF r] by (intro collect_visits Suc.IH) auto
  then obtain vs where vs: "collect (\<lambda>c. print_tree m ps c (d + 1)) (children (ps ! i)) = Some vs"
    "distinct (map snd vs)" "snd ` set vs = (\<Union>c\<in>set (children (ps ! i)). descendants ps c)"
    "\<forall>v \<in> set vs. d + 1 \<le> fst v \<and> (\<exists>c\<in>set (children (ps ! i)). (c, snd v) \<in> edges ps ^^ (fst v - (d + 1)))"
    by blast
  have "i \<notin> descendants ps c" if "c \<in> set (children (ps ! i))" for c
    using below_rank [OF r, of i c] that ch(2) edges_rank [OF r, of i c] by auto
  then have "i \<notin> snd ` set vs" using vs(3) by blast
  moreover have "d \<le> fst v \<and> (i, snd v) \<in> edges ps ^^ (fst v - d)" if v: "v \<in> set vs" for v
  proof -
    from vs(4) v obtain c where c': "d + 1 \<le> fst v" "c \<in> set (children (ps ! i))"
      "(c, snd v) \<in> edges ps ^^ (fst v - (d + 1))" by blast
    then have "fst v - d = Suc (fst v - (d + 1))" by simp
    moreover have "(i, snd v) \<in> edges ps ^^ Suc (fst v - (d + 1))"
      using c'(2,3) ch(2) relpow_Suc_I2 by metis
    ultimately show ?thesis using c'(1) by simp
  qed
  ultimately have "visits ps i d ((d, i) # vs)"
    using vs(2,3) below_children [OF tok Suc.prems(1)] by (auto simp: visits_def)
  with vs(1) show ?case by (intro exI [of _ "(d, i) # vs"]) simp
qed

subsection \<open>The forest\<close>

lemma same_edges: "same_procs ps qs \<Longrightarrow> edges ps = edges qs"
  by (auto simp: edges_def par_same same_procs_length)

lemma same_ranked: "same_procs ps qs \<Longrightarrow> ranked ps rank n \<Longrightarrow> ranked qs rank n"
  by (simp add: ranked_def par_same same_procs_length)

lemma same_root: "same_procs ps qs \<Longrightarrow> i < length ps \<Longrightarrow> is_root ps i = is_root qs i"
  using par_same [of ps qs i] same_procs_nth [of ps qs i] by (auto simp: is_root_def par_def)

lemma root_par:
  assumes "list_all (\<lambda>p. pid p \<noteq> 0) ps" "i < length ps"
  shows "is_root ps i \<longleftrightarrow> par ps i = None"
proof -
  have "find_process_index ps 0 = None"
  proof (rule ccontr)
    assume "find_process_index ps 0 \<noteq> None"
    then obtain j where "find_from 0 ps 0 = Some j" by (auto simp: find_process_index_def)
    from find_from_Some [OF this] assms(1) show False by (auto simp: list_all_length)
  qed
  then show ?thesis by (auto simp: is_root_def par_def)
qed

lemma above_root:
  assumes r: "ranked ps rank n" and "k < length ps"
  shows "\<exists>i < length ps. par ps i = None \<and> k \<in> descendants ps i"
  using assms(2)
proof (induction "rank k" arbitrary: k rule: less_induct)
  case less
  show ?case
  proof (cases "par ps k")
    case None
    with less.prems show ?thesis by (auto simp: descendants_def)
  next
    case (Some j)
    with less.prems have e: "(j, k) \<in> edges ps" by (simp add: edges_def)
    from less.hyps [OF edges_rank [OF r e] par_lt [OF Some]] obtain i where
      "i < length ps" "par ps i = None" "j \<in> descendants ps i" by blast
    moreover from this e have "k \<in> descendants ps i"
      by (auto simp: descendants_def intro: rtrancl_into_rtrancl)
    ultimately show ?thesis by blast
  qed
qed

lemma below_lt: "k \<in> descendants ps i \<Longrightarrow> i < length ps \<Longrightarrow> k < length ps"
  unfolding descendants_def mem_Collect_eq by (erule rtranclE) (auto simp: edges_def)

lemma print_forest_visits:
  assumes tok: "tree_ok ps" and r: "ranked ps rank n" and "list_all (\<lambda>p. pid p \<noteq> 0) ps" "alloc (length ps)"
  shows "\<exists>vs. print_forest n alloc ps ns = Some (Some vs) \<and> mset (map snd vs) = mset [0..<length ps] \<and>
    (\<forall>v \<in> set vs. \<exists>i < length ps. is_root ps i \<and> (i, snd v) \<in> edges ps ^^ fst v)"
proof -
  have roots: "c < length ps \<and> is_root ps c \<and> par ps c = None" if "c \<in> set (sorted_roots ns ps)" for c
    using that root_par [OF assms(3), of c] by (auto simp: sorted_roots_def)
  have "\<exists>vs. collect (\<lambda>i. print_tree n ps i 0) (sorted_roots ns ps) = Some vs \<and> distinct (map snd vs) \<and>
      snd ` set vs = (\<Union>c\<in>set (sorted_roots ns ps). descendants ps c) \<and>
     (\<forall>v \<in> set vs. 0 \<le> fst v \<and> (\<exists>c\<in>set (sorted_roots ns ps). (c, snd v) \<in> edges ps ^^ (fst v - 0)))"
    using roots below_disjoint [OF r]
    by (intro collect_visits print_tree_visits [OF tok r]) (auto simp: sorted_roots_def)
  then obtain vs where vs: "collect (\<lambda>i. print_tree n ps i 0) (sorted_roots ns ps) = Some vs"
    "distinct (map snd vs)" "snd ` set vs = (\<Union>c\<in>set (sorted_roots ns ps). descendants ps c)"
    "\<forall>v \<in> set vs. \<exists>c\<in>set (sorted_roots ns ps). (c, snd v) \<in> edges ps ^^ fst v"
    by auto
  have "snd ` set vs = {..<length ps}"
  proof (intro equalityI subsetI)
    fix k assume "k \<in> snd ` set vs"
    then obtain c where "c \<in> set (sorted_roots ns ps)" "k \<in> descendants ps c" using vs(3) by blast
    then show "k \<in> {..<length ps}" using roots below_lt by blast
  next
    fix k assume "k \<in> {..<length ps}"
    then obtain c where c: "c < length ps" "par ps c = None" "k \<in> descendants ps c"
      using above_root [OF r] by auto
    then have "c \<in> set (sorted_roots ns ps)"
      using root_par [OF assms(3) c(1)] by (simp add: sorted_roots_def)
    with c(3) vs(3) show "k \<in> snd ` set vs" by blast
  qed
  then have "set (map snd vs) = set [0..<length ps]" by auto
  with vs(2) have "mset (map snd vs) = mset [0..<length ps]"
    by (metis distinct_upt set_eq_iff_mset_eq_distinct)
  moreover have "print_forest n alloc ps ns = Some (Some vs)" using vs(1) assms(4) by (simp add: print_forest_def)
  ultimately show ?thesis using vs(4) roots by blast
qed

subsection \<open>The order of the lines\<close>

text \<open>Line \<open>k\<close> stands below line \<open>j\<close>: one level deeper, for a child of its process, with only deeper lines
  between them.\<close>

definition under :: "process list \<Rightarrow> (nat \<times> nat) list \<Rightarrow> nat \<Rightarrow> nat \<Rightarrow> bool" where
  "under ps vs j k \<longleftrightarrow> fst (vs ! k) = fst (vs ! j) + 1 \<and> par ps (snd (vs ! k)) = Some (snd (vs ! j)) \<and>
     (\<forall>l \<in> {j<..k}. fst (vs ! j) < fst (vs ! l))"

text \<open>The lines from level \<open>d\<close> on, of trees whose tops have the parent \<open>q\<close>.\<close>

definition layout :: "process list \<Rightarrow> nat \<Rightarrow> nat option \<Rightarrow> (nat \<times> nat) list \<Rightarrow> bool" where
  "layout ps d q vs \<longleftrightarrow>
     (\<forall>k < length vs. (fst (vs ! k) = d \<and> par ps (snd (vs ! k)) = q) \<or>
        (d < fst (vs ! k) \<and> (\<exists>j < k. under ps vs j k)))"

lemma under_append: "k < length vs \<Longrightarrow> j < k \<Longrightarrow> under ps (vs @ ws) j k = under ps vs j k"
  by (auto simp: under_def nth_append)

lemma under_shift: "under ps (vs @ ws) (length vs + j) (length vs + k) = under ps ws j k"
proof -
  have "(\<forall>l \<in> {length vs + j<..length vs + k}. P ((vs @ ws) ! l)) = (\<forall>l \<in> {j<..k}. P (ws ! l))" for P
  proof (intro iffI ballI)
    fix l assume a: "\<forall>l \<in> {length vs + j<..length vs + k}. P ((vs @ ws) ! l)" "l \<in> {j<..k}"
    then have "P ((vs @ ws) ! (length vs + l))" by (intro bspec [OF a(1)]) simp
    then show "P (ws ! l)" by simp
  next
    fix l assume a: "\<forall>l \<in> {j<..k}. P (ws ! l)" "l \<in> {length vs + j<..length vs + k}"
    then have "l = length vs + (l - length vs)" "l - length vs \<in> {j<..k}" by auto
    then obtain m where "l = length vs + m" "m \<in> {j<..k}" by blast
    with a(1) show "P ((vs @ ws) ! l)" by simp
  qed
  from this [of "\<lambda>v. fst (ws ! j) < fst v"] show ?thesis by (simp add: under_def)
qed

lemma visits_layout_append:
  assumes "layout ps d q vs" "layout ps d q ws"
  shows "layout ps d q (vs @ ws)"
  unfolding layout_def
proof (intro allI impI)
  fix k assume k: "k < length (vs @ ws)"
  show "(fst ((vs @ ws) ! k) = d \<and> par ps (snd ((vs @ ws) ! k)) = q) \<or>
        (d < fst ((vs @ ws) ! k) \<and> (\<exists>j < k. under ps (vs @ ws) j k))"
  proof (cases "k < length vs")
    case True
    with assms(1) under_append [OF True] show ?thesis by (auto simp: layout_def nth_append)
  next
    case False
    then obtain k' where k': "k = length vs + k'" "k' < length ws"
      using k by (metis add_less_cancel_left le_Suc_ex length_append not_less)
    have "(fst (ws ! k') = d \<and> par ps (snd (ws ! k')) = q) \<or> (d < fst (ws ! k') \<and> (\<exists>j < k'. under ps ws j k'))"
      using assms(2) k'(2) by (simp add: layout_def)
    then show ?thesis
    proof (elim disjE conjE exE)
      fix j assume "d < fst (ws ! k')" "j < k'" "under ps ws j k'"
      with k' under_shift [of ps vs ws j k'] show ?thesis
        by (intro disjI2 conjI exI [of _ "length vs + j"]) simp_all
    qed (simp add: k')
  qed
qed

lemma visits_layout_Cons:
  assumes "layout ps (d + 1) (Some i) ws"
  shows "layout ps d (par ps i) ((d, i) # ws)"
  unfolding layout_def
proof (intro allI impI)
  fix k assume k: "k < length ((d, i) # ws)"
  have deep: "d < fst (ws ! l)" if "l < length ws" for l
    using assms that by (fastforce simp: layout_def)
  show "(fst (((d, i) # ws) ! k) = d \<and> par ps (snd (((d, i) # ws) ! k)) = par ps i) \<or>
        (d < fst (((d, i) # ws) ! k) \<and> (\<exists>j < k. under ps ((d, i) # ws) j k))"
  proof (cases k)
    case (Suc k')
    with k have k': "k' < length ws" by simp
    from assms k' consider "fst (ws ! k') = d + 1" "par ps (snd (ws ! k')) = Some i" |
      j where "j < k'" "under ps ws j k'" by (auto simp: layout_def)
    then have "\<exists>j < k. under ps ((d, i) # ws) j k"
    proof cases
      case 1
      moreover have "\<forall>l \<in> {0<..Suc k'}. d < fst (((d, i) # ws) ! l)"
        using deep k' by (auto simp: nth_Cons')
      ultimately show ?thesis using Suc by (intro exI [of _ 0]) (simp add: under_def)
    next
      case 2
      then show ?thesis using under_shift [of ps "[(d, i)]" ws j k'] Suc by (intro exI [of _ "Suc j"]) simp
    qed
    with deep [OF k'] Suc show ?thesis by simp
  qed simp
qed

lemma collect_layout:
  assumes "collect f cs = Some vs" "\<And>c us. c \<in> set cs \<Longrightarrow> f c = Some us \<Longrightarrow> layout ps d q us"
  shows "layout ps d q vs"
  using assms
proof (induction cs arbitrary: vs)
  case (Cons c cs)
  then obtain us ws where u: "f c = Some us" "collect f cs = Some ws" "vs = us @ ws"
    by (auto split: option.splits)
  from Cons.prems(2) [OF _ u(1)] have "layout ps d q us" by simp
  moreover have "layout ps d q ws" by (rule Cons.IH [OF u(2)]) (rule Cons.prems(2), simp_all)
  ultimately show ?case unfolding u(3) by (rule visits_layout_append)
qed (simp add: layout_def)

lemma print_tree_layout:
  assumes "tree_ok ps" "i < length ps" "print_tree m ps i d = Some vs"
  shows "layout ps d (par ps i) vs"
  using assms(2,3)
proof (induction m arbitrary: i d vs)
  case (Suc m)
  then obtain ws where w: "collect (\<lambda>c. print_tree m ps c (d + 1)) (children (ps ! i)) = Some ws" "vs = (d, i) # ws"
    by (auto split: option.splits)
  have l: "layout ps (d + 1) (Some i) us" if "c \<in> set (children (ps ! i))" "print_tree m ps c (d + 1) = Some us" for c us
    using Suc.IH [OF _ that(2)] tree_children(2) [OF assms(1) Suc.prems(1), of c] that(1) by (auto simp: edges_def)
  have "layout ps (d + 1) (Some i) ws" by (rule collect_layout [OF w(1)]) (rule l)
  then show ?case unfolding w(2) by (rule visits_layout_Cons)
qed simp

text \<open>Of two lines of processes with the same parent, the earlier one has the process that \<open>R\<close> allows first.\<close>

definition sibs :: "process list \<Rightarrow> (nat \<Rightarrow> nat \<Rightarrow> bool) \<Rightarrow> (nat \<times> nat) list \<Rightarrow> bool" where
  "sibs ps R vs \<longleftrightarrow> sorted_wrt (\<lambda>v w. par ps (snd v) = par ps (snd w) \<longrightarrow> R (snd v) (snd w)) vs"

lemma below_par:
  assumes "k \<in> descendants ps i" "k \<noteq> i"
  obtains z where "par ps k = Some z" "z \<in> descendants ps i"
proof -
  from assms have "(i, k) \<in> (edges ps)\<^sup>*" by (simp add: descendants_def)
  then show ?thesis
  proof (cases rule: rtranclE)
    case base
    with assms(2) show ?thesis by simp
  next
    case (step z)
    then show ?thesis by (intro that [of z]) (simp_all add: descendants_def edges_def)
  qed
qed

lemma below_no_par:
  assumes "ranked ps rank n" "z \<in> descendants ps i" "i < length ps"
  shows "par ps i \<noteq> Some z"
  using below_rank [OF assms(1,2)] assms(1,3) by (auto simp: ranked_def)

lemma below_siblings:
  assumes r: "ranked ps rank n" and c: "c < length ps" "c' < length ps" "par ps c = par ps c'"
    and d: "descendants ps c \<inter> descendants ps c' = {}"
    and k: "k \<in> descendants ps c" "l \<in> descendants ps c'" "par ps k = par ps l"
  shows "k = c \<and> l = c'"
proof -
  have "l = c' \<or> (\<exists>z. par ps l = Some z \<and> z \<in> descendants ps c')" using below_par [OF k(2)] by blast
  moreover have "k = c \<or> (\<exists>z. par ps k = Some z \<and> z \<in> descendants ps c)" using below_par [OF k(1)] by blast
  ultimately show ?thesis
    using below_no_par [OF r] c d k(3) by (metis disjoint_iff option.inject)
qed

lemma collect_below:
  assumes "collect f cs = Some vs" "\<And>c us. c \<in> set cs \<Longrightarrow> f c = Some us \<Longrightarrow> snd ` set us \<subseteq> B c"
  shows "snd ` set vs \<subseteq> (\<Union>c \<in> set cs. B c)"
  using assms
proof (induction cs arbitrary: vs)
  case (Cons c cs)
  then obtain us ws where u: "f c = Some us" "collect f cs = Some ws" "vs = us @ ws"
    by (auto split: option.splits)
  have "snd ` set ws \<subseteq> (\<Union>c \<in> set cs. B c)" by (rule Cons.IH [OF u(2)]) (rule Cons.prems(2), simp_all)
  moreover have "snd ` set us \<subseteq> B c" using Cons.prems(2) [OF _ u(1)] by simp
  ultimately show ?case unfolding u(3) by auto
qed simp

lemma print_tree_below:
  assumes "tree_ok ps" "i < length ps" "print_tree m ps i d = Some vs"
  shows "snd ` set vs \<subseteq> descendants ps i"
  using assms(2,3)
proof (induction m arbitrary: i d vs)
  case (Suc m)
  then obtain ws where w: "collect (\<lambda>c. print_tree m ps c (d + 1)) (children (ps ! i)) = Some ws" "vs = (d, i) # ws"
    by (auto split: option.splits)
  have l: "snd ` set us \<subseteq> descendants ps c" if "c \<in> set (children (ps ! i))" "print_tree m ps c (d + 1) = Some us" for c us
    using Suc.IH [OF _ that(2)] tree_children(2) [OF assms(1) Suc.prems(1), of c] that(1) by (auto simp: edges_def)
  have "snd ` set ws \<subseteq> (\<Union>c \<in> set (children (ps ! i)). descendants ps c)"
    by (rule collect_below [OF w(1)]) (rule l)
  then show ?case
    unfolding w(2) below_children [OF assms(1) Suc.prems(1)] by auto
qed simp

lemma collect_sibs:
  assumes r: "ranked ps rank n"
    and f: "collect f cs = Some vs"
      "\<And>c us. c \<in> set cs \<Longrightarrow> f c = Some us \<Longrightarrow> sibs ps R us \<and> snd ` set us \<subseteq> descendants ps c"
    and cs: "\<And>c. c \<in> set cs \<Longrightarrow> c < length ps \<and> par ps c = q" "distinct cs" "sorted_wrt R cs"
  shows "sibs ps R vs"
  using f cs
proof (induction cs arbitrary: vs)
  case (Cons c cs)
  then obtain us ws where u: "f c = Some us" "collect f cs = Some ws" "vs = us @ ws"
    by (auto split: option.splits)
  have us: "sibs ps R us" "snd ` set us \<subseteq> descendants ps c" using Cons.prems(2) [OF _ u(1)] by simp_all
  have f: "sibs ps R us \<and> snd ` set us \<subseteq> descendants ps c" if "c \<in> set cs" "f c = Some us" for c us
    using Cons.prems(2) [of c us] that by simp
  have ws: "sibs ps R ws" by (rule Cons.IH [OF u(2)]) (use f Cons.prems(3-) in auto)
  have "snd ` set ws \<subseteq> (\<Union>c \<in> set cs. descendants ps c)"
    by (rule collect_below [OF u(2)]) (use f in blast)
  have "R (snd v) (snd w)" if v: "v \<in> set us" "w \<in> set ws" and eq: "par ps (snd v) = par ps (snd w)" for v w
  proof -
    from v \<open>snd ` set ws \<subseteq> _\<close> obtain c' where c': "c' \<in> set cs" "snd w \<in> descendants ps c'" by blast
    have p: "c < length ps" "c' < length ps" "par ps c = par ps c'" "c \<noteq> c'" "R c c'"
      using Cons.prems(3) [of c] Cons.prems(3) [of c'] Cons.prems(4,5) c'(1) by auto
    have "snd v \<in> descendants ps c" using us(2) v(1) by blast
    from below_siblings [OF r p(1-3) below_disjoint [OF r p(3,4,1,2)] this c'(2) eq] p(5) show ?thesis by simp
  qed
  with us(1) ws show ?case unfolding u(3) sibs_def by (auto simp: sorted_wrt_append)
qed (simp add: sibs_def)

lemma print_tree_sibs:
  assumes ok: "tree_ok ps" and r: "ranked ps rank n" and sorted: "\<And>p. p \<in> set ps \<Longrightarrow> sorted_wrt R (children p)"
    and "i < length ps" "print_tree m ps i d = Some vs"
  shows "sibs ps R vs"
  using assms(4,5)
proof (induction m arbitrary: i d vs)
  case (Suc m)
  then obtain ws where w: "collect (\<lambda>c. print_tree m ps c (d + 1)) (children (ps ! i)) = Some ws" "vs = (d, i) # ws"
    by (auto split: option.splits)
  have c: "c < length ps \<and> par ps c = Some i" if "c \<in> set (children (ps ! i))" for c
    using tree_children(2) [OF ok Suc.prems(1), of c] that by (simp add: edges_def)
  have l: "sibs ps R us \<and> snd ` set us \<subseteq> descendants ps c"
    if "c \<in> set (children (ps ! i))" "print_tree m ps c (d + 1) = Some us" for c us
    using Suc.IH [OF _ that(2)] print_tree_below [OF ok _ that(2)] c [OF that(1)] by blast
  have ws: "sibs ps R ws"
    by (rule collect_sibs [OF r w(1) l])
      (use c tree_children(1) [OF ok Suc.prems(1)] sorted Suc.prems(1) in auto)
  have "snd ` set ws \<subseteq> (\<Union>c \<in> set (children (ps ! i)). descendants ps c)"
    by (rule collect_below [OF w(1)]) (use l in blast)
  have "par ps i \<noteq> par ps (snd v)" if v: "v \<in> set ws" for v
  proof -
    from v \<open>snd ` set ws \<subseteq> _\<close> obtain c' where c': "c' \<in> set (children (ps ! i))" "snd v \<in> descendants ps c'" by blast
    have e: "(i, c') \<in> edges ps" using c'(1) tree_children(2) [OF ok Suc.prems(1)] by simp
    then have sub: "descendants ps c' \<subseteq> descendants ps i"
      by (auto simp: descendants_def intro: converse_rtrancl_into_rtrancl)
    have "i \<in> descendants ps i" by (simp add: descendants_def)
    from c'(2) below_par [of "snd v" ps c'] c [OF c'(1)] obtain z where "par ps (snd v) = Some z" "z \<in> descendants ps i"
      using sub \<open>i \<in> _\<close> by blast
    with below_no_par [OF r _ Suc.prems(1)] show ?thesis by metis
  qed
  with ws show ?case unfolding w(2) by (simp add: sibs_def)
qed simp

lemma print_forest_order:
  assumes ok: "tree_ok ps" and r: "ranked ps rank n" and np: "list_all (\<lambda>p. pid p \<noteq> 0) ps"
    and sorted: "\<And>p. p \<in> set ps \<Longrightarrow> sorted_wrt R (children p)" "sorted_wrt R (sorted_roots ns ps)"
    and pf: "print_forest m alloc ps ns = Some (Some vs)"
  shows "layout ps 0 None vs" "sibs ps R vs"
proof -
  from pf have v: "collect (\<lambda>r. print_tree m ps r 0) (sorted_roots ns ps) = Some vs"
    by (auto simp: print_forest_def split: if_splits option.splits)
  have c: "c < length ps \<and> par ps c = None" if "c \<in> set (sorted_roots ns ps)" for c
    using that root_par [OF np, of c] by (auto simp: sorted_roots_def)
  have l: "layout ps 0 None us" if "c \<in> set (sorted_roots ns ps)" "print_tree m ps c 0 = Some us" for c us
    using print_tree_layout [OF ok _ that(2)] c [OF that(1)] by simp
  show "layout ps 0 None vs" by (rule collect_layout [OF v]) (rule l)
  have b: "sibs ps R us \<and> snd ` set us \<subseteq> descendants ps c"
    if "c \<in> set (sorted_roots ns ps)" "print_tree m ps c 0 = Some us" for c us
    using print_tree_sibs [OF ok r sorted(1) _ that(2)] print_tree_below [OF ok _ that(2)] c [OF that(1)] by blast
  have "distinct (sorted_roots ns ps)" by (simp add: sorted_roots_def)
  with sorted(2) show "sibs ps R vs" by (intro collect_sibs [OF r v b]) (use c in auto)
qed

text \<open>The order that the options ask for.\<close>

definition listed_first :: "bool \<Rightarrow> process \<Rightarrow> process \<Rightarrow> bool" where
  "listed_first by_pid p q \<longleftrightarrow>
     (if by_pid then pid p \<le> pid q
      else strcmp (pname p) (pname q) < 0 \<or> (pname p = pname q \<and> pid p \<le> pid q))"

lemma comparison_listed: "comparison ns p q \<le> 0 \<longleftrightarrow> listed_first ns p q"
  using strcmp_zero [of "pname p" "pname q"]
  by (auto simp: comparison_def compare_by_pid_def compare_by_name_def Let_def listed_first_def)

lemma sorted_children:
  assumes mem: "\<forall>k. alloc k" and "p \<in> set (sort_tree alloc ns ps)"
  shows "sorted_wrt (\<lambda>a b. comparison ns (ps ! a) (ps ! b) \<le> 0) (children p)"
proof -
  from assms(2) obtain q where q: "p = sort_children alloc ns ps q" by (auto simp: sort_tree_def)
  show ?thesis
  proof (cases "length (children q) < 2")
    case True
    then have "children q = [] \<or> (\<exists>x. children q = [x])"
      by (cases "children q" rule: remdups_adj.cases) auto
    with True q show ?thesis by (auto simp: sort_children_def)
  next
    case False
    have "in_order (\<lambda>a b. comparison ns (ps ! a) (ps ! b)) (qsort_by (\<lambda>a b. comparison ns (ps ! a) (ps ! b)) (children q))"
      by (rule in_order_qsort_by) (use comparison_lin comparison_trans in blast)+
    with False q mem show ?thesis by (simp add: sort_children_def in_order_def)
  qed
qed

lemma sorted_sorted_roots: "sorted_wrt (\<lambda>a b. comparison ns (ps ! a) (ps ! b) \<le> 0) (sorted_roots ns ps)"
proof -
  have "in_order (\<lambda>a b. comparison ns (ps ! a) (ps ! b)) (sorted_roots ns ps)"
    unfolding sorted_roots_def by (rule in_order_qsort_by) (use comparison_lin comparison_trans in blast)+
  then show ?thesis by (simp add: in_order_def)
qed

lemma comparison_same:
  "same_procs ps qs \<Longrightarrow> i < length ps \<Longrightarrow> j < length ps \<Longrightarrow>
   comparison ns (ps ! i) (ps ! j) = comparison ns (qs ! i) (qs ! j)"
  using same_procs_nth [of ps qs i] same_procs_nth [of ps qs j]
  by (simp add: comparison_def compare_by_pid_def compare_by_name_def)

lemma sorted_wrt_same:
  assumes "same_procs ps qs" "set xs \<subseteq> {..<length ps}"
    and "sorted_wrt (\<lambda>a b. comparison ns (qs ! a) (qs ! b) \<le> 0) xs"
  shows "sorted_wrt (\<lambda>a b. listed_first ns (ps ! a) (ps ! b)) xs"
  using assms(3)
  by (rule sorted_wrt_mono_rel [rotated])
    (use assms(2) comparison_same [OF assms(1), of _ _ ns] in \<open>auto simp: comparison_listed [symmetric] subset_iff\<close>)

lemma layout_same:
  assumes s: "same_procs ps qs" and "layout qs 0 None vs" "\<forall>v \<in> set vs. snd v < length ps" "k < length vs"
  shows "(fst (vs ! k) = 0 \<and> par ps (snd (vs ! k)) = None) \<or> (\<exists>j < k. under ps vs j k)"
proof -
  have "snd (vs ! k) < length ps" using assms(3,4) by simp
  from par_same [OF s this] assms(2,4) show ?thesis by (auto simp: layout_def under_def)
qed

text \<open>
  C35: When no process has pid 0 and no process is among its own ancestors (a rank below \<open>n\<close> decreases
  from a process to its parent), and memory is not exhausted, the printing ends within depth \<open>n\<close> and
  prints every process exactly once, at the depth at which it stands below a root.  The lines are those
  of a tree: a line of depth 0 is a root, and every other line stands below the line of its parent, with only
  deeper lines between the two.  Of two roots, and of two children of one process, the one with the lower pid
  (with the earlier name, or the same name and the lower pid, when the order by pid is not asked for) is
  printed first.
\<close>
theorem pstree_prints_each_once:
  assumes built: "build_tree alloc ps0 = Some ps1" "list_all (\<lambda>p. children p = []) ps0"
    and "list_all (\<lambda>p. pid p \<noteq> 0) ps0" "ranked ps0 rank n" and mem: "\<forall>k. alloc k"
  shows "\<exists>vs. print_forest n alloc (sort_tree alloc ns ps1) ns = Some (Some vs) \<and>
    mset (map snd vs) = mset [0..<length ps0] \<and>
    (\<forall>v \<in> set vs. \<exists>i < length ps0. is_root ps0 i \<and> (i, snd v) \<in> edges ps0 ^^ fst v) \<and>
    (\<forall>k < length vs. (fst (vs ! k) = 0 \<and> is_root ps0 (snd (vs ! k))) \<or> (\<exists>j < k. under ps0 vs j k)) \<and>
    sorted_wrt (\<lambda>v w. par ps0 (snd v) = par ps0 (snd w) \<longrightarrow> listed_first ns (ps0 ! snd v) (ps0 ! snd w)) vs"
proof -
  let ?ps = "sort_tree alloc ns ps1"
  have ok: "tree_ok ?ps" and s: "same_procs ps0 ?ps" and s1: "same_procs ps0 ps1"
    using build_tree_ok [OF built] sort_tree_ok sort_tree_same same_procs_trans by blast+
  have len: "length ?ps = length ps0" using same_procs_length [OF s] by simp
  have np: "list_all (\<lambda>p. pid p \<noteq> 0) ?ps"
    using assms(3) same_procs_nth [OF s] len by (auto simp: list_all_length)
  note r = same_ranked [OF s assms(4)]
  from print_forest_visits [OF ok r np, of alloc ns] mem len
  obtain vs where vs: "print_forest n alloc ?ps ns = Some (Some vs)" "mset (map snd vs) = mset [0..<length ps0]"
    "\<forall>v \<in> set vs. \<exists>i < length ps0. is_root ?ps i \<and> (i, snd v) \<in> edges ?ps ^^ fst v"
    by auto
  have lt: "\<forall>v \<in> set vs. snd v < length ps0" using mset_eq_setD [OF vs(2)] by (auto simp: set_eq_iff image_iff)
  let ?R = "\<lambda>a b. listed_first ns (ps0 ! a) (ps0 ! b)"
  have ch: "sorted_wrt ?R (children p)" if p: "p \<in> set ?ps" for p
  proof -
    from p obtain j where "j < length ?ps" "p = ?ps ! j" by (metis in_set_conv_nth)
    with tree_children(2) [OF ok, of j] len have "set (children p) \<subseteq> {..<length ps0}" by (auto simp: edges_def)
    from sorted_wrt_same [OF s1 this sorted_children [OF mem p]] show ?thesis .
  qed
  have "set (sorted_roots ns ?ps) \<subseteq> {..<length ps0}" by (auto simp: sorted_roots_def len)
  from sorted_wrt_same [OF s this sorted_sorted_roots] have ro: "sorted_wrt ?R (sorted_roots ns ?ps)" .
  note o = print_forest_order [OF ok r np ch ro vs(1)]
  have "(fst (vs ! k) = 0 \<and> is_root ps0 (snd (vs ! k))) \<or> (\<exists>j < k. under ps0 vs j k)" if k: "k < length vs" for k
    using layout_same [OF s o(1) lt k] root_par [OF assms(3), of "snd (vs ! k)"] lt k by auto
  moreover have "sorted_wrt (\<lambda>v w. par ps0 (snd v) = par ps0 (snd w) \<longrightarrow> ?R (snd v) (snd w)) vs"
    using o(2) unfolding sibs_def
    by (rule sorted_wrt_mono_rel [rotated]) (use lt par_same [OF s] in auto)
  moreover from vs(3)
  have "\<forall>v \<in> set vs. \<exists>i < length ps0. is_root ps0 i \<and> (i, snd v) \<in> edges ps0 ^^ fst v"
    using same_edges [OF s] same_root [OF s] by metis
  ultimately show ?thesis using vs(1,2) by blast
qed

subsection \<open>Process 0\<close>

lemma collect_None: "x \<in> set xs \<Longrightarrow> f x = None \<Longrightarrow> collect f xs = None"
  by (induction xs) (auto split: option.splits)

lemma print_tree_loops: "i \<in> set (children (ps ! i)) \<Longrightarrow> print_tree m ps i d = None"
proof (induction m arbitrary: d)
  case (Suc m)
  then have "collect (\<lambda>c. print_tree m ps c (d + 1)) (children (ps ! i)) = None"
    by (intro collect_None [of i]) auto
  then show ?case by simp
qed simp

text \<open>
  C40: If the directory lists a process 0 whose parent is 0, that process is a root and its own child:
  the printing does not end, whatever the bound on its depth.
\<close>
theorem pstree_zero_diverges:
  assumes built: "build_tree alloc ps0 = Some ps1" "list_all (\<lambda>p. children p = []) ps0"
    and i: "find_process_index ps0 0 = Some i" "ppid (ps0 ! i) = 0" and mem: "alloc (length ps0)"
  shows "print_forest n alloc (sort_tree alloc ns ps1) ns = None"
proof -
  let ?ps = "sort_tree alloc ns ps1"
  have ok: "tree_ok ?ps" and s: "same_procs ps0 ?ps"
    using build_tree_ok [OF built] sort_tree_ok sort_tree_same same_procs_trans by blast+
  have p: "par ps0 i = Some i" using i by (simp add: par_def)
  then have lt: "i < length ps0" "i < length ?ps" using par_lt same_procs_length [OF s] by fastforce+
  have "(i, i) \<in> edges ?ps"
    using p lt same_edges [OF s] by (auto simp: edges_def)
  then have "print_tree n ?ps i 0 = None"
    using tree_children(2) [OF ok lt(2)] print_tree_loops by blast
  moreover have "i \<in> set (sorted_roots ns ?ps)"
    using lt same_procs_nth [OF s lt(1)] i(2) by (simp add: sorted_roots_def is_root_def)
  ultimately have "collect (\<lambda>r. print_tree n ?ps r 0) (sorted_roots ns ?ps) = None"
    by (intro collect_None)
  then show ?thesis using mem same_procs_length [OF s] by (simp add: print_forest_def)
qed

definition proc :: "int \<Rightarrow> int \<Rightarrow> string \<Rightarrow> process" where
  "proc p q n = \<lparr>pid = p, ppid = q, pname = n, children = [], child_cap = 0\<rparr>"

lemma pstree_zero_diverges_witness:
  "print_forest 100 (\<lambda>_. True) (sort_tree (\<lambda>_. True) False
     [\<lparr>pid = 0, ppid = 0, pname = ''idle'', children = [0, 1], child_cap = 4\<rparr>, proc 1 0 ''init'']) False = None"
  by (rule pstree_zero_diverges [of _ "[proc 0 0 ''idle'', proc 1 0 ''init'']" _ 0])
    (simp_all add: build_tree_def proc_def find_process_index_def add_child_def Let_def)

lemma pstree_prints_each_once_witness:
  "\<exists>vs. print_forest 3 (\<lambda>_. True) (sort_tree (\<lambda>_. True) True
       [\<lparr>pid = 1, ppid = 0, pname = ''init'', children = [1, 2], child_cap = 4\<rparr>, proc 9 1 ''sh'', proc 5 1 ''sh''])
     True = Some (Some vs) \<and> mset (map snd vs) = mset [0..<3]"
proof -
  let ?ps0 = "[proc 1 0 ''init'', proc 9 1 ''sh'', proc 5 1 ''sh'']"
  let ?ps1 = "[\<lparr>pid = 1, ppid = 0, pname = ''init'', children = [1, 2], child_cap = 4\<rparr>, proc 9 1 ''sh'', proc 5 1 ''sh'']"
  have r: "ranked ?ps0 (\<lambda>i. if i = 0 then 0 else 1) 3"
    by (auto simp: ranked_def par_def proc_def find_process_index_def less_Suc_eq numeral_eq_Suc)
  have b: "build_tree (\<lambda>_. True) ?ps0 = Some ?ps1"
    by (simp add: build_tree_def proc_def find_process_index_def add_child_def Let_def upt_conv_Cons)
  have "list_all (\<lambda>p. children p = []) ?ps0" "list_all (\<lambda>p. pid p \<noteq> 0) ?ps0"
    by (simp_all add: proc_def)
  from pstree_prints_each_once [OF b this r, of True] obtain vs where
    "print_forest 3 (\<lambda>_. True) (sort_tree (\<lambda>_. True) True ?ps1) True = Some (Some vs)"
    "mset (map snd vs) = mset [0..<length ?ps0]" by blast
  moreover have "length ?ps0 = 3" by simp
  ultimately show ?thesis by metis
qed

end
