(* ===== verification/Sperf.thy ===== *)
theory Sperf
  imports CText "HOL-Library.Word"
begin

text \<open>
  \<open>sperf.c\<close>: the lines of strace, the statistics, the report, the command that is started, and the
  loop of the profiler.  Times are doubles that passed the test for being at least zero, which are
  linearly ordered and are no NaN; addition, \<open>strtod\<close> and the percentage are left open.
\<close>

definition MAX_SYSCALLS :: nat where "MAX_SYSCALLS = 512"
definition NAME_LEN :: nat where "NAME_LEN = 64"
definition REFRESH_MS :: int where "REFRESH_MS = 100"
definition CLEAR_BYTES :: nat where "CLEAR_BYTES = 80"

record 'd syscall_stat =
  sname :: string
  seconds :: 'd

record 'd stats =
  calls :: "'d syscall_stat list"
  total_seconds :: 'd
  generation :: "64 word"

subsection \<open>The command\<close>

text \<open>\<open>alloc n\<close> says whether \<open>n\<close> bytes can be allocated; \<open>None\<close> is a null pointer.\<close>

definition xstrdup :: "(nat \<Rightarrow> bool) \<Rightarrow> string \<Rightarrow> string option" where
  "xstrdup alloc s = (let len = length s + 1 in if alloc len then Some s else None)"

definition join_path :: "(nat \<Rightarrow> bool) \<Rightarrow> string \<Rightarrow> string \<Rightarrow> string option" where
  "join_path alloc dir name =
     (let need_slash = (dir \<noteq> [] \<and> last dir \<noteq> CHR ''/'') in
      if \<not> alloc (length dir + (if need_slash then 1 else 0) + length name + 1) then None
      else Some (if need_slash then dir @ ''/'' @ name else dir @ name))"

text \<open>\<open>strtok_r(s, ":")\<close>: the parts between colons that are not empty.\<close>

fun colon_parts :: "string \<Rightarrow> string \<Rightarrow> string list" where
  "colon_parts part [] = (if part = [] then [] else [part])"
| "colon_parts part (c # s) =
     (if c = CHR '':'' then (if part = [] then colon_parts [] s else part # colon_parts [] s)
      else colon_parts (part @ [c]) s)"

text \<open>The loop over the parts.\<close>

primrec first_executable ::
  "(nat \<Rightarrow> bool) \<Rightarrow> (string \<Rightarrow> bool) \<Rightarrow> string \<Rightarrow> string list \<Rightarrow> string option" where
  "first_executable alloc access command [] = None"
| "first_executable alloc access command (part # parts) =
     (case join_path alloc (if part = [] then ''.'' else part) command of
        None \<Rightarrow> None
      | Some candidate \<Rightarrow>
          if access candidate then Some candidate else first_executable alloc access command parts)"

definition resolve_executable ::
  "(nat \<Rightarrow> bool) \<Rightarrow> (string \<Rightarrow> bool) \<Rightarrow> string option \<Rightarrow> string \<Rightarrow> string option" where
  "resolve_executable alloc access path command =
     (if command \<noteq> [] \<and> hd command = CHR ''/'' \<or> CHR ''/'' \<in> set command
      then (if access command then xstrdup alloc command else None)
      else
        (let path_env = (case path of None \<Rightarrow> ''/bin:/usr/bin''
                         | Some p \<Rightarrow> if p = [] then ''/bin:/usr/bin'' else p) in
         case xstrdup alloc path_env of
           None \<Rightarrow> None
         | Some path_copy \<Rightarrow> first_executable alloc access command (colon_parts [] path_copy)))"

text \<open>The array of \<open>argc + 6\<close> pointers, initially null, filled from the front.\<close>

definition strace_args :: "string list \<Rightarrow> string \<Rightarrow> string \<Rightarrow> string \<Rightarrow> string list" where
  "strace_args argv strace_path target_path fd_path =
     [strace_path, ''-T'', ''-qq'', ''-o'', fd_path, ''--'', target_path] @ drop 2 argv"

fun put_args :: "string option list \<Rightarrow> nat \<Rightarrow> string option list \<Rightarrow> string option list option" where
  "put_args arr j [] = Some arr"
| "put_args arr j (a # as) = (if j < length arr then put_args (arr[j := a]) (j + 1) as else None)"

definition make_strace_argv ::
  "string list \<Rightarrow> string \<Rightarrow> string \<Rightarrow> string \<Rightarrow> string option list option" where
  "make_strace_argv argv strace_path target_path fd_path =
     put_args (replicate (length argv + 6) None) 0
       (map Some (strace_args argv strace_path target_path fd_path) @ [None])"

text \<open>What the child does, if it writes no pointer behind the array: it exits with status 127, or
  executes a program with its arguments.\<close>

datatype child_end = Exit_127 | Exec string "string option list"

definition child_exec ::
  "(nat \<Rightarrow> bool) \<Rightarrow> (string \<Rightarrow> bool) \<Rightarrow> string option \<Rightarrow> string list \<Rightarrow> nat \<Rightarrow> child_end option" where
  "child_exec alloc access path argv write_fd =
     (case (resolve_executable alloc access path ''strace'', resolve_executable alloc access path (argv ! 1)) of
        (Some strace_path, Some target_path) \<Rightarrow>
          (if \<not> alloc ((length argv + 6) * 8) then Some Exit_127
           else
             (case make_strace_argv argv strace_path target_path (''/dev/fd/'' @ dec write_fd) of
                Some trace_argv \<Rightarrow> Some (Exec strace_path trace_argv)
              | None \<Rightarrow> None))
      | _ \<Rightarrow> Some Exit_127)"

subsection \<open>Lines of strace\<close>

text \<open>\<open>strtod s\<close> is the value (\<open>None\<close> for NaN), the number of characters read, and whether \<open>errno\<close> is
  set.\<close>

definition strip_right :: "string \<Rightarrow> string" where
  "strip_right s = rev (dropWhile is_space (rev s))"

definition last_open :: "string \<Rightarrow> nat option" where
  "last_open s =
     (if CHR ''<'' \<in> set s then Some (length s - 1 - length (takeWhile (\<lambda>c. c \<noteq> CHR ''<'') (rev s)))
      else None)"

definition parse_elapsed_seconds ::
  "(string \<Rightarrow> 'd::{linorder,zero} option \<times> nat \<times> bool) \<Rightarrow> string \<Rightarrow> 'd option" where
  "parse_elapsed_seconds strtod line =
     (let s = strip_right line in
      if s = [] \<or> last s \<noteq> CHR ''>'' then None
      else
        (case last_open s of
           None \<Rightarrow> None
         | Some start \<Rightarrow>
             (case strtod (drop (start + 1) line) of
                (value, n, err) \<Rightarrow>
                  let close = length s - 1;
                      parse_end = start + 1 + n;
                      parse_end = parse_end + length (takeWhile is_space (drop parse_end (take close line))) in
                  (case value of
                     Some v \<Rightarrow> if \<not> err \<and> parse_end = close \<and> 0 \<le> v then Some v else None
                   | None \<Rightarrow> None))))"

definition name_char :: "char \<Rightarrow> bool" where
  "name_char c \<longleftrightarrow> is_alnum c \<or> c = CHR ''_''"

text \<open>The name in a buffer of \<open>n\<close> bytes.\<close>

definition parse_syscall_name :: "nat \<Rightarrow> string \<Rightarrow> string option" where
  "parse_syscall_name n line =
     (if starts_with ''<... '' line
      then (let w = take (n - 1) (takeWhile (\<lambda>c. \<not> is_space c \<and> c \<noteq> CHR ''>'') (drop 5 line)) in
            if w = [] then None else Some w)
      else if line = [] \<or> \<not> (is_alpha (hd line) \<or> hd line = CHR ''_'') then None
      else
        (let w = takeWhile name_char line; out = take (n - 1) w in
         if dropWhile name_char line = [] \<or> hd (dropWhile name_char line) \<noteq> CHR ''('' \<or> out = []
         then None else Some out))"

subsection \<open>Statistics\<close>

fun add_to_calls :: "'d::plus syscall_stat list \<Rightarrow> string \<Rightarrow> 'd \<Rightarrow> 'd syscall_stat list option" where
  "add_to_calls [] name s = None"
| "add_to_calls (c # cs) name s =
     (if sname c = name then Some (c\<lparr>seconds := seconds c + s\<rparr> # cs)
      else (case add_to_calls cs name s of None \<Rightarrow> None | Some cs' \<Rightarrow> Some (c # cs')))"

definition add_stat :: "'d::plus stats \<Rightarrow> string \<Rightarrow> 'd \<Rightarrow> 'd stats" where
  "add_stat st name s =
     (case add_to_calls (calls st) name s of
        Some cs \<Rightarrow> st\<lparr>calls := cs, total_seconds := total_seconds st + s, generation := generation st + 1\<rparr>
      | None \<Rightarrow>
          let st = (if length (calls st) < MAX_SYSCALLS
                    then st\<lparr>calls := calls st @ [\<lparr>sname = take (NAME_LEN - 1) name, seconds = s\<rparr>]\<rparr> else st) in
          st\<lparr>total_seconds := total_seconds st + s, generation := generation st + 1\<rparr>)"

text \<open>\<open>before\<close>: the call at \<open>i\<close> replaces the best one at \<open>j\<close>.\<close>

definition before :: "'d::linorder syscall_stat list \<Rightarrow> nat \<Rightarrow> nat \<Rightarrow> bool" where
  "before cs i j \<longleftrightarrow>
     seconds (cs ! i) > seconds (cs ! j) \<or>
     seconds (cs ! i) = seconds (cs ! j) \<and> strcmp (sname (cs ! i)) (sname (cs ! j)) < 0"

primrec best_of :: "'d::{linorder,zero} syscall_stat list \<Rightarrow> nat list \<Rightarrow> nat list \<Rightarrow> nat option \<Rightarrow> nat option" where
  "best_of cs used [] best = best"
| "best_of cs used (i # is) best =
     (if i \<in> set used \<or> seconds (cs ! i) \<le> 0 then best_of cs used is best
      else if (case best of None \<Rightarrow> True | Some b \<Rightarrow> before cs i b) then best_of cs used is (Some i)
      else best_of cs used is best)"

text \<open>The loop that fills \<open>indices\<close>, which are also the used ones; it can run \<open>fuel\<close> more times.\<close>

fun pick_loop :: "'d::{linorder,zero} syscall_stat list \<Rightarrow> nat \<Rightarrow> nat list \<Rightarrow> nat list" where
  "pick_loop cs 0 out = out"
| "pick_loop cs (Suc fuel) out =
     (case best_of cs out [0..<length cs] None of
        None \<Rightarrow> out
      | Some b \<Rightarrow> pick_loop cs fuel (out @ [b]))"

definition pick_top :: "'d::{linorder,zero} syscall_stat list \<Rightarrow> nat \<Rightarrow> nat list" where
  "pick_top cs max_n = pick_loop cs (min max_n (length cs)) []"

definition print_report :: "('d \<Rightarrow> 'd \<Rightarrow> int) \<Rightarrow> 'd::{linorder,zero} stats \<Rightarrow> string list" where
  "print_report percent st =
     (if total_seconds st \<le> 0 then []
      else map (\<lambda>i. sname (calls st ! i) @ '' ('' @
                  show_int (percent (seconds (calls st ! i)) (total_seconds st)) @ ''%)\<newline>'')
             (pick_top (calls st) 5) @ [replicate CLEAR_BYTES (CHR 0x00)])"

subsection \<open>The loop\<close>

text \<open>The state of \<open>run_profiler\<close>, with the number of readings of the clock and what is printed.\<close>

record 'd profiler =
  pstats :: "'d stats"
  last_report :: int
  printed_generation :: "64 word"
  ticks :: nat
  printed :: "string list"

definition count_line ::
  "(string \<Rightarrow> 'd::{linorder,zero,plus} option \<times> nat \<times> bool) \<Rightarrow> (nat \<Rightarrow> int) \<Rightarrow> string \<Rightarrow> 'd profiler \<Rightarrow> 'd profiler"
where
  "count_line strtod clock line p =
     (case parse_elapsed_seconds strtod line of
        None \<Rightarrow> p
      | Some s \<Rightarrow>
          (case parse_syscall_name NAME_LEN line of
             None \<Rightarrow> p
           | Some name \<Rightarrow>
               let p = p\<lparr>pstats := add_stat (pstats p) name s\<rparr> in
               if last_report p = 0 then p\<lparr>last_report := clock (ticks p), ticks := ticks p + 1\<rparr> else p))"

definition maybe_report ::
  "('d \<Rightarrow> 'd \<Rightarrow> int) \<Rightarrow> (nat \<Rightarrow> int) \<Rightarrow> 'd::{linorder,zero} profiler \<Rightarrow> 'd profiler" where
  "maybe_report percent clock p =
     (if last_report p = 0 then p
      else
        (let now = clock (ticks p); p = p\<lparr>ticks := ticks p + 1\<rparr> in
         if now - last_report p \<ge> REFRESH_MS \<and> generation (pstats p) \<noteq> printed_generation p
         then p\<lparr>printed := printed p @ print_report percent (pstats p),
                printed_generation := generation (pstats p),
                last_report := clock (ticks p), ticks := ticks p + 1\<rparr>
         else p))"

definition profile_line where
  "profile_line strtod percent clock line p = maybe_report percent clock (count_line strtod clock line p)"

datatype wait_status = Exited nat | Signaled nat | Other_status

definition exit_status :: "wait_status \<Rightarrow> nat" where
  "exit_status s = (case s of Exited n \<Rightarrow> n | Signaled n \<Rightarrow> 128 + n | Other_status \<Rightarrow> 1)"

definition start :: "'d::zero profiler" where
  "start = \<lparr>pstats = \<lparr>calls = [], total_seconds = 0, generation = 0\<rparr>, last_report = 0,
            printed_generation = 0, ticks = 0, printed = []\<rparr>"

text \<open>Whether \<open>pipe\<close>, \<open>fork\<close> and \<open>fdopen\<close> succeed.\<close>

record launch =
  got_pipe :: bool
  got_child :: bool
  got_stream :: bool

text \<open>\<open>run_profiler\<close> in the parent: what it prints and its status.  \<open>lines\<close> are the strings that
  \<open>getline\<close> delivers, \<open>wait\<close> is what \<open>waitpid\<close> delivers.\<close>

definition run_profiler where
  "run_profiler e strtod percent clock lines wait =
     (if \<not> got_pipe e then ([], 1)
      else if \<not> got_child e then ([], 1)
      else if \<not> got_stream e then ([], 1)
      else
        (let p = fold (profile_line strtod percent clock) lines start in
         case wait of
           None \<Rightarrow> (printed p, 1)
         | Some s \<Rightarrow>
             (if generation (pstats p) \<noteq> printed_generation p
              then printed p @ print_report percent (pstats p) else printed p, exit_status s)))"

definition sperf_main where
  "sperf_main argv e strtod percent clock lines wait =
     (if length argv < 2 then ([], 1) else run_profiler e strtod percent clock lines wait)"

end
