(* ===== verification/SperfCorrect.thy ===== *)
theory SperfCorrect
  imports Sperf
begin

text \<open>
  Properties of \<open>sperf.c\<close>: the statistics are the sums of the times per call, the report has the
  calls that took longest in order, the last thing printed is the report of all calls, and the
  arguments of strace fit their array.
\<close>

subsection \<open>The largest entries\<close>

lemma strcmp_less_trans: "strcmp a b < 0 \<Longrightarrow> strcmp b c < 0 \<Longrightarrow> strcmp a c < 0"
proof -
  assume l: "strcmp a b < 0" "strcmp b c < 0"
  then have "strcmp a c \<le> 0" using strcmp_trans [of a b c] by simp
  moreover have "strcmp a c \<noteq> 0" using l strcmp_flip [of a b] strcmp_zero [of a c] by auto
  ultimately show ?thesis by simp
qed

lemma before_irrefl: "\<not> before cs i i"
  by (simp add: before_def)

lemma before_trans: "before cs i j \<Longrightarrow> before cs j k \<Longrightarrow> before cs i k"
  using strcmp_less_trans [of "sname (cs ! i)" "sname (cs ! j)" "sname (cs ! k)"]
  unfolding before_def by auto

lemma before_weak_trans: "\<not> before cs j i \<Longrightarrow> \<not> before cs k j \<Longrightarrow> \<not> before cs k i"
proof
  assume a: "\<not> before cs j i" "\<not> before cs k j" "before cs k i"
  have s: "seconds (cs ! j) \<le> seconds (cs ! i)" "seconds (cs ! k) \<le> seconds (cs ! j)"
    "seconds (cs ! i) \<le> seconds (cs ! k)"
    using a by (auto simp: before_def)
  then have eq: "seconds (cs ! j) = seconds (cs ! i)" "seconds (cs ! k) = seconds (cs ! j)" by auto
  with a have "strcmp (sname (cs ! i)) (sname (cs ! j)) \<le> 0" "strcmp (sname (cs ! j)) (sname (cs ! k)) \<le> 0"
    "strcmp (sname (cs ! k)) (sname (cs ! i)) < 0"
    using strcmp_flip [of "sname (cs ! i)" "sname (cs ! j)"] strcmp_flip [of "sname (cs ! j)" "sname (cs ! k)"]
    by (auto simp: before_def)
  with strcmp_trans [of "sname (cs ! i)" "sname (cs ! j)" "sname (cs ! k)"]
    strcmp_flip [of "sname (cs ! i)" "sname (cs ! k)"]
  show False by simp
qed

definition candidate :: "'d::{linorder,zero} syscall_stat list \<Rightarrow> nat list \<Rightarrow> nat \<Rightarrow> bool" where
  "candidate cs used i \<longleftrightarrow> i \<notin> set used \<and> 0 < seconds (cs ! i)"

text \<open>\<open>b\<close> is the best of \<open>S\<close> that the search keeps.\<close>

definition best_in :: "'d::{linorder,zero} syscall_stat list \<Rightarrow> nat list \<Rightarrow> nat set \<Rightarrow> nat option \<Rightarrow> bool" where
  "best_in cs used S b \<longleftrightarrow>
     (case b of
        None \<Rightarrow> \<forall>i \<in> S. \<not> candidate cs used i
      | Some b \<Rightarrow> b \<in> S \<and> candidate cs used b \<and> (\<forall>i \<in> S. candidate cs used i \<longrightarrow> \<not> before cs i b))"

lemma best_of_best:
  "best_in cs used S b \<Longrightarrow> best_in cs used (S \<union> set is) (best_of cs used is b)"
proof (induction "is" arbitrary: S b)
  case (Cons i "is")
  have split: "S \<union> set (i # is) = insert i S \<union> set is" by auto
  have "best_in cs used (insert i S)
      (if i \<in> set used \<or> seconds (cs ! i) \<le> 0 then b
       else if (case b of None \<Rightarrow> True | Some b \<Rightarrow> before cs i b) then Some i else b)"
  proof (cases "i \<in> set used \<or> seconds (cs ! i) \<le> 0")
    case True
    then have "\<not> candidate cs used i" by (auto simp: candidate_def)
    with True Cons.prems show ?thesis by (auto simp: best_in_def split: option.splits)
  next
    case False
    then have i: "candidate cs used i" by (auto simp: candidate_def)
    show ?thesis
    proof (cases b)
      case None
      with False i Cons.prems before_irrefl [of cs i] show ?thesis by (auto simp: best_in_def)
    next
      case (Some c)
      then have c: "c \<in> S" "candidate cs used c" "\<forall>k \<in> S. candidate cs used k \<longrightarrow> \<not> before cs k c"
        using Cons.prems by (simp_all add: best_in_def)
      show ?thesis
      proof (cases "before cs i c")
        case True
        then have "\<not> before cs k i" if "k \<in> S" "candidate cs used k" for k
          using before_trans [of cs k i c] c(3) that by blast
        with True False Some i before_irrefl [of cs i] show ?thesis by (auto simp: best_in_def)
      next
        case nb: False
        with False Some c show ?thesis by (auto simp: best_in_def)
      qed
    qed
  qed
  from Cons.IH [OF this] have "best_in cs used (insert i S \<union> set is) (best_of cs used is
      (if i \<in> set used \<or> seconds (cs ! i) \<le> 0 then b
       else if (case b of None \<Rightarrow> True | Some b \<Rightarrow> before cs i b) then Some i else b))" .
  moreover have "best_of cs used (i # is) b = best_of cs used is
      (if i \<in> set used \<or> seconds (cs ! i) \<le> 0 then b
       else if (case b of None \<Rightarrow> True | Some b \<Rightarrow> before cs i b) then Some i else b)"
    by simp
  ultimately show ?case unfolding split by simp
qed simp

text \<open>The picked indices are positive, distinct and in order, and no other positive one comes before.\<close>

definition picked :: "'d::{linorder,zero} syscall_stat list \<Rightarrow> nat list \<Rightarrow> bool" where
  "picked cs out \<longleftrightarrow>
     distinct out \<and> (\<forall>i \<in> set out. i < length cs \<and> 0 < seconds (cs ! i)) \<and>
     sorted_wrt (\<lambda>i j. \<not> before cs j i) out \<and>
     (\<forall>j < length cs. candidate cs out j \<longrightarrow> (\<forall>i \<in> set out. \<not> before cs j i))"

lemma picked_step:
  assumes "picked cs out" "best_of cs out [0..<length cs] None = Some b"
  shows "picked cs (out @ [b])" "b \<notin> set out"
proof -
  have "best_in cs out {} None" by (simp add: best_in_def)
  from best_of_best [OF this, of "[0..<length cs]"] assms(2)
  have b: "b < length cs" "candidate cs out b" "\<forall>i < length cs. candidate cs out i \<longrightarrow> \<not> before cs i b"
    by (auto simp: best_in_def)
  then show "b \<notin> set out" by (simp add: candidate_def)
  show "picked cs (out @ [b])"
    unfolding picked_def
  proof (intro conjI ballI allI impI)
    show "distinct (out @ [b])" using assms(1) \<open>b \<notin> set out\<close> by (simp add: picked_def)
    show "sorted_wrt (\<lambda>i j. \<not> before cs j i) (out @ [b])"
      using assms(1) b by (simp add: picked_def sorted_wrt_append)
    fix i assume "i \<in> set (out @ [b])"
    then show "i < length cs" "0 < seconds (cs ! i)"
      using assms(1) b by (auto simp: picked_def candidate_def)
    fix j assume "j < length cs" "candidate cs (out @ [b]) j"
    then have "candidate cs out j" by (simp add: candidate_def)
    then show "\<not> before cs j i"
      using assms(1) b(3) \<open>i \<in> set (out @ [b])\<close> \<open>j < length cs\<close> by (auto simp: picked_def)
  qed
qed

lemma pick_loop_picked:
  assumes "picked cs out"
  shows "picked cs (pick_loop cs fuel out) \<and> length (pick_loop cs fuel out) \<le> length out + fuel \<and>
    (length (pick_loop cs fuel out) = length out + fuel \<or>
     (\<forall>j < length cs. \<not> candidate cs (pick_loop cs fuel out) j))"
  using assms
proof (induction fuel arbitrary: out)
  case (Suc fuel)
  show ?case
  proof (cases "best_of cs out [0..<length cs] None")
    case None
    have "best_in cs out {} None" by (simp add: best_in_def)
    from best_of_best [OF this, of "[0..<length cs]"] None
    have "\<forall>i < length cs. \<not> candidate cs out i" by (simp add: best_in_def)
    with None Suc.prems show ?thesis by simp
  next
    case (Some b)
    from Suc.IH [OF picked_step(1) [OF Suc.prems Some]] Some show ?thesis by simp
  qed
qed simp

text \<open>
  The order of the report, said without the comparison of the code: one call is listed above
  another when it took longer, or as long and its name is not the later one.
\<close>

definition above :: "'d::linorder syscall_stat \<Rightarrow> 'd syscall_stat \<Rightarrow> bool" where
  "above c d \<longleftrightarrow> seconds d < seconds c \<or> (seconds d = seconds c \<and> strcmp (sname c) (sname d) \<le> 0)"

lemma not_before_above: "\<not> before cs j i \<longleftrightarrow> above (cs ! i) (cs ! j)"
proof -
  have "0 \<le> strcmp (sname (cs ! j)) (sname (cs ! i)) \<longleftrightarrow> strcmp (sname (cs ! i)) (sname (cs ! j)) \<le> 0"
    using strcmp_flip [of "sname (cs ! i)" "sname (cs ! j)"] by arith
  then show ?thesis by (auto simp: before_def above_def not_less)
qed

text \<open>
  C37: \<open>pick_top\<close> returns the calls of the longest times: different calls of positive time, each of
  which took longer than the ones after it, or as long with a name that is not later; every call of
  positive time that is left out took no longer than any that is returned, and when it took as long
  its name is not earlier; and there are \<open>max_n\<close> of them, or all calls of positive time if those are
  fewer.
\<close>
theorem pick_top_correct:
  fixes cs :: "'d::{linorder,zero} syscall_stat list"
  shows "length (pick_top cs max_n) = min max_n (card {j. j < length cs \<and> 0 < seconds (cs ! j)}) \<and>
    distinct (pick_top cs max_n) \<and>
    list_all (\<lambda>i. i < length cs \<and> 0 < seconds (cs ! i)) (pick_top cs max_n) \<and>
    sorted_wrt (\<lambda>i j. seconds (cs ! j) < seconds (cs ! i) \<or>
      (seconds (cs ! j) = seconds (cs ! i) \<and> strcmp (sname (cs ! i)) (sname (cs ! j)) \<le> 0)) (pick_top cs max_n) \<and>
    (\<forall>j < length cs. j \<in> set (pick_top cs max_n) \<or> seconds (cs ! j) \<le> 0 \<or>
       list_all (\<lambda>i. seconds (cs ! j) < seconds (cs ! i) \<or>
         (seconds (cs ! j) = seconds (cs ! i) \<and> strcmp (sname (cs ! i)) (sname (cs ! j)) \<le> 0)) (pick_top cs max_n))"
proof -
  let ?out = "pick_top cs max_n"
  let ?pos = "{j. j < length cs \<and> 0 < seconds (cs ! j)}"
  have "picked cs []" by (simp add: picked_def)
  from pick_loop_picked [OF this, of "min max_n (length cs)"]
  have p: "picked cs ?out" "length ?out \<le> min max_n (length cs)"
    "length ?out = min max_n (length cs) \<or> (\<forall>j < length cs. \<not> candidate cs ?out j)"
    by (simp_all add: pick_top_def)
  have sub: "set ?out \<subseteq> ?pos" using p(1) by (auto simp: picked_def)
  have fin: "finite ?pos" by simp
  have len: "length ?out = card (set ?out)" using p(1) by (simp add: picked_def distinct_card)
  have le: "length ?out \<le> card ?pos" using card_mono [OF fin sub] len by simp
  have all: "card ?pos \<le> length cs" using card_mono [of "{..<length cs}" ?pos] by auto
  have "length ?out = min max_n (card ?pos)"
  proof (cases "length ?out = min max_n (length cs)")
    case True
    with le all show ?thesis by linarith
  next
    case False
    with p(3) have "?pos \<subseteq> set ?out" by (auto simp: candidate_def)
    with sub have "set ?out = ?pos" by blast
    with len p(2) show ?thesis by simp
  qed
  with p(1) show ?thesis
    unfolding picked_def candidate_def not_before_above above_def list_all_iff not_less [symmetric]
    by blast
qed

lemma pick_top_correct_witness:
  "pick_top [\<lparr>sname = ''read'', seconds = 2\<rparr>, \<lparr>sname = ''close'', seconds = 0\<rparr>,
             \<lparr>sname = ''open'', seconds = 3\<rparr>, \<lparr>sname = ''mmap'', seconds = (2::nat)\<rparr>] 2 = [2, 3] \<and>
   distinct (pick_top [\<lparr>sname = ''read'', seconds = 2\<rparr>, \<lparr>sname = ''close'', seconds = 0\<rparr>,
             \<lparr>sname = ''open'', seconds = 3\<rparr>, \<lparr>sname = ''mmap'', seconds = (2::nat)\<rparr>] 2)"
proof
  show "distinct (pick_top [\<lparr>sname = ''read'', seconds = 2\<rparr>, \<lparr>sname = ''close'', seconds = 0\<rparr>,
             \<lparr>sname = ''open'', seconds = 3\<rparr>, \<lparr>sname = ''mmap'', seconds = (2::nat)\<rparr>] 2)"
    using pick_top_correct by blast
qed (code_simp)

subsection \<open>Statistics\<close>

text \<open>The call and its time, for the lines that the profiler counts.\<close>

definition event_of where
  "event_of strtod line =
     (case parse_elapsed_seconds strtod line of
        None \<Rightarrow> None
      | Some s \<Rightarrow> (case parse_syscall_name NAME_LEN line of None \<Rightarrow> None | Some name \<Rightarrow> Some (name, s)))"

definition add_event :: "string \<times> 'd::plus \<Rightarrow> 'd stats \<Rightarrow> 'd stats" where
  "add_event e st = add_stat st (fst e) (snd e)"

definition times_of :: "string \<Rightarrow> (string \<times> 'd) list \<Rightarrow> 'd list" where
  "times_of name es = map snd (filter (\<lambda>e. fst e = name) es)"

text \<open>The statistics of the events \<open>es\<close>.\<close>

definition stats_ok :: "(string \<times> 'd::{zero,plus}) list \<Rightarrow> 'd stats \<Rightarrow> bool" where
  "stats_ok es st \<longleftrightarrow>
     distinct (map sname (calls st)) \<and> set (map sname (calls st)) = fst ` set es \<and>
     (\<forall>c \<in> set (calls st). seconds c = foldl (+) (hd (times_of (sname c) es)) (tl (times_of (sname c) es))) \<and>
     total_seconds st = foldl (+) 0 (map snd es) \<and> generation st = of_nat (length es)"

lemma add_to_calls_None: "add_to_calls cs name s = None \<longleftrightarrow> name \<notin> set (map sname cs)"
  by (induction cs) (auto split: option.splits)

lemma add_to_calls_Some:
  "add_to_calls cs name s = Some cs' \<Longrightarrow> distinct (map sname cs) \<Longrightarrow>
   map sname cs' = map sname cs \<and>
   (\<forall>c' \<in> set cs'. \<exists>c \<in> set cs. sname c' = sname c \<and>
      seconds c' = (if sname c = name then seconds c + s else seconds c))"
proof (induction cs arbitrary: cs')
  case (Cons c cs)
  show ?case
  proof (cases "sname c = name")
    case True
    with Cons.prems have "cs' = c\<lparr>seconds := seconds c + s\<rparr> # cs" by simp
    moreover have "sname c' \<noteq> name" if "c' \<in> set cs" for c'
      using imageI [OF that, of sname] True Cons.prems(2) by (metis distinct.simps(2) list.simps(9) set_map)
    ultimately show ?thesis using True by auto
  next
    case False
    with Cons.prems obtain ds where ds: "add_to_calls cs name s = Some ds" "cs' = c # ds"
      by (auto split: option.splits)
    from Cons.IH [OF ds(1)] Cons.prems(2) ds(2) False show ?thesis by auto
  qed
qed simp

lemma times_of_append: "times_of n (es @ [e]) = times_of n es @ (if fst e = n then [snd e] else [])"
  by (simp add: times_of_def)

lemma times_of_empty: "times_of n es = [] \<longleftrightarrow> n \<notin> fst ` set es"
  by (force simp: times_of_def filter_empty_conv)

lemma add_event_ok:
  assumes ok: "stats_ok es st" and room: "card (fst ` set (es @ [e])) \<le> MAX_SYSCALLS"
    and name: "length (fst e) < NAME_LEN"
  shows "stats_ok (es @ [e]) (add_event e st)"
proof -
  obtain n s where e: "e = (n, s)" by (cases e)
  have nm: "take (NAME_LEN - 1) n = n" using name by (simp add: e)
  show ?thesis
  proof (cases "add_to_calls (calls st) n s")
    case (Some cs)
    then have mem: "n \<in> fst ` set es"
      using ok add_to_calls_None [of "calls st" n s] by (auto simp: stats_ok_def)
    from add_to_calls_Some [OF Some] ok have cs: "map sname cs = map sname (calls st)"
      "\<forall>c' \<in> set cs. \<exists>c \<in> set (calls st). sname c' = sname c \<and>
         seconds c' = (if sname c = n then seconds c + s else seconds c)"
      by (auto simp: stats_ok_def)
    have "seconds c' = foldl (+) (hd (times_of (sname c') (es @ [e]))) (tl (times_of (sname c') (es @ [e])))"
      if "c' \<in> set cs" for c'
    proof -
      from cs(2) that obtain c where c: "c \<in> set (calls st)" "sname c' = sname c"
        "seconds c' = (if sname c = n then seconds c + s else seconds c)" by blast
      then have "sname c \<in> fst ` set es" using ok by (auto simp: stats_ok_def)
      then have "times_of (sname c) es \<noteq> []" using times_of_empty by blast
      moreover have "seconds c = foldl (+) (hd (times_of (sname c) es)) (tl (times_of (sname c) es))"
        using ok c(1) by (simp add: stats_ok_def)
      ultimately show ?thesis using c by (auto simp: times_of_append e)
    qed
    moreover have "insert n (fst ` set es) = fst ` set es" using mem by blast
    ultimately show ?thesis
      using ok Some cs(1) unfolding stats_ok_def add_event_def add_stat_def
      by (simp add: e cs(1))
  next
    case None
    then have new: "n \<notin> set (map sname (calls st))" by (simp add: add_to_calls_None)
    then have new': "n \<notin> fst ` set es" using ok by (simp add: stats_ok_def)
    have "card (fst ` set es) < MAX_SYSCALLS"
      using room new' by (simp add: e)
    moreover have "length (calls st) = card (fst ` set es)"
      using ok unfolding stats_ok_def by (metis distinct_card length_map)
    ultimately have lt: "length (calls st) < MAX_SYSCALLS" by simp
    have "times_of n (es @ [e]) = [s]" using times_of_empty [of n es] new' by (simp add: times_of_append e)
    moreover have "times_of (sname c) (es @ [e]) = times_of (sname c) es" if "c \<in> set (calls st)" for c
      using that new by (auto simp: times_of_append e)
    ultimately show ?thesis
      using ok None lt new nm unfolding stats_ok_def add_event_def add_stat_def
      by (auto simp: e Let_def)
  qed
qed

lemma fold_events_ok:
  "card (fst ` set es) \<le> MAX_SYSCALLS \<Longrightarrow> list_all (\<lambda>e. length (fst e) < NAME_LEN) es \<Longrightarrow>
   stats_ok es (fold add_event es \<lparr>calls = [], total_seconds = 0, generation = 0\<rparr>)"
proof (induction es rule: rev_induct)
  case Nil
  show ?case by (simp add: stats_ok_def)
next
  case (snoc e es)
  have "fst ` set es \<subseteq> fst ` set (es @ [e])" by auto
  then have "card (fst ` set es) \<le> card (fst ` set (es @ [e]))" by (intro card_mono) auto
  with snoc have "stats_ok es (fold add_event es \<lparr>calls = [], total_seconds = 0, generation = 0\<rparr>)" by simp
  from add_event_ok [OF this snoc.prems(1)] snoc.prems(2) show ?case by simp
qed

lemma parse_syscall_name_length: "parse_syscall_name NAME_LEN line = Some n \<Longrightarrow> length n < NAME_LEN"
  by (auto simp: parse_syscall_name_def Let_def NAME_LEN_def split: if_splits)

lemma event_name: "event_of strtod line = Some e \<Longrightarrow> length (fst e) < NAME_LEN"
  by (auto simp: event_of_def split: option.splits dest: parse_syscall_name_length)

subsection \<open>The last report\<close>

definition events where
  "events strtod lines = List.map_filter (event_of strtod) lines"

lemma events_append:
  "events strtod (ls @ [l]) = events strtod ls @ (case event_of strtod l of None \<Rightarrow> [] | Some e \<Rightarrow> [e])"
  by (simp add: events_def map_filter_def split: option.split)

lemma length_events: "length (events strtod ls) \<le> length ls"
  by (induction ls) (auto simp: events_def map_filter_def intro: le_SucI)

lemma add_stat_generation: "generation (add_stat s name t) = generation s + 1"
  by (auto simp: add_stat_def Let_def split: option.split)

abbreviation no_stats :: "'d::zero stats" where
  "no_stats \<equiv> \<lparr>calls = [], total_seconds = 0, generation = 0\<rparr>"

lemma events_generation: "generation (fold add_event es no_stats) = of_nat (length es)"
  by (induction es rule: rev_induct) (simp_all add: add_event_def add_stat_generation)

text \<open>\<open>k\<close> of the events are in the last report that was printed.\<close>

definition reported where
  "reported strtod percent ls p \<longleftrightarrow>
     pstats p = fold add_event (events strtod ls) no_stats \<and>
     (\<exists>k \<le> length (events strtod ls). printed_generation p = of_nat k \<and>
        (k = length (events strtod ls) \<longrightarrow> (\<exists>pre. printed p = pre @ print_report percent (pstats p))))"

lemma reported_start: "reported strtod percent [] start"
  by (auto simp: reported_def start_def events_def map_filter_def print_report_def)

lemma count_line_event:
  "count_line strtod clock l p =
     (case event_of strtod l of
        None \<Rightarrow> p
      | Some e \<Rightarrow> let p = p\<lparr>pstats := add_event e (pstats p)\<rparr> in
          if last_report p = 0 then p\<lparr>last_report := clock (ticks p), ticks := ticks p + 1\<rparr> else p)"
  by (auto simp: count_line_def event_of_def add_event_def split: option.split)

lemma reported_count:
  assumes "reported strtod percent ls p"
  shows "reported strtod percent (ls @ [l]) (count_line strtod clock l p)"
proof (cases "event_of strtod l")
  case None
  then show ?thesis using assms by (auto simp: reported_def count_line_event events_append)
next
  case (Some e)
  from assms obtain k where "k \<le> length (events strtod ls)" "printed_generation p = of_nat k"
    by (auto simp: reported_def)
  then have "\<exists>k' \<le> length (events strtod ls) + 1. printed_generation p = of_nat k' \<and>
      k' \<noteq> length (events strtod ls) + 1"
    by (intro exI [of _ k]) auto
  with assms Some show ?thesis
    by (auto simp: reported_def count_line_event events_append Let_def)
qed

lemma reported_maybe:
  assumes "reported strtod percent ls p"
  shows "reported strtod percent ls (maybe_report percent clock p)"
proof -
  from assms have "generation (pstats p) = of_nat (length (events strtod ls))"
    by (simp add: reported_def events_generation)
  with assms show ?thesis by (auto simp: reported_def maybe_report_def Let_def)
qed

lemma reported_all: "reported strtod percent ls (fold (profile_line strtod percent clock) ls start)"
proof (induction ls rule: rev_induct)
  case Nil
  show ?case by (simp add: reported_start)
next
  case (snoc l ls)
  then show ?case by (simp add: profile_line_def reported_maybe reported_count)
qed

text \<open>
  C36: What the profiler prints ends with a report of all the calls it read, whenever the earlier
  reports came, once the trace is open: with at most 512 different calls, the entry of a call is the sum of its times in the
  order of the trace and the total is the sum of all; the status is that of the program traced.
\<close>
theorem profiler_final_report:
  fixes strtod :: "string \<Rightarrow> 'd::{linorder,zero,plus} option \<times> nat \<times> bool"
  assumes e: "got_pipe e" "got_child e" "got_stream e"
    and "length ls < 2 ^ 64" "card (fst ` set (events strtod ls)) \<le> MAX_SYSCALLS"
  shows "\<exists>pre st. run_profiler e strtod percent clock ls (Some w) = (pre @ print_report percent st, exit_status w) \<and>
    stats_ok (events strtod ls) st"
proof -
  define p where "p = fold (profile_line strtod percent clock) ls start"
  let ?es = "events strtod ls"
  have "reported strtod percent ls p" unfolding p_def by (rule reported_all)
  then obtain k where k: "pstats p = fold add_event ?es no_stats" "k \<le> length ?es"
    "printed_generation p = of_nat k" "k = length ?es \<Longrightarrow> \<exists>pre. printed p = pre @ print_report percent (pstats p)"
    by (auto simp: reported_def)
  have "list_all (\<lambda>e. length (fst e) < NAME_LEN) ?es"
    using event_name [of strtod] by (fastforce simp: list_all_iff events_def map_filter_def)
  from fold_events_ok [OF assms(5) this] k(1) have ok: "stats_ok ?es (pstats p)" by simp
  show ?thesis
  proof (cases "generation (pstats p) = printed_generation p")
    case True
    have "length ?es < 2 ^ 64" using length_events [of strtod ls] assms(4) by linarith
    moreover from this have "k < 2 ^ 64" using k(2) by linarith
    ultimately have "k = length ?es"
      using True k(1,3) by (simp add: events_generation word_of_nat_eq_iff take_bit_nat_eq_self)
    with k(4) obtain pre where "printed p = pre @ print_report percent (pstats p)" by blast
    with ok True e show ?thesis by (auto simp: run_profiler_def p_def [symmetric] Let_def)
  next
    case False
    with ok e show ?thesis by (auto simp: run_profiler_def p_def [symmetric] Let_def)
  qed
qed

text \<open>A trace of two lines, with times as numbers of one digit.\<close>

definition digit_strtod :: "string \<Rightarrow> nat option \<times> nat \<times> bool" where
  "digit_strtod s = (Some (nat (digit_val (hd s))), 1, False)"

lemma profiler_final_report_witness:
  "\<exists>pre st. run_profiler \<lparr>got_pipe = True, got_child = True, got_stream = True\<rparr> digit_strtod (\<lambda>_ _. 50) (\<lambda>n. int n) [''read(0) = 1 <2>'', ''read(0) = 0 <3>''] (Some (Exited 0)) =
     (pre @ print_report (\<lambda>_ _. 50) st, exit_status (Exited 0)) \<and> stats_ok [(''read'', 2), (''read'', 3 :: nat)] st"
proof -
  have ev: "events digit_strtod [''read(0) = 1 <2>'', ''read(0) = 0 <3>''] = [(''read'', 2), (''read'', 3)]"
    by code_simp
  have "card (fst ` set (events digit_strtod [''read(0) = 1 <2>'', ''read(0) = 0 <3>''])) \<le> MAX_SYSCALLS"
    by (simp add: ev MAX_SYSCALLS_def)
  from profiler_final_report [of "\<lparr>got_pipe = True, got_child = True, got_stream = True\<rparr>", OF _ _ _ _ this]
  show ?thesis unfolding ev by simp
qed

subsection \<open>The arguments of strace\<close>

lemma put_args_all:
  "length pre + length as \<le> length pre + length rest \<Longrightarrow>
   put_args (pre @ rest) (length pre) as = Some (pre @ as @ drop (length as) rest)"
proof (induction as arbitrary: pre rest)
  case (Cons a as)
  then obtain r rest' where "rest = r # rest'" by (cases rest) auto
  with Cons.IH [of "pre @ [a]" rest'] Cons.prems show ?case by simp
qed simp

text \<open>
  The arguments of strace and the terminating null pointer fill the array of \<open>argc + 6\<close> pointers
  exactly: none is written behind it, and the traced program gets its arguments unchanged.
\<close>
theorem strace_argv_fits:
  assumes "2 \<le> length argv"
  shows "make_strace_argv argv sp tp fd = Some (map Some ([sp, ''-T'', ''-qq'', ''-o'', fd, ''--'', tp] @ drop 2 argv) @ [None]) \<and>
    length (the (make_strace_argv argv sp tp fd)) = length argv + 6"
proof -
  have "length (map Some (strace_args argv sp tp fd) @ [None]) = length argv + 6"
    using assms by (simp add: strace_args_def)
  then show ?thesis
    using put_args_all [of "[]" "map Some (strace_args argv sp tp fd) @ [None]"
        "replicate (length argv + 6) None"]
    by (simp add: make_strace_argv_def) (simp add: strace_args_def)
qed

lemma join_path_bytes:
  "join_path alloc dir name = Some p \<Longrightarrow> alloc (length p + 1)"
  by (auto simp: join_path_def Let_def split: if_splits)

text \<open>With memory for the paths, the first part of PATH with an executable file of that name is taken.\<close>

definition in_dir :: "string \<Rightarrow> string \<Rightarrow> string" where
  "in_dir dir name = (if last dir \<noteq> CHR ''/'' then dir @ ''/'' @ name else dir @ name)"

lemma colon_parts_nonempty: "x \<in> set (colon_parts part s) \<Longrightarrow> x \<noteq> []"
  by (induction part s rule: colon_parts.induct) (auto split: if_splits)

lemma first_executable_finds:
  "\<forall>x \<in> set parts. x \<noteq> [] \<Longrightarrow>
     first_executable (\<lambda>_. True) access command parts = find access (map (\<lambda>d. in_dir d command) parts)"
  by (induction parts) (auto simp: join_path_def in_dir_def)

theorem child_executes_strace:
  assumes "2 \<le> length argv" "CHR ''/'' \<notin> set (argv ! 1)"
    and "find access (map (\<lambda>d. in_dir d ''strace'') (colon_parts [] path)) = Some sp"
    and "find access (map (\<lambda>d. in_dir d (argv ! 1)) (colon_parts [] path)) = Some tp"
  shows "child_exec (\<lambda>_. True) access (Some path) argv fd =
    Some (Exec sp (map Some ([sp, ''-T'', ''-qq'', ''-o'', ''/dev/fd/'' @ dec fd, ''--'', tp] @ drop 2 argv) @ [None]))"
proof -
  have ne: "path \<noteq> []" using assms(3) by auto
  have "\<not> (argv ! 1 \<noteq> [] \<and> hd (argv ! 1) = CHR ''/'')" using assms(2) by (cases "argv ! 1") auto
  then show ?thesis
    using assms ne colon_parts_nonempty [of _ "[]" path] strace_argv_fits [OF assms(1)]
    by (simp add: child_exec_def resolve_executable_def xstrdup_def Let_def first_executable_finds) blast
qed

lemma strace_argv_fits_witness:
  "make_strace_argv [''sperf'', ''ls'', ''-l''] ''/bin/strace'' ''/bin/ls'' ''/dev/fd/4'' =
     Some (map Some ([''/bin/strace'', ''-T'', ''-qq'', ''-o'', ''/dev/fd/4'', ''--'', ''/bin/ls''] @ drop 2 [''sperf'', ''ls'', ''-l'']) @ [None]) \<and>
   length (the (make_strace_argv [''sperf'', ''ls'', ''-l''] ''/bin/strace'' ''/bin/ls'' ''/dev/fd/4'')) =
     length [''sperf'', ''ls'', ''-l''] + 6"
  by (rule strace_argv_fits) simp

end
