(* ===== verification/Crepl.thy ===== *)
theory Crepl
  imports Stdio CText "HOL-Library.Multiset"
begin

definition MAX_HANDLES :: nat where "MAX_HANDLES = 128"

text \<open>How the calls of \<open>write_source\<close> end; a failed \<open>fprintf\<close> or \<open>fclose\<close> leaves the first \<open>k\<close> characters
  in the file.\<close>

datatype write_result = Written | Fopen_fails | Fprintf_fails nat | Fclose_fails nat

text \<open>The mode of \<open>dlopen\<close>, with \<open>RTLD_NOW\<close> in both.\<close>

datatype dlmode = RTLD_GLOBAL | RTLD_LOCAL

text \<open>A call of code of a library: the value with which it comes back, or that it does not.\<close>

datatype 'a call = Back 'a | No_return

text \<open>The answers of the system at the time when \<open>n\<close> temporary names have been asked for: \<open>mkstemp n\<close> is
  the name, given the files there are, \<open>writes n\<close> the outcome of writing the source, \<open>forks n\<close> whether the
  compiler starts, \<open>waits n\<close>
  the errors of \<open>waitpid\<close> before it succeeds, \<open>True\<close> for \<open>EINTR\<close>.  \<open>compiler\<close> is the library for a
  command line and a source text, if the child exits with 0.  The loaded libraries have a state \<open>'w\<close>:
  \<open>opened\<close> is the handle of a library with the state after its constructors, \<open>closed\<close> unloads a library
  with its destructors, \<open>symbol\<close> is a function of a handle, which may use and change the state.\<close>

record ('h, 'w) creplenv =
  mkstemp :: "nat \<Rightarrow> (string \<rightharpoonup> string) \<Rightarrow> string option"
  writes :: "nat \<Rightarrow> write_result"
  forks :: "nat \<Rightarrow> bool"
  waits :: "nat \<Rightarrow> bool list"
  env_CREPL_CC :: "string option"
  env_CC :: "string option"
  compiler :: "string list \<Rightarrow> string \<Rightarrow> string option"
  opened :: "dlmode \<Rightarrow> 'w \<Rightarrow> string \<Rightarrow> ('h \<times> 'w) option call"
  closed :: "'h \<Rightarrow> 'w \<Rightarrow> 'w call"
  symbol :: "'h \<Rightarrow> string \<Rightarrow> ('w \<Rightarrow> (int \<times> 'w) call) option"

text \<open>\<open>open_handles\<close> are those that \<open>dlopen\<close> has given and \<open>dlclose\<close> has not taken back, the last one first.\<close>

record ('h, 'w) crepl =
  files :: "string \<rightharpoonup> string"
  temps :: nat
  loaded_handles :: "'h list"
  open_handles :: "'h list"
  open_streams :: nat
  libs :: 'w
  expr_count :: nat
  printed_out :: "string list"

text \<open>A part of the program: it goes on with a value, or the process is in library code for good or gone,
  in the state in which that code was entered.\<close>

datatype ('a, 's) run = Returns 'a 's | Gone 's

primrec run_then :: "('a, 's) run \<Rightarrow> ('a \<Rightarrow> 's \<Rightarrow> ('b, 's) run) \<Rightarrow> ('b, 's) run" where
  "run_then (Returns a s) k = k a s"
| "run_then (Gone s) k = Gone s"


subsection \<open>Text\<close>

definition trim_left :: "string \<Rightarrow> string" where
  "trim_left s = dropWhile is_space s"

definition chomp :: "string \<Rightarrow> string" where
  "chomp s = rev (dropWhile (\<lambda>c. c = NL \<or> c = CHR 0x0D) (rev s))"

definition is_function_definition :: "string \<Rightarrow> bool" where
  "is_function_definition s \<longleftrightarrow>
     starts_with ''int'' s \<and> (case drop 3 s of [] \<Rightarrow> False | c # _ \<Rightarrow> is_space c)"

text \<open>What \<open>write_source\<close> writes.\<close>

definition source_text :: "string \<Rightarrow> string option \<Rightarrow> string" where
  "source_text line wrapper_name =
     (case wrapper_name of
        None \<Rightarrow> line @ [NL]
      | Some w \<Rightarrow> ''int '' @ w @ ''(void) { return ('' @ line @ ''); }'' @ [NL])"

definition runtime_compiler :: "string option \<Rightarrow> string option \<Rightarrow> string" where
  "runtime_compiler crepl_cc cc =
     (case crepl_cc of
        Some c \<Rightarrow> if c \<noteq> [] then c else (case cc of Some d \<Rightarrow> if d \<noteq> [] then d else ''gcc'' | None \<Rightarrow> ''gcc'')
      | None \<Rightarrow> (case cc of Some d \<Rightarrow> if d \<noteq> [] then d else ''gcc'' | None \<Rightarrow> ''gcc''))"

definition compiler_argv :: "string \<Rightarrow> string \<Rightarrow> string \<Rightarrow> string list" where
  "compiler_argv cc source library =
     [cc, ''-x'', ''c'', ''-std=gnu17'', ''-fPIC'', ''-shared'', ''-Wno-implicit-function-declaration'',
      source, ''-o'', library]"

subsection \<open>Files\<close>

definition make_temp_path :: "('h, 'w) creplenv \<Rightarrow> ('h, 'w) crepl \<Rightarrow> string option \<times> ('h, 'w) crepl" where
  "make_temp_path env s =
     (case mkstemp env (temps s) (files s) of
        None \<Rightarrow> (None, s\<lparr>temps := temps s + 1\<rparr>)
      | Some p \<Rightarrow> (Some p, s\<lparr>temps := temps s + 1, files := (files s)(p \<mapsto> [])\<rparr>))"

definition store_file :: "string \<Rightarrow> string \<Rightarrow> ('h, 'w) crepl \<Rightarrow> ('h, 'w) crepl" where
  "store_file path text s = s\<lparr>files := (files s)(path \<mapsto> text)\<rparr>"

text \<open>A failed \<open>fprintf\<close> returns before the stream is closed.\<close>

definition write_source ::
  "('h, 'w) creplenv \<Rightarrow> string \<Rightarrow> string \<Rightarrow> string option \<Rightarrow> ('h, 'w) crepl \<Rightarrow> bool \<times> ('h, 'w) crepl" where
  "write_source env path line wrapper_name s =
     (let text = source_text line wrapper_name in
      case writes env (temps s) of
        Fopen_fails \<Rightarrow> (False, s)
      | Fprintf_fails k \<Rightarrow> (False, (store_file path (take k text) s)\<lparr>open_streams := open_streams s + 1\<rparr>)
      | Fclose_fails k \<Rightarrow> (False, store_file path (take k text) s)
      | Written \<Rightarrow> (True, store_file path text s))"

text \<open>The loop around \<open>waitpid\<close>, on the errors before it delivers the status.\<close>

primrec wait_child :: "bool list \<Rightarrow> bool" where
  "wait_child [] = True"
| "wait_child (eintr # es) = (if eintr then wait_child es else False)"

text \<open>\<open>compile_shared_object\<close>: the child fails when the source is not there or is not accepted.  When
  \<open>waitpid\<close> fails, what the child still writes is left out.\<close>

definition compile_shared_object ::
  "('h, 'w) creplenv \<Rightarrow> string \<Rightarrow> string \<Rightarrow> ('h, 'w) crepl \<Rightarrow> bool \<times> ('h, 'w) crepl" where
  "compile_shared_object env source out s =
     (if \<not> forks env (temps s) then (False, s)
      else if \<not> wait_child (waits env (temps s)) then (False, s)
      else
        (let argv = compiler_argv (runtime_compiler (env_CREPL_CC env) (env_CC env)) source out in
         case Option.bind (files s source) (compiler env argv) of
           None \<Rightarrow> (False, s)
         | Some lib \<Rightarrow> (True, store_file out lib s)))"

definition unlink :: "string \<Rightarrow> ('h, 'w) crepl \<Rightarrow> ('h, 'w) crepl" where
  "unlink p s = s\<lparr>files := (files s)(p := None)\<rparr>"

definition cleanup_files :: "string \<Rightarrow> string \<Rightarrow> ('h, 'w) crepl \<Rightarrow> ('h, 'w) crepl" where
  "cleanup_files source library s = unlink library (unlink source s)"

definition dlopen ::
  "('h, 'w) creplenv \<Rightarrow> string \<Rightarrow> dlmode \<Rightarrow> ('h, 'w) crepl \<Rightarrow> ('h option, ('h, 'w) crepl) run" where
  "dlopen env path mode s =
     (case files s path of
        None \<Rightarrow> Returns None s
      | Some lib \<Rightarrow>
          (case opened env mode (libs s) lib of
             No_return \<Rightarrow> Gone s
           | Back None \<Rightarrow> Returns None s
           | Back (Some (handle, w)) \<Rightarrow>
               Returns (Some handle) (s\<lparr>open_handles := handle # open_handles s, libs := w\<rparr>)))"

definition dlclose :: "('h, 'w) creplenv \<Rightarrow> 'h \<Rightarrow> ('h, 'w) crepl \<Rightarrow> (unit, ('h, 'w) crepl) run" where
  "dlclose env handle s =
     (case closed env handle (libs s) of
        No_return \<Rightarrow> Gone s
      | Back w \<Rightarrow> Returns () (s\<lparr>open_handles := remove1 handle (open_handles s), libs := w\<rparr>))"

subsection \<open>Lines\<close>

text \<open>The common start of both kinds of line: two temporary files, the source, the library.\<close>

definition build_library ::
  "('h, 'w) creplenv \<Rightarrow> string \<Rightarrow> string option \<Rightarrow> ('h, 'w) crepl \<Rightarrow> (string \<times> string) option \<times> ('h, 'w) crepl" where
  "build_library env line wrapper_name s =
     (case make_temp_path env s of
        (None, s) \<Rightarrow> (None, s)
      | (Some source, s) \<Rightarrow>
          (case make_temp_path env s of
             (None, s) \<Rightarrow> (None, unlink source s)
           | (Some library, s) \<Rightarrow>
               (case write_source env source line wrapper_name s of
                  (False, s) \<Rightarrow> (None, cleanup_files source library s)
                | (True, s) \<Rightarrow>
                    (case compile_shared_object env source library s of
                       (False, s) \<Rightarrow> (None, cleanup_files source library s)
                     | (True, s) \<Rightarrow> (Some (source, library), s)))))"

definition load_function_line ::
  "('h, 'w) creplenv \<Rightarrow> string \<Rightarrow> ('h, 'w) crepl \<Rightarrow> (bool, ('h, 'w) crepl) run" where
  "load_function_line env line s =
     (case build_library env line None s of
        (None, s) \<Rightarrow> Returns False s
      | (Some (source, library), s) \<Rightarrow>
          run_then (dlopen env library RTLD_GLOBAL s) (\<lambda>opened s.
            case opened of
              None \<Rightarrow> Returns False (cleanup_files source library s)
            | Some handle \<Rightarrow>
                if length (loaded_handles s) \<ge> MAX_HANDLES
                then run_then (dlclose env handle s) (\<lambda>_ s. Returns False (cleanup_files source library s))
                else Returns True (cleanup_files source library
                       (s\<lparr>loaded_handles := loaded_handles s @ [handle]\<rparr>))))"

definition wrapper_name :: "nat \<Rightarrow> string" where
  "wrapper_name n = ''__crepl_expr_'' @ dec n"

definition eval_expression_line ::
  "('h, 'w) creplenv \<Rightarrow> string \<Rightarrow> ('h, 'w) crepl \<Rightarrow> (int option, ('h, 'w) crepl) run" where
  "eval_expression_line env line s =
     (let wrapper = wrapper_name (expr_count s);
          s = s\<lparr>expr_count := expr_count s + 1\<rparr> in
      case build_library env line (Some wrapper) s of
        (None, s) \<Rightarrow> Returns None s
      | (Some (source, library), s) \<Rightarrow>
          run_then (dlopen env library RTLD_LOCAL s) (\<lambda>opened s.
            case opened of
              None \<Rightarrow> Returns None (cleanup_files source library s)
            | Some handle \<Rightarrow>
                (case symbol env handle wrapper of
                   None \<Rightarrow>
                     run_then (dlclose env handle s) (\<lambda>_ s. Returns None (cleanup_files source library s))
                 | Some f \<Rightarrow>
                     (case f (libs s) of
                        No_return \<Rightarrow> Gone s
                      | Back (result, w) \<Rightarrow>
                          run_then (dlclose env handle (s\<lparr>libs := w\<rparr>)) (\<lambda>_ s.
                            Returns (Some result) (cleanup_files source library s))))))"

definition print_line :: "string \<Rightarrow> ('h, 'w) crepl \<Rightarrow> ('h, 'w) crepl" where
  "print_line l s = s\<lparr>printed_out := printed_out s @ [l @ [NL]]\<rparr>"

text \<open>The body of the loop of \<open>main\<close>, on the string in the buffer.\<close>

definition crepl_line :: "('h, 'w) creplenv \<Rightarrow> string \<Rightarrow> ('h, 'w) crepl \<Rightarrow> (unit, ('h, 'w) crepl) run" where
  "crepl_line env line s =
     (let input = trim_left (chomp line) in
      if input = [] then Returns () s
      else if is_function_definition input
      then run_then (load_function_line env input s) (\<lambda>ok s.
             Returns () (if ok then print_line ''OK.'' s else print_line ''ERROR.'' s))
      else run_then (eval_expression_line env input s) (\<lambda>r s.
             Returns () (case r of
               Some result \<Rightarrow> print_line (''= '' @ show_int result @ ''.'') s
             | None \<Rightarrow> print_line ''ERROR.'' s)))"




subsection \<open>Temporary files\<close>

text \<open>What \<open>mkstemp\<close> promises: a name that is in use for no file.\<close>

definition fresh_names :: "('h, 'w) creplenv \<Rightarrow> bool" where
  "fresh_names env \<longleftrightarrow> (\<forall>n fs p. mkstemp env n fs = Some p \<longrightarrow> fs p = None)"



lemma cleanup_same [simp]:
  "loaded_handles (cleanup_files a b s) = loaded_handles s" "expr_count (cleanup_files a b s) = expr_count s"
  "printed_out (cleanup_files a b s) = printed_out s" "open_handles (cleanup_files a b s) = open_handles s"
  "open_streams (cleanup_files a b s) = open_streams s" "libs (cleanup_files a b s) = libs s"
  by (simp_all add: cleanup_files_def unlink_def)

text \<open>A run that goes on with \<open>P\<close>, or is gone with \<open>G\<close>.\<close>

definition run_ok :: "('a \<Rightarrow> 's \<Rightarrow> bool) \<Rightarrow> ('s \<Rightarrow> bool) \<Rightarrow> ('a, 's) run \<Rightarrow> bool" where
  "run_ok P G r = (case r of Returns a s \<Rightarrow> P a s | Gone s \<Rightarrow> G s)"

lemma run_ok_simps [simp]: "run_ok P G (Returns a s) = P a s" "run_ok P G (Gone s) = G s"
  by (simp_all add: run_ok_def)





definition going :: "('a, 's) run \<Rightarrow> bool" where
  "going r = (case r of Returns a s \<Rightarrow> True | Gone s \<Rightarrow> False)"

lemma going_simps [simp]: "going (Returns a s)" "\<not> going (Gone s)"
  by (simp_all add: going_def)






text \<open>What a step leaves as it was; streams only if no \<open>fprintf\<close> fails.\<close>

definition same_session :: "('h, 'w) creplenv \<Rightarrow> ('h, 'w) crepl \<Rightarrow> ('h, 'w) crepl \<Rightarrow> bool" where
  "same_session env s s' \<longleftrightarrow>
     loaded_handles s' = loaded_handles s \<and> open_handles s' = open_handles s \<and>
     printed_out s' = printed_out s \<and>
     ((\<forall>n k. writes env n \<noteq> Fprintf_fails k) \<longrightarrow> open_streams s' = open_streams s)"

lemma same_session_simps [simp]:
  "same_session env s s"
  "same_session env s (cleanup_files a b s') = same_session env s s'"
  "same_session env s (s'\<lparr>temps := n\<rparr>) = same_session env s s'"
  "same_session env s (s'\<lparr>files := fs\<rparr>) = same_session env s s'"
  "same_session env (s\<lparr>expr_count := m\<rparr>) s' = same_session env s s'"
  by (simp_all add: same_session_def)














subsection \<open>Sessions\<close>




definition the_input :: "string \<Rightarrow> string" where
  "the_input line = trim_left (chomp line)"









text \<open>
  C39: An expression is answered by the value that the function of its wrapper computes from the state of
  the loaded libraries, when the wrapper compiles, loads and is found; otherwise by an error.  It
  keeps the effects of the function on that state, but not the library.  If the function does not come back
  there is no answer.
\<close>
theorem crepl_expression_value:
  assumes "fresh_names env" "the_input line \<noteq> []" "\<not> is_function_definition (the_input line)"
    and env: "mkstemp env (temps s) (files s) = Some a"
      "mkstemp env (Suc (temps s)) ((files s)(a \<mapsto> [])) = Some b"
      "writes env (temps s + 2) = Written" "forks env (temps s + 2)" "False \<notin> set (waits env (temps s + 2))"
    and w: "w = wrapper_name (expr_count s)"
  shows "case compiler env (compiler_argv (runtime_compiler (env_CREPL_CC env) (env_CC env)) a b)
           (''int '' @ w @ ''(void) { return ('' @ the_input line @ ''); }'' @ [NL]) of
      None \<Rightarrow> \<exists>s'. crepl_line env line s = Returns () s' \<and> printed_out s' = printed_out s @ [''ERROR.'' @ [NL]]
    | Some lib \<Rightarrow>
        (case opened env RTLD_LOCAL (libs s) lib of
           No_return \<Rightarrow> \<exists>s'. crepl_line env line s = Gone s' \<and> printed_out s' = printed_out s
         | Back None \<Rightarrow> \<exists>s'. crepl_line env line s = Returns () s' \<and> printed_out s' = printed_out s @ [''ERROR.'' @ [NL]]
         | Back (Some (h, l)) \<Rightarrow>
             (case symbol env h w of
                None \<Rightarrow>
                  (case closed env h l of
                     No_return \<Rightarrow> \<exists>s'. crepl_line env line s = Gone s' \<and> printed_out s' = printed_out s
                   | Back _ \<Rightarrow> \<exists>s'. crepl_line env line s = Returns () s' \<and> printed_out s' = printed_out s @ [''ERROR.'' @ [NL]])
              | Some f \<Rightarrow>
                  (case f l of
                     No_return \<Rightarrow> \<exists>s'. crepl_line env line s = Gone s' \<and> printed_out s' = printed_out s
                   | Back (v, l') \<Rightarrow>
                       (case closed env h l' of
                          No_return \<Rightarrow> \<exists>s'. crepl_line env line s = Gone s' \<and> printed_out s' = printed_out s
                        | Back l'' \<Rightarrow> \<exists>s'. crepl_line env line s = Returns () s' \<and>
                            printed_out s' = printed_out s @ [''= '' @ show_int v @ ''.'' @ [NL]] \<and>
                            libs s' = l'' \<and> open_handles s' = open_handles s))))"
proof -
  have "((files s)(a \<mapsto> [])) b = None" using assms(1) env(2) unfolding fresh_names_def by blast
  then have ab: "a \<noteq> b" by auto
  have wait: "False \<notin> set es \<Longrightarrow> wait_child es" for es by (induction es) auto
  let ?s = "s\<lparr>expr_count := expr_count s + 1, temps := Suc (Suc (temps s)),
      files := (files s)(a \<mapsto> source_text (the_input line) (Some w), b \<mapsto> [])\<rparr>"
  let ?argv = "compiler_argv (runtime_compiler (env_CREPL_CC env) (env_CC env)) a b"
  let ?c = "compiler env ?argv (source_text (the_input line) (Some w))"
  have build: "build_library env (the_input line) (Some w) (s\<lparr>expr_count := expr_count s + 1\<rparr>) =
      (case ?c of None \<Rightarrow> (None, cleanup_files a b ?s) | Some lib \<Rightarrow> (Some (a, b), store_file b lib ?s))"
    using env ab wait [OF env(5)]
    by (simp add: build_library_def make_temp_path_def write_source_def store_file_def compile_shared_object_def
        Let_def fun_upd_twist split: option.split)
  have line: "crepl_line env line s =
      run_then (eval_expression_line env (the_input line) s) (\<lambda>r s.
             Returns () (case r of
               Some result \<Rightarrow> print_line (''= '' @ show_int result @ ''.'') s
             | None \<Rightarrow> print_line ''ERROR.'' s))"
    using assms(2,3) by (simp add: crepl_line_def the_input_def [symmetric] Let_def)
  show ?thesis
    unfolding line eval_expression_line_def Let_def w [symmetric] build
    by (simp add: source_text_def dlopen_def store_file_def print_line_def dlclose_def cleanup_files_def unlink_def
        split: option.split prod.split call.split)
qed

text \<open>An environment in which every expression is \<open>7\<close>, and whose libraries count the evaluations.\<close>

definition free_name :: "nat \<Rightarrow> (string \<rightharpoonup> string) \<Rightarrow> string option" where
  "free_name n fs = (if fs (dec n) = None then Some (dec n) else None)"

definition sample_env :: "(unit, nat) creplenv" where
  "sample_env = \<lparr>mkstemp = free_name, writes = (\<lambda>_. Written), forks = (\<lambda>_. True),
     waits = (\<lambda>_. [True]), env_CREPL_CC = None, env_CC = None, compiler = (\<lambda>_ t. Some t),
     opened = (\<lambda>_ w _. Back (Some ((), w))), closed = (\<lambda>_ w. Back w), symbol = (\<lambda>_ _. Some (\<lambda>w. Back (7, w + 1)))\<rparr>"

definition sample_crepl :: "(unit, nat) crepl" where
  "sample_crepl = \<lparr>files = Map.empty, temps = 0, loaded_handles = [], open_handles = [], open_streams = 0,
     libs = 0, expr_count = 0, printed_out = []\<rparr>"

lemma dec_inj: "dec m = dec n \<Longrightarrow> m = n"
  by (metis dec_digits of_nat_eq_iff)

lemma wrapper_name_inj: "wrapper_name m = wrapper_name n \<Longrightarrow> m = n"
  by (auto simp: wrapper_name_def dest: dec_inj)

lemma sample_fresh: "fresh_names sample_env"
  by (auto simp: fresh_names_def sample_env_def free_name_def split: if_splits)




lemma crepl_expression_value_witness:
  "\<exists>s'. crepl_line sample_env (''1 + 6'' @ [NL]) sample_crepl = Returns () s' \<and>
     printed_out s' = [''= 7.'' @ [NL]] \<and> libs s' = 1"
proof -
  have i: "the_input (''1 + 6'' @ [NL]) = ''1 + 6''"
    by (simp add: the_input_def chomp_def trim_left_def is_space_def code_def)
  then have "the_input (''1 + 6'' @ [NL]) \<noteq> []" "\<not> is_function_definition (the_input (''1 + 6'' @ [NL]))"
    by (simp_all add: is_function_definition_def starts_with_def)
  have c: "char_of (55 :: nat) = CHR ''7''" by code_simp
  have ne: "dec (Suc 0) \<noteq> dec 0" using dec_inj by blast
  from crepl_expression_value [OF sample_fresh \<open>the_input _ \<noteq> []\<close> \<open>\<not> is_function_definition _\<close>, of sample_crepl "dec 0" "dec 1", OF _ _ _ _ _ refl] ne show ?thesis
    by (auto simp: sample_env_def sample_crepl_def free_name_def show_int_def dec.simps [of 7] digit_char_def c)
qed

end
