(* ===== verification/Spec2Isabelle.thy ===== *)
theory Spec2Isabelle
  imports KvThreads MallocThreads LabyrinthPlay FatRecover HttpMain GptCorrect ThreadSync PstreeForest SperfCorrect Crepl
begin

text \<open>
  Verification library of the operating-system labs: nine C programs under \<open>src/m1\<close> to \<open>src/m9\<close>
  that share no code.  Each is a family of theories that starts with the translation of the code and
  ends with its properties; functions, structures and constants keep the names of the code.

  \<^bold>\<open>Shared.\<close>  \<open>Prelude\<close>: machine integers, bytes, the little-endian layout of integers, C strings.
  \<open>Stdio\<close>: streams and \<open>fgets\<close>.  \<open>CText\<close>: character classes, \<open>sscanf\<close> words, \<open>strtol\<close>, decimal
  printing, \<open>strcmp\<close>.

  \<^bold>\<open>m1, labyrinth.c.\<close>  \<open>Labyrinth\<close> holds the map as a list of rows and every function from parsing the
  options to \<open>main\<close>.  \<open>LabyrinthConn\<close>: \<open>dfs\<close> ends and \<open>isConnected\<close> decides whether all floor
  cells are joined.  \<open>LabyrinthMap\<close>: which files load, and that a saved map loads as the same map.
  \<open>LabyrinthPlay\<close>: moves, and the files that \<open>main\<close> writes.

  \<^bold>\<open>m2, pstree.c.\<close>  \<open>Pstree\<close> reads the status files into the array of processes, builds and sorts the
  lists of children and prints the forest as a list of visits.  \<open>PstreeForest\<close>: without a process 0
  and without cycles every process is printed once, at its depth, a process above its children and
  the subtrees of siblings in the order of their list.

  \<^bold>\<open>m3, sperf.c.\<close>  \<open>Sperf\<close> parses the lines of strace, keeps the statistics, prints reports and builds
  the command line.  \<open>SperfCorrect\<close>: the statistics are the sums of the times, \<open>pick_top\<close> finds the
  calls with the longest times, stated apart from the comparator of the code; the output ends with a report of everything read.

  \<^bold>\<open>m4, crepl.c.\<close>  \<open>Crepl\<close> turns a line into a source file, a library and a handle, over an abstract
  compiler and loader, with an abstract state of the loaded libraries.  Code of the user that is
  loaded or called may return or not; when it returns, no temporary file survives a line and no
  library the session, whichever step fails, and when it does not, at most the two files of its line
  are left.

  \<^bold>\<open>m5, mymalloc.c.\<close>  \<open>Malloc\<close> has block headers at 64-bit addresses and every routine on them;
  \<open>MallocList\<close> the doubly linked list as a list of blocks; \<open>MallocRefine\<close> and \<open>MallocCorrect\<close> show
  that the routines refine operations on that list; \<open>MallocCalls\<close> and \<open>MallocSafe\<close> what clients
  see, with the locale \<open>block_allocator\<close> interpreted on \<open>mymalloc\<close> and \<open>myfree\<close>; \<open>MallocThreads\<close> has
  the calls of several threads as steps that interleave.  \<open>vmalloc\<close> is assumed to do what is
  documented, to fail or return a region apart from those in use; with chunks that are not above the
  list, \<open>mymalloc\<close> can return a block in use, so the properties have both cases.  Its lock is an instance of the locale
  \<open>spin_lock\<close> of \<open>SpinLock\<close>, which gives mutual exclusion.

  \<^bold>\<open>m6, gpt.c and thread.h.\<close>  \<open>Threads\<close> models a thread as a tree of single loads and stores, so that
  threads interleave at every access of memory, and has the thread table with \<open>spawn\<close> and \<open>join\<close>;
  \<open>GptPar\<close> the slices and \<open>parallel_for\<close>; \<open>GptLayers\<close> and \<open>GptAttention\<close> the layers with the cells
  that each iteration of their loops touches and the products of \<open>int\<close>s that it computes; \<open>GptModel\<close> the tensors and \<open>gpt2_forward\<close>;
  \<open>GptForward\<close> that the layers of the model do not conflict; \<open>GptMain\<close> the checkpoint, sampling and
  \<open>main\<close>; \<open>GptCorrect\<close> the properties, among them that the output is the same for every number of
  workers and every interleaving.  \<open>ThreadSync\<close> is the spin lock of
  \<open>thread-sync.h\<close>, another instance of \<open>spin_lock\<close>.

  \<^bold>\<open>m7, httpd.c.\<close>  \<open>HttpRequest\<close> handles one request; \<open>HttpServe\<close> has its properties; \<open>HttpQueue\<close> is
  the linked queue, an instance of the locale \<open>fifo\<close>; \<open>HttpServer\<close> the step relation of the
  accepting thread and the workers, with the connections that were accepted and their descriptors,
  and its invariant; \<open>HttpLog\<close> the order of the log and progress;
  \<open>HttpMain\<close> the start of the server and how \<open>main\<close> ends.

  \<^bold>\<open>m8, fsrecov.c and fat32.h.\<close>  \<open>Fat\<close> reads an image and collects the candidates; \<open>FatTools\<close> is the
  checksum by an external program; \<open>FatBounds\<close> shows that nothing outside the image is read;
  \<open>FatRecover\<close> what a candidate is.

  \<^bold>\<open>m9, kvdb.c.\<close>  \<open>KvFile\<close> is the file and the record header; \<open>KvStore\<close> open, put, get and close with
  every failing call an outcome of an environment; \<open>KvSpec\<close> a reference parser of the log; \<open>KvCrash\<close>
  the file at every point of failure; \<open>KvCorrect\<close> the store as a map, and that a put is atomic;
  \<open>KvThreads\<close> the locks, with threads of several processes that interleave and die.

  \<^bold>\<open>How code is represented.\<close>  A state is a record, an update its new value.  A failing call of the
  system is an outcome in an environment or a list of events; a fault (a null pointer, an address
  without an object, a failed assertion) is \<open>None\<close>, in \<open>m6\<close> an \<open>outcome\<close> of its own.  Words have their width where the code depends on
  it: the sizes of \<open>m5\<close>, the fields of \<open>m8\<close> and \<open>m9\<close>.  The \<open>int\<close>s of \<open>m6\<close> are natural numbers,
  and each product or sum of them that does not fit in 31 bits makes the run undefined, the outcome
  \<open>Undef\<close>; the ticket numbers of \<open>m7\<close> are natural numbers that do not wrap.  Code that is not in
  the repository is an argument: \<open>vmalloc\<close>, CGI programs, checksum programs, the compiler and the
  loader, strace, and the arithmetic of floating point.

  \<^bold>\<open>Loops.\<close>  Most loops are structural recursion or have a decreasing measure (the rest of a stream, the
  bytes that are left).  \<open>dfs\<close> and \<open>find_free_from\<close> are partial functions, shown to return.  Retry
  loops on \<open>EINTR\<close> run on a list of outcomes, or are steps that change nothing.  \<open>print_tree\<close> has
  fuel: any bound on the depth of the tree is enough, and with a process 0 below itself no bound is.

  \<^bold>\<open>Not modelled.\<close>  Signal handling and the socket options of \<open>httpd.c\<close>; freeing memory at the
  end of a process; the text of some messages; the names that \<open>thread-sync.h\<close> gives to pthread and
  semaphore calls, which no program uses.  \<open>chat.py\<close>, the CGI scripts, the tests and
  the makefiles hold no logic of the labs.
\<close>

end
